(* ===== verification/Navi_Prelude.thy ===== *)
theory Navi_Prelude
  imports Main "HOL-Library.Word"
begin

text \<open>
  What every component shares: Go's integer and byte-string types, the faults a run of the
  code may end in, sequencing of fallible operations, and the little-endian integers of
  encoding/binary, with the facts about lists and words that the component theories use.

  A Go \<^verbatim>\<open>uint64\<close> is a \<open>64 word\<close>, a \<^verbatim>\<open>byte\<close> an \<open>8 word\<close>; a \<^verbatim>\<open>[]byte\<close> and a \<^verbatim>\<open>string\<close> are
  lists of bytes. A slice is bounded by its length (the capacity beyond the length is not
  part of a byte string here). A Go \<^verbatim>\<open>int\<close> that is a length is a \<open>nat\<close>, any other
  an \<open>int\<close>.
\<close>

unbundle bit_operations_syntax

type_synonym u8 = "8 word"
type_synonym u64 = "64 word"
type_synonym bytes = "u8 list"

named_theorems byte_simps \<open>lengths and slices of the byte layouts\<close>
named_theorems frame_simps \<open>fields an operation of the server leaves alone\<close>

section \<open>Faults and sequencing\<close>

datatype io_error = EOF | ShortWrite | InvalidOrigin int | NegativeSeek | DeviceError nat

datatype panic =
    IndexOutOfRange
  | SliceOutOfRange
  | IdZero
  | NilStorage
  | IoPanic io_error
  | AssertFailed string
  | CommandTooLarge nat
  | NotConfigChange
  | SelfNotInCluster u64
  | IntnArgument

definition chain :: "'e + 'a \<Rightarrow> ('a \<Rightarrow> 'e + 'b) \<Rightarrow> 'e + 'b" where
  "chain m f = (case m of Inl e \<Rightarrow> Inl e | Inr a \<Rightarrow> f a)"

lemma chain_simps [simp]:
  "chain (Inl e) f = Inl e"
  "chain (Inr a) f = f a"
  by (simp_all add: chain_def)

lemma chain_Inr_iff: "chain m f = Inr b \<longleftrightarrow> (\<exists>a. m = Inr a \<and> f a = Inr b)"
  by (cases m) auto

lemma chain_Inr_elim:
  assumes "chain m f = Inr b"
  obtains a where "m = Inr a" and "f a = Inr b"
  using assms by (auto simp: chain_Inr_iff)

section \<open>Slices and indices\<close>

text \<open>\<^verbatim>\<open>xs[i]\<close> and \<^verbatim>\<open>xs[lo:hi]\<close>, with the panic where Go panics.\<close>

definition index :: "'a list \<Rightarrow> nat \<Rightarrow> panic + 'a" where
  "index xs i = (if i < length xs then Inr (xs ! i) else Inl IndexOutOfRange)"

definition slice :: "'a list \<Rightarrow> nat \<Rightarrow> nat \<Rightarrow> panic + 'a list" where
  "slice xs lo hi =
     (if lo \<le> hi \<and> hi \<le> length xs then Inr (take (hi - lo) (drop lo xs))
      else Inl SliceOutOfRange)"

lemma index_Inr [simp]: "i < length xs \<Longrightarrow> index xs i = Inr (xs ! i)"
  by (simp add: index_def)

lemma index_Inr_iff: "index xs i = Inr x \<longleftrightarrow> i < length xs \<and> x = xs ! i"
  by (auto simp: index_def)

lemma slice_append_mid:
  "lo = length as \<Longrightarrow> hi = length as + length bs \<Longrightarrow> slice (as @ bs @ cs) lo hi = Inr bs"
  by (simp add: slice_def)

section \<open>Little-endian integers (encoding/binary)\<close>

primrec le_bytes :: "nat \<Rightarrow> u64 \<Rightarrow> bytes" where
  "le_bytes 0 v = []"
| "le_bytes (Suc n) v = ucast v # le_bytes n (drop_bit 8 v)"

primrec le_word :: "bytes \<Rightarrow> u64" where
  "le_word [] = 0"
| "le_word (b # bs) = ucast b OR push_bit 8 (le_word bs)"

definition PutUint64 :: "u64 \<Rightarrow> bytes" where
  "PutUint64 v = le_bytes 8 v"

definition Uint64 :: "bytes \<Rightarrow> u64" where
  "Uint64 bs = le_word (take 8 bs)"

lemma length_le_bytes [simp]: "length (le_bytes n v) = n"
  by (induction n arbitrary: v) auto

lemma length_PutUint64 [simp]: "length (PutUint64 v) = 8"
  by (simp add: PutUint64_def)

lemma le_word_le_bytes: "le_word (le_bytes n v) = take_bit (8 * n) v"
proof (induction n arbitrary: v)
  case 0
  show ?case by simp
next
  case (Suc n)
  have "ucast (ucast v :: u8) OR push_bit 8 (take_bit (8 * n) (drop_bit 8 v))
      = take_bit (8 * Suc n) v"
    by (rule bit_eqI)
      (auto simp: bit_or_iff bit_push_bit_iff bit_take_bit_iff bit_drop_bit_eq bit_ucast_iff
        le_add_diff_inverse dest: bit_imp_le_length)
  with Suc show ?case by simp
qed

lemma Uint64_PutUint64 [simp]: "Uint64 (PutUint64 v) = v"
  by (simp add: Uint64_def PutUint64_def le_word_le_bytes take_bit_word_eq_self)

lemma Uint64_PutUint64_append [simp]: "Uint64 (PutUint64 v @ bs) = v"
  using Uint64_PutUint64 [of v] by (simp add: Uint64_def)

lemma le_word_zeros [simp]: "le_word (replicate n 0) = 0"
  by (induction n) auto

lemma le_bytes_0 [simp]: "le_bytes n 0 = replicate n 0"
  by (induction n) auto

lemma PutUint64_0 [simp]: "PutUint64 0 = replicate 8 0"
  by (simp add: PutUint64_def)

section \<open>Words and natural numbers\<close>

lemma unat_of_nat_64: "n < 18446744073709551616 \<Longrightarrow> unat (of_nat n :: u64) = n"
  by (simp add: unat_of_nat)

lemma unat_of_nat_8: "n < 256 \<Longrightarrow> unat (of_nat n :: u8) = n"
  by (simp add: unat_of_nat)

lemma unat_u64_lt: "unat (x :: u64) < 18446744073709551616"
proof -
  have "unat x < 2 ^ LENGTH(64)" by (rule unsigned_less)
  then show ?thesis by simp
qed

text \<open>An index or length below the bound of a Go slice, read back from its \<^verbatim>\<open>uint64\<close>.\<close>

definition small :: "nat \<Rightarrow> bool" where
  "small n \<longleftrightarrow> n < 9223372036854775808"

lemma small_unat [simp]: "small n \<Longrightarrow> unat (of_nat n :: u64) = n"
  by (simp add: small_def unat_of_nat_64)

lemma small_mono: "small n \<Longrightarrow> m \<le> n \<Longrightarrow> small m"
  by (simp add: small_def)

lemma small_le_iff: "small m \<Longrightarrow> (of_nat m :: u64) \<le> x \<longleftrightarrow> m \<le> unat x"
  by (simp add: word_le_nat_alt)

text \<open>A log length whose records stay within the reach of an \<^verbatim>\<open>int64\<close> file position.\<close>

definition fits :: "nat \<Rightarrow> bool" where
  "fits n \<longleftrightarrow> n < 1125899906842624"

lemma fits_small [simp]: "fits n \<Longrightarrow> small n"
  by (simp add: fits_def small_def)

lemma fits_mono: "fits n \<Longrightarrow> m \<le> n \<Longrightarrow> fits m"
  by (simp add: fits_def)

lemma unat_add_one: "unat (x :: u64) < 18446744073709551615 \<Longrightarrow> unat (x + 1) = Suc (unat x)"
  by (simp add: unat_plus_if' unat_u64_lt)

lemma unat_sub_one: "(x :: u64) \<noteq> 0 \<Longrightarrow> unat (x - 1) = unat x - 1"
  by (metis unat_minus_one)

section \<open>Byte codecs\<close>

text \<open>
  The contract of an encoder that may reject its input and a decoder that may panic: what was
  encoded is decoded to the part of the value that the format carries, \<open>view\<close>.
\<close>

locale codec =
  fixes enc :: "'a \<Rightarrow> 'e + bytes"
    and dec :: "bytes \<Rightarrow> panic + 'a"
    and view :: "'a \<Rightarrow> 'a"
  assumes dec_enc: "\<And>a b. enc a = Inr b \<Longrightarrow> dec b = Inr (view a)"
begin

lemma enc_inj_view: "enc a = Inr b \<Longrightarrow> enc a' = Inr b \<Longrightarrow> view a = view a'"
  using dec_enc [of a b] dec_enc [of a' b] by simp

lemma dec_total_on_encoded: "enc a = Inr b \<Longrightarrow> \<exists>a'. dec b = Inr a'"
  by (auto dest: dec_enc)

end

section \<open>The layout constants of navi/persistence.go\<close>

abbreviation (input) PAGE_SIZE :: nat where "PAGE_SIZE \<equiv> 4096"
abbreviation (input) ENTRY_HEADER :: nat where "ENTRY_HEADER \<equiv> 16"
abbreviation (input) ENTRY_SIZE :: nat where "ENTRY_SIZE \<equiv> 128"

end
