(* ===== verification/Storage.thy ===== *)
theory Storage
  imports Navi_Prelude
begin

text \<open>
  The durable storage of a server: the \<^verbatim>\<open>Storage\<close> interface of navi/storage.go as a value
  together with its methods, its in-memory implementation \<^verbatim>\<open>MemStorage\<close>, and the buffered
  writer of Go's bufio that \<^verbatim>\<open>persist\<close> wraps around it. The locale \<open>reliable_storage\<close>
  states the contract of a device that behaves as a byte array with a position; it is
  interpreted on \<^verbatim>\<open>MemStorage\<close>. Content is read through \<open>byte_at\<close>, which extends it with
  zeros, as a write beyond the end does.
\<close>

section \<open>Byte arrays that grow with zeros\<close>

definition byte_at :: "bytes \<Rightarrow> nat \<Rightarrow> u8" where
  "byte_at c i = (if i < length c then c ! i else 0)"

definition overwrite :: "bytes \<Rightarrow> nat \<Rightarrow> bytes \<Rightarrow> bytes" where
  "overwrite c p bs =
     take p (c @ replicate (p - length c) 0) @ bs @ drop (p + length bs) c"

definition window :: "bytes \<Rightarrow> nat \<Rightarrow> nat \<Rightarrow> bytes" where
  "window c p n = map (byte_at c) [p..<p + n]"

lemma length_overwrite [byte_simps]:
  "bs \<noteq> [] \<Longrightarrow> length (overwrite c p bs) = max (length c) (p + length bs)"
  by (auto simp: overwrite_def)

lemma length_overwrite_ge [byte_simps]: "p + length bs \<le> length (overwrite c p bs)"
  and length_overwrite_keeps [byte_simps]: "length c \<le> length (overwrite c p bs)"
  by (auto simp: overwrite_def)

lemma byte_at_overwrite [byte_simps]:
  "byte_at (overwrite c p bs) i =
     (if p \<le> i \<and> i < p + length bs then bs ! (i - p) else byte_at c i)"
  by (auto simp: byte_at_def overwrite_def nth_append min_def)

lemma length_window [simp]: "length (window c p n) = n"
  by (simp add: window_def)

lemma window_nth [simp]: "i < n \<Longrightarrow> window c p n ! i = byte_at c (p + i)"
  by (simp add: window_def)

lemma window_Nil [simp]: "window [] p n = replicate n 0"
  by (rule nth_equalityI) (auto simp: byte_at_def window_def)

lemma window_eqI:
  "length bs = n \<Longrightarrow> (\<And>i. i < n \<Longrightarrow> byte_at c (p + i) = bs ! i) \<Longrightarrow> window c p n = bs"
  by (rule nth_equalityI) auto

lemma window_overwrite_same [simp]: "window (overwrite c p bs) p (length bs) = bs"
  by (rule window_eqI) (auto simp: byte_at_overwrite)

lemma window_overwrite_inside:
  "p \<le> q \<Longrightarrow> q + n \<le> p + length bs \<Longrightarrow>
     window (overwrite c p bs) q n = take n (drop (q - p) bs)"
  by (rule window_eqI) (auto simp: byte_at_overwrite)

lemma window_overwrite_disjoint:
  "q + n \<le> p \<or> p + length bs \<le> q \<Longrightarrow> window (overwrite c p bs) q n = window c q n"
  by (rule window_eqI) (auto simp: byte_at_overwrite)

lemma window_take_drop: "p + n \<le> length c \<Longrightarrow> take n (drop p c) = window c p n"
  by (rule nth_equalityI) (auto simp: byte_at_def)

lemma window_append: "window c p (m + n) = window c p m @ window c (p + m) n"
  by (rule nth_equalityI) (auto simp: nth_append)

lemma window_take: "n \<le> m \<Longrightarrow> take n (window c p m) = window c p n"
  by (rule nth_equalityI) auto

lemma window_drop: "drop k (window c p n) = window c (p + k) (n - k)"
  by (rule nth_equalityI) (auto simp: add.assoc)

lemma overwrite_overwrite:
  assumes "as \<noteq> [] \<or> length bs \<noteq> 0 \<or> p \<le> length c"
  shows "overwrite (overwrite c p as) (p + length as) bs = overwrite c p (as @ bs)"
proof (rule nth_equalityI)
  show len: "length (overwrite (overwrite c p as) (p + length as) bs)
      = length (overwrite c p (as @ bs))"
    using assms by (auto simp: overwrite_def)
  fix i assume "i < length (overwrite (overwrite c p as) (p + length as) bs)"
  moreover have "byte_at (overwrite (overwrite c p as) (p + length as) bs) i
      = byte_at (overwrite c p (as @ bs)) i"
    by (auto simp: byte_at_overwrite nth_append)
  ultimately show "overwrite (overwrite c p as) (p + length as) bs ! i
      = overwrite c p (as @ bs) ! i"
    using len by (simp add: byte_at_def)
qed

lemma overwrite_Nil: "p \<le> length c \<Longrightarrow> overwrite c p [] = c"
  by (simp add: overwrite_def)

section \<open>The Storage interface\<close>

text \<open>
  An interface value: the data \<open>st\<close> and the methods bound to its type. \<^verbatim>\<open>Read(p)\<close> takes the
  length of \<^verbatim>\<open>p\<close> and returns the bytes that it fills, \<^verbatim>\<open>Write(p)\<close> the number of bytes taken.
\<close>

record 'st Storage =
  st :: 'st
  st_Seek :: "'st \<Rightarrow> int \<Rightarrow> int \<Rightarrow> (int \<times> io_error option) \<times> 'st"
  st_Read :: "'st \<Rightarrow> nat \<Rightarrow> panic + ((bytes \<times> io_error option) \<times> 'st)"
  st_Write :: "'st \<Rightarrow> bytes \<Rightarrow> panic + ((nat \<times> io_error option) \<times> 'st)"
  st_Sync :: "'st \<Rightarrow> io_error option \<times> 'st"

definition Seek :: "'st Storage \<Rightarrow> int \<Rightarrow> int \<Rightarrow> (int \<times> io_error option) \<times> 'st Storage" where
  "Seek d offset whence =
     (case st_Seek d (st d) offset whence of (r, x) \<Rightarrow> (r, d\<lparr>st := x\<rparr>))"

definition Read :: "'st Storage \<Rightarrow> nat \<Rightarrow> panic + ((bytes \<times> io_error option) \<times> 'st Storage)" where
  "Read d n =
     (case st_Read d (st d) n of Inl p \<Rightarrow> Inl p | Inr (r, x) \<Rightarrow> Inr (r, d\<lparr>st := x\<rparr>))"

definition Write :: "'st Storage \<Rightarrow> bytes \<Rightarrow> panic + ((nat \<times> io_error option) \<times> 'st Storage)" where
  "Write d p =
     (case st_Write d (st d) p of Inl e \<Rightarrow> Inl e | Inr (r, x) \<Rightarrow> Inr (r, d\<lparr>st := x\<rparr>))"

definition Sync :: "'st Storage \<Rightarrow> io_error option \<times> 'st Storage" where
  "Sync d = (case st_Sync d (st d) of (r, x) \<Rightarrow> (r, d\<lparr>st := x\<rparr>))"

section \<open>MemStorage\<close>

text \<open>Addition of \<^verbatim>\<open>int64\<close> values wraps around.\<close>

definition i64_add :: "int \<Rightarrow> int \<Rightarrow> int" where
  "i64_add a b = signed_take_bit 63 (a + b)"

record MemStorage =
  data :: bytes
  pos :: int

definition NewMemStorage :: MemStorage where
  "NewMemStorage = \<lparr>data = [], pos = 0\<rparr>"

definition MemSeek :: "MemStorage \<Rightarrow> int \<Rightarrow> int \<Rightarrow> (int \<times> io_error option) \<times> MemStorage" where
  "MemSeek m offset origin =
     (let newPos =
        (if origin = 0 then Inr offset
         else if origin = 1 then Inr (i64_add (pos m) offset)
         else if origin = 2 then Inr (i64_add (int (length (data m))) offset)
         else Inl (InvalidOrigin origin))
      in case newPos of
           Inl e \<Rightarrow> ((0, Some e), m)
         | Inr p \<Rightarrow> if p < 0 then ((0, Some NegativeSeek), m) else ((p, None), m\<lparr>pos := p\<rparr>))"

definition MemRead :: "MemStorage \<Rightarrow> nat \<Rightarrow> panic + ((bytes \<times> io_error option) \<times> MemStorage)" where
  "MemRead m n =
     (if int (length (data m)) \<le> pos m then Inr (([], Some EOF), m)
      else if pos m < 0 then Inl SliceOutOfRange
      else let bs = take n (drop (nat (pos m)) (data m))
           in Inr ((bs, None), m\<lparr>pos := pos m + int (length bs)\<rparr>))"

definition MemWrite :: "MemStorage \<Rightarrow> bytes \<Rightarrow> panic + ((nat \<times> io_error option) \<times> MemStorage)" where
  "MemWrite m p =
     (let end' = i64_add (pos m) (int (length p));
          grown = (if int (length (data m)) < end'
                   then data m @ replicate (nat end' - length (data m)) 0 else data m)
      in if pos m < 0 \<or> end' < pos m then Inl SliceOutOfRange
         else let room = nat end' - nat (pos m);
                  n = min room (length p)
              in Inr ((n, None),
                   m\<lparr>data := take (nat (pos m)) grown @ take n p @ drop (nat (pos m) + n) grown,
                     pos := pos m + int n\<rparr>))"

definition MemSync :: "MemStorage \<Rightarrow> io_error option \<times> MemStorage" where
  "MemSync m = (None, m)"

definition MemClose :: "MemStorage \<Rightarrow> io_error option \<times> MemStorage" where
  "MemClose m = (None, m)"

text \<open>A \<^verbatim>\<open>*MemStorage\<close> as a value of the interface.\<close>

definition memDevice :: "MemStorage \<Rightarrow> MemStorage Storage" where
  "memDevice m = \<lparr>st = m, st_Seek = MemSeek, st_Read = MemRead, st_Write = MemWrite, st_Sync = MemSync\<rparr>"

section \<open>The contract of a device\<close>

text \<open>
  \<open>content\<close> is the byte array of the device, \<open>offset\<close> its position. The position stays
  below \<open>2 ^ 62\<close>, so that no \<^verbatim>\<open>int64\<close> of the code wraps around.
\<close>

locale reliable_storage =
  fixes seek :: "'st \<Rightarrow> int \<Rightarrow> int \<Rightarrow> (int \<times> io_error option) \<times> 'st"
    and get :: "'st \<Rightarrow> nat \<Rightarrow> panic + ((bytes \<times> io_error option) \<times> 'st)"
    and put :: "'st \<Rightarrow> bytes \<Rightarrow> panic + ((nat \<times> io_error option) \<times> 'st)"
    and sync :: "'st \<Rightarrow> io_error option \<times> 'st"
    and valid :: "'st \<Rightarrow> bool"
    and content :: "'st \<Rightarrow> bytes"
    and offset :: "'st \<Rightarrow> nat"
  assumes seek_start: "\<And>d p. valid d \<Longrightarrow> p < 4611686018427387904 \<Longrightarrow>
      \<exists>d'. seek d (int p) 0 = ((int p, None), d') \<and> valid d' \<and> content d' = content d \<and> offset d' = p"
    and read_some: "\<And>d n. valid d \<Longrightarrow> offset d < length (content d) \<Longrightarrow>
      \<exists>d'. get d n = Inr ((take n (drop (offset d) (content d)), None), d') \<and> valid d' \<and>
        content d' = content d \<and> offset d' = offset d + min n (length (content d) - offset d)"
    and read_eof: "\<And>d n. valid d \<Longrightarrow> length (content d) \<le> offset d \<Longrightarrow> get d n = Inr (([], Some EOF), d)"
    and write_all: "\<And>d bs. valid d \<Longrightarrow> offset d + length bs < 4611686018427387904 \<Longrightarrow>
      \<exists>d'. put d bs = Inr ((length bs, None), d') \<and> valid d' \<and>
        content d' = overwrite (content d) (offset d) bs \<and> offset d' = offset d + length bs"
    and sync_ok: "\<And>d. valid d \<Longrightarrow>
      \<exists>d'. sync d = (None, d') \<and> valid d' \<and> content d' = content d \<and> offset d' = offset d"
begin

definition device :: "'st \<Rightarrow> 'st Storage" where
  "device d = \<lparr>st = d, st_Seek = seek, st_Read = get, st_Write = put, st_Sync = sync\<rparr>"

lemma device_update [simp]: "device d\<lparr>st := x\<rparr> = device x"
  by (simp add: device_def)

lemma device_inj [simp]: "device d = device d' \<longleftrightarrow> d = d'"
  by (auto simp: device_def)

lemma Seek_device:
  assumes "valid d" "p < 4611686018427387904"
  obtains d' where "Seek (device d) (int p) 0 = ((int p, None), device d')"
    "valid d'" "content d' = content d" "offset d' = p"
  using seek_start [OF assms] by (auto simp: Seek_def device_def)

lemma Write_device:
  assumes "valid d" "offset d + length bs < 4611686018427387904"
  obtains d' where "Write (device d) bs = Inr ((length bs, None), device d')" "valid d'"
    "content d' = overwrite (content d) (offset d) bs" "offset d' = offset d + length bs"
  using write_all [OF assms] by (auto simp: Write_def device_def)

lemma Read_device:
  assumes "valid d" "offset d + n \<le> length (content d)" "0 < n"
  obtains d' where "Read (device d) n = Inr ((window (content d) (offset d) n, None), device d')"
    "valid d'" "content d' = content d" "offset d' = offset d + n"
proof -
  from assms have "offset d < length (content d)" by simp
  from read_some [OF assms(1) this, of n] assms that show thesis
    by (auto simp: Read_def device_def window_take_drop)
qed

lemma Read_device_eof:
  "valid d \<Longrightarrow> length (content d) \<le> offset d \<Longrightarrow>
     Read (device d) n = Inr (([], Some EOF), device d)"
  by (simp add: Read_def read_eof device_def)

lemma Sync_device:
  assumes "valid d"
  obtains d' where "Sync (device d) = (None, device d')" "valid d'" "content d' = content d"
  using sync_ok [OF assms] by (auto simp: Sync_def device_def)

text \<open>What is written at a position is read back from it.\<close>

lemma write_read:
  assumes "valid d" "p + length bs < 4611686018427387904" "bs \<noteq> []"
  shows "\<exists>d1 d2 d3 d4. Seek (device d) (int p) 0 = ((int p, None), device d1) \<and>
    Write (device d1) bs = Inr ((length bs, None), device d2) \<and>
    Seek (device d2) (int p) 0 = ((int p, None), device d3) \<and>
    Read (device d3) (length bs) = Inr ((bs, None), device d4)"
proof -
  from assms obtain d1 where 1: "Seek (device d) (int p) 0 = ((int p, None), device d1)"
    "valid d1" "content d1 = content d" "offset d1 = p"
    by (elim Seek_device [of d p]) auto
  with assms obtain d2 where 2: "Write (device d1) bs = Inr ((length bs, None), device d2)"
    "valid d2" "content d2 = overwrite (content d) p bs"
    by (elim Write_device [of d1 bs]) auto
  with assms obtain d3 where 3: "Seek (device d2) (int p) 0 = ((int p, None), device d3)"
    "valid d3" "content d3 = content d2" "offset d3 = p"
    by (elim Seek_device [of d2 p]) auto
  with 2 assms obtain d4 where "Read (device d3) (length bs) = Inr ((bs, None), device d4)"
    by (elim Read_device [of d3 "length bs"]) (auto simp: byte_simps)
  with 1 2 3 show ?thesis by blast
qed

end

section \<open>MemStorage fulfils the contract\<close>

definition mem_valid :: "MemStorage \<Rightarrow> bool" where
  "mem_valid m \<longleftrightarrow> 0 \<le> pos m"

definition mem_offset :: "MemStorage \<Rightarrow> nat" where
  "mem_offset m = nat (pos m)"

lemma i64_add_small:
  "0 \<le> a \<Longrightarrow> 0 \<le> b \<Longrightarrow> a + b < 9223372036854775808 \<Longrightarrow> i64_add a b = a + b"
  by (simp add: i64_add_def signed_take_bit_int_eq_self)

lemma MemWrite_overwrite:
  assumes "0 \<le> pos m" "nat (pos m) + length p < 4611686018427387904"
  shows "MemWrite m p = Inr ((length p, None),
    m\<lparr>data := overwrite (data m) (nat (pos m)) p, pos := pos m + int (length p)\<rparr>)"
proof -
  have "i64_add (pos m) (int (length p)) = pos m + int (length p)"
    using assms by (intro i64_add_small) auto
  moreover have "int (length (data m)) < pos m + int (length p) \<longleftrightarrow>
      length (data m) < nat (pos m) + length p"
    using assms(1) by linarith
  moreover have "nat (pos m + int (length p)) = nat (pos m) + length p"
    using assms(1) by simp
  ultimately show ?thesis
    using assms(1) by (simp add: MemWrite_def Let_def overwrite_def)
qed

interpretation mem: reliable_storage MemSeek MemRead MemWrite MemSync mem_valid data mem_offset
proof
  fix d :: MemStorage and p n :: nat and bs :: bytes
  assume v: "mem_valid d"
  show "\<exists>d'. MemSeek d (int p) 0 = ((int p, None), d') \<and> mem_valid d' \<and> data d' = data d \<and> mem_offset d' = p"
    by (simp add: MemSeek_def mem_valid_def mem_offset_def)
  show "mem_offset d < length (data d) \<Longrightarrow>
    \<exists>d'. MemRead d n = Inr ((take n (drop (mem_offset d) (data d)), None), d') \<and> mem_valid d' \<and>
      data d' = data d \<and> mem_offset d' = mem_offset d + min n (length (data d) - mem_offset d)"
    using v by (auto simp: MemRead_def mem_valid_def mem_offset_def Let_def min_def)
  show "length (data d) \<le> mem_offset d \<Longrightarrow> MemRead d n = Inr (([], Some EOF), d)"
    using v by (auto simp: MemRead_def mem_valid_def mem_offset_def)
  show "mem_offset d + length bs < 4611686018427387904 \<Longrightarrow>
    \<exists>d'. MemWrite d bs = Inr ((length bs, None), d') \<and> mem_valid d' \<and>
      data d' = overwrite (data d) (mem_offset d) bs \<and> mem_offset d' = mem_offset d + length bs"
    using v by (auto simp: MemWrite_overwrite mem_valid_def mem_offset_def)
  show "\<exists>d'. MemSync d = (None, d') \<and> mem_valid d' \<and> data d' = data d \<and> mem_offset d' = mem_offset d"
    using v by (simp add: MemSync_def)
qed

lemma mem_device [simp]: "mem.device m = memDevice m"
  by (simp add: mem.device_def memDevice_def)

end
