(* ===== verification/Membership.thy ===== *)
theory Membership
  imports Navi_Prelude
begin

text \<open>
  Cluster membership (navi/membership.go) and the data it works on (navi/server.go): the
  members and log entries, the binary config-change command, the union of a configuration
  into the cluster, and the reconstruction of the cluster from the founding members and a
  log. The abstract view of a cluster is its set of ids, \<open>ids\<close>.
\<close>

section \<open>Data\<close>

record Entry =
  Command :: bytes
  entryTerm :: u64
  result :: "nat option"   \<comment> \<open>the channel of the waiting client, by number\<close>

record ClusterMember =
  memberId :: u64
  Address :: bytes
  nextIndex :: u64
  matchIndex :: u64
  votedFor :: u64

definition newMember :: "u64 \<Rightarrow> bytes \<Rightarrow> ClusterMember" where
  "newMember i a = \<lparr>memberId = i, Address = a, nextIndex = 0, matchIndex = 0, votedFor = 0\<rparr>"

lemma newMember_fields [simp]:
  "memberId (newMember i a) = i" "Address (newMember i a) = a" "votedFor (newMember i a) = 0"
  by (simp_all add: newMember_def)

section \<open>The config-change command\<close>

definition configChangeMarker :: u8 where
  "configChangeMarker = 0xFF"

definition isConfigChangeCommand :: "bytes \<Rightarrow> bool" where
  "isConfigChangeCommand cmd \<longleftrightarrow> 0 < length cmd \<and> cmd ! 0 = configChangeMarker"

datatype encode_error = TooManyMembers nat | AddressTooLong nat bytes | ConfigTooLarge nat

fun encodeMembers :: "bytes \<Rightarrow> ClusterMember list \<Rightarrow> encode_error + bytes" where
  "encodeMembers buf [] = Inr buf"
| "encodeMembers buf (m # ms) =
     (if 255 < length (Address m) then Inl (AddressTooLong (length (Address m)) (Address m))
      else encodeMembers
        (buf @ PutUint64 (memberId m) @ [of_nat (length (Address m))] @ Address m) ms)"

definition encodeConfigChange :: "ClusterMember list \<Rightarrow> encode_error + bytes" where
  "encodeConfigChange members =
     (if 255 < length members then Inl (TooManyMembers (length members))
      else case encodeMembers [configChangeMarker, of_nat (length members)] members of
        Inl e \<Rightarrow> Inl e
      | Inr buf \<Rightarrow>
          if ENTRY_SIZE - ENTRY_HEADER < length buf then Inl (ConfigTooLarge (length buf))
          else Inr buf)"

fun decodeMembers :: "bytes \<Rightarrow> nat \<Rightarrow> nat \<Rightarrow> panic + ClusterMember list" where
  "decodeMembers cmd p 0 = Inr []"
| "decodeMembers cmd p (Suc n) =
     chain (slice cmd p (p + 8)) (\<lambda>i.
     chain (index cmd (p + 8)) (\<lambda>l.
     chain (slice cmd (p + 9) (p + 9 + unat l)) (\<lambda>a.
     chain (decodeMembers cmd (p + 9 + unat l) n) (\<lambda>ms.
       Inr (newMember (Uint64 i) a # ms)))))"

definition decodeConfigChange :: "bytes \<Rightarrow> panic + ClusterMember list" where
  "decodeConfigChange cmd =
     (if length cmd < 2 \<or> cmd ! 0 \<noteq> configChangeMarker then Inl NotConfigChange
      else decodeMembers cmd 2 (unat (cmd ! 1)))"

section \<open>Merging a configuration, resolving a node's own index\<close>

fun mergeLoop :: "u64 set \<Rightarrow> ClusterMember list \<Rightarrow> ClusterMember list \<Rightarrow> u64 \<Rightarrow> u64 \<Rightarrow> u64 \<Rightarrow> ClusterMember list" where
  "mergeLoop known merged [] newMemberNextIndex selfID selfVotedFor = merged"
| "mergeLoop known merged (m # ms) newMemberNextIndex selfID selfVotedFor =
     (if memberId m \<in> known
      then mergeLoop known merged ms newMemberNextIndex selfID selfVotedFor
      else mergeLoop known
        (merged @ [\<lparr>memberId = memberId m, Address = Address m, nextIndex = newMemberNextIndex,
                    matchIndex = 0, votedFor = (if memberId m = selfID then selfVotedFor else 0)\<rparr>])
        ms newMemberNextIndex selfID selfVotedFor)"

definition mergeClusterConfig ::
  "ClusterMember list \<Rightarrow> ClusterMember list \<Rightarrow> u64 \<Rightarrow> u64 \<Rightarrow> u64 \<Rightarrow> ClusterMember list" where
  "mergeClusterConfig current incoming newMemberNextIndex selfID selfVotedFor =
     mergeLoop (set (map memberId current)) current incoming newMemberNextIndex selfID selfVotedFor"

fun resolveFrom :: "nat \<Rightarrow> ClusterMember list \<Rightarrow> u64 \<Rightarrow> panic + nat" where
  "resolveFrom i [] selfID = Inl (SelfNotInCluster selfID)"
| "resolveFrom i (m # ms) selfID =
     (if memberId m = selfID then Inr i else resolveFrom (Suc i) ms selfID)"

definition resolveClusterIndex :: "ClusterMember list \<Rightarrow> u64 \<Rightarrow> panic + nat" where
  "resolveClusterIndex cluster selfID = resolveFrom 0 cluster selfID"

text \<open>The loop of \<^verbatim>\<open>rebuildClusterFromLog\<close>, from index \<open>i\<close> of the log on.\<close>

fun rebuildLoop :: "nat \<Rightarrow> Entry list \<Rightarrow> ClusterMember list \<Rightarrow> u64 \<Rightarrow> u64 \<Rightarrow> panic + ClusterMember list" where
  "rebuildLoop i [] cluster selfID selfVotedFor = Inr cluster"
| "rebuildLoop i (e # es) cluster selfID selfVotedFor =
     (if isConfigChangeCommand (Command e)
      then chain (decodeConfigChange (Command e)) (\<lambda>incoming.
        rebuildLoop (Suc i) es
          (mergeClusterConfig cluster incoming (of_nat (i + 1)) selfID selfVotedFor)
          selfID selfVotedFor)
      else rebuildLoop (Suc i) es cluster selfID selfVotedFor)"

section \<open>The encoding\<close>

definition encodeMember :: "ClusterMember \<Rightarrow> bytes" where
  "encodeMember m = PutUint64 (memberId m) @ [of_nat (length (Address m))] @ Address m"

definition memberView :: "ClusterMember \<Rightarrow> ClusterMember" where
  "memberView m = newMember (memberId m) (Address m)"

lemma length_encodeMember [byte_simps]: "length (encodeMember m) = 9 + length (Address m)"
  by (simp add: encodeMember_def)

lemma encodeMembers_Inr:
  "encodeMembers buf ms = Inr b \<longleftrightarrow>
     (\<forall>m \<in> set ms. length (Address m) \<le> 255) \<and> b = buf @ concat (map encodeMember ms)"
  by (induction ms arbitrary: buf) (auto simp: encodeMember_def)

lemma decodeMembers_append:
  assumes "\<forall>m \<in> set ms. length (Address m) \<le> 255"
  shows "decodeMembers (pre @ concat (map encodeMember ms) @ post) (length pre) (length ms)
    = Inr (map memberView ms)"
  using assms
proof (induction ms arbitrary: pre)
  case Nil
  show ?case by simp
next
  case (Cons m ms)
  let ?a = "Address m" and ?rest = "concat (map encodeMember ms) @ post"
  let ?cmd = "pre @ concat (map encodeMember (m # ms)) @ post"
  have cmd: "?cmd = pre @ PutUint64 (memberId m) @ [of_nat (length ?a)] @ ?a @ ?rest"
    by (simp add: encodeMember_def)
  have len: "unat (of_nat (length ?a) :: u8) = length ?a"
    using Cons.prems by (intro unat_of_nat_8) auto
  have s1: "slice ?cmd (length pre) (length pre + 8) = Inr (PutUint64 (memberId m))"
    by (subst cmd) (simp add: slice_def)
  have s2: "index ?cmd (length pre + 8) = Inr (of_nat (length ?a))"
    by (subst cmd) (simp add: nth_append index_def)
  have s3: "slice ?cmd (length pre + 9) (length pre + 9 + length ?a) = Inr ?a"
    by (subst cmd) (simp add: slice_def)
  have "decodeMembers ((pre @ encodeMember m) @ concat (map encodeMember ms) @ post)
      (length (pre @ encodeMember m)) (length ms) = Inr (map memberView ms)"
    using Cons.prems by (intro Cons.IH) simp
  then have "decodeMembers ?cmd (length pre + 9 + length ?a) (length ms) = Inr (map memberView ms)"
    by (simp add: byte_simps add.assoc)
  with s1 s2 s3 len show ?case
    by (simp add: memberView_def del: map_map)
qed

lemma encodeConfigChange_Inr:
  "encodeConfigChange ms = Inr b \<longleftrightarrow>
     length ms \<le> 255 \<and> (\<forall>m \<in> set ms. length (Address m) \<le> 255) \<and>
     b = [configChangeMarker, of_nat (length ms)] @ concat (map encodeMember ms) \<and>
     length b \<le> ENTRY_SIZE - ENTRY_HEADER"
proof (cases "\<forall>m \<in> set ms. length (Address m) \<le> 255")
  case True
  then have "encodeMembers [configChangeMarker, of_nat (length ms)] ms
      = Inr ([configChangeMarker, of_nat (length ms)] @ concat (map encodeMember ms))"
    by (subst encodeMembers_Inr) simp
  with True show ?thesis by (auto simp: encodeConfigChange_def)
next
  case False
  then obtain e where "encodeMembers [configChangeMarker, of_nat (length ms)] ms = Inl e"
    using encodeMembers_Inr by (metis sum.exhaust)
  with False show ?thesis by (auto simp: encodeConfigChange_def)
qed

lemma decode_encodeConfigChange:
  assumes "encodeConfigChange ms = Inr b"
  shows "decodeConfigChange b = Inr (map memberView ms)"
proof -
  let ?h = "[configChangeMarker, of_nat (length ms)] :: bytes"
  from assms have b: "b = ?h @ concat (map encodeMember ms) @ []"
    and a: "\<forall>m \<in> set ms. length (Address m) \<le> 255" and l: "length ms \<le> 255"
    by (auto simp: encodeConfigChange_Inr)
  have "decodeMembers b (length ?h) (length ms) = Inr (map memberView ms)"
    unfolding b by (rule decodeMembers_append [OF a])
  with b l show ?thesis
    by (simp add: decodeConfigChange_def unat_of_nat_8 numeral_2_eq_2)
qed

interpretation config_codec: codec encodeConfigChange decodeConfigChange "map memberView"
  by unfold_locales (rule decode_encodeConfigChange)

lemma encoded_isConfigChange: "encodeConfigChange ms = Inr b \<Longrightarrow> isConfigChangeCommand b"
  by (auto simp: encodeConfigChange_Inr isConfigChangeCommand_def)

lemma encoded_length: "encodeConfigChange ms = Inr b \<Longrightarrow> length b \<le> 112"
  by (auto simp: encodeConfigChange_Inr)

section \<open>The merge\<close>

definition ids :: "ClusterMember list \<Rightarrow> u64 set" where
  "ids cluster = memberId ` set cluster"

lemma ids_Nil [simp]: "ids [] = {}"
  and ids_Cons [simp]: "ids (m # ms) = insert (memberId m) (ids ms)"
  and ids_append [simp]: "ids (ms @ ms') = ids ms \<union> ids ms'"
  by (auto simp: ids_def)

lemma ids_memberView [simp]: "ids (map memberView ms) = ids ms"
  by (simp add: ids_def memberView_def image_image)

definition joined :: "ClusterMember \<Rightarrow> u64 \<Rightarrow> u64 \<Rightarrow> u64 \<Rightarrow> ClusterMember" where
  "joined m n selfID v =
     \<lparr>memberId = memberId m, Address = Address m, nextIndex = n, matchIndex = 0,
      votedFor = (if memberId m = selfID then v else 0)\<rparr>"

lemma joined_fields [simp]:
  "memberId (joined m n i v) = memberId m" "Address (joined m n i v) = Address m"
  "votedFor (joined m n i v) = (if memberId m = i then v else 0)"
  by (simp_all add: joined_def)

lemma ids_joined [simp]: "ids (map (\<lambda>m. joined m n i v) ms) = ids ms"
  by (simp add: ids_def image_image)

lemma ids_filter [simp]: "ids (filter (\<lambda>m. memberId m \<notin> A) ms) = ids ms - A"
  by (auto simp: ids_def)

lemma mergeLoop_eq:
  "mergeLoop known merged ms n i v =
     merged @ map (\<lambda>m. joined m n i v) (filter (\<lambda>m. memberId m \<notin> known) ms)"
  by (induction ms arbitrary: merged) (auto simp: joined_def)

lemma merge_eq:
  "mergeClusterConfig current incoming n i v =
     current @ map (\<lambda>m. joined m n i v) (filter (\<lambda>m. memberId m \<notin> ids current) incoming)"
  by (simp add: mergeClusterConfig_def mergeLoop_eq ids_def)

lemma ids_merge [simp]: "ids (mergeClusterConfig c inc n i v) = ids c \<union> ids inc"
  by (auto simp: merge_eq)

lemma merge_known: "ids inc \<subseteq> ids c \<Longrightarrow> mergeClusterConfig c inc n i v = c"
  by (auto simp: merge_eq filter_empty_conv ids_def)

lemma merge_nth_old: "k < length c \<Longrightarrow> mergeClusterConfig c inc n i v ! k = c ! k"
  by (simp add: merge_eq nth_append)

lemma merge_distinct:
  assumes "distinct (map memberId c)" "distinct (map memberId inc)"
  shows "distinct (map memberId (mergeClusterConfig c inc n i v))"
proof -
  have "map memberId (map (\<lambda>m. joined m n i v) (filter (\<lambda>m. memberId m \<notin> ids c) inc))
      = filter (\<lambda>j. j \<notin> ids c) (map memberId inc)"
    by (simp add: filter_map comp_def)
  with assms show ?thesis
    by (auto simp: merge_eq ids_def comp_def)
qed

lemma resolveFrom_Inr:
  "resolveFrom k ms i = Inr j \<Longrightarrow>
     k \<le> j \<and> j - k < length ms \<and> memberId (ms ! (j - k)) = i \<and> (\<forall>l < j - k. memberId (ms ! l) \<noteq> i)"
proof (induction ms arbitrary: k)
  case (Cons m ms)
  show ?case
  proof (cases "memberId m = i")
    case False
    with Cons have "Suc k \<le> j \<and> j - Suc k < length ms \<and> memberId (ms ! (j - Suc k)) = i \<and>
        (\<forall>l < j - Suc k. memberId (ms ! l) \<noteq> i)"
      by simp
    moreover from this have "j - k = Suc (j - Suc k)" by linarith
    ultimately show ?thesis
      using False by (auto simp: nth_Cons split: nat.splits)
  qed (use Cons in simp)
qed simp

lemma resolveFrom_total: "i \<in> ids ms \<Longrightarrow> \<exists>j. resolveFrom k ms i = Inr j"
  by (induction ms arbitrary: k) auto

lemma resolve_Inr:
  "resolveClusterIndex c i = Inr j \<Longrightarrow>
     j < length c \<and> memberId (c ! j) = i \<and> (\<forall>l < j. memberId (c ! l) \<noteq> i)"
  unfolding resolveClusterIndex_def by (drule resolveFrom_Inr) simp

lemma resolve_total: "i \<in> ids c \<longleftrightarrow> (\<exists>j. resolveClusterIndex c i = Inr j)"
proof
  assume "\<exists>j. resolveClusterIndex c i = Inr j"
  then show "i \<in> ids c" by (auto simp: ids_def dest!: resolve_Inr)
qed (auto simp: resolveClusterIndex_def intro: resolveFrom_total)

lemma resolve_distinct:
  assumes "distinct (map memberId c)" "j < length c" "memberId (c ! j) = i"
  shows "resolveClusterIndex c i = Inr j"
proof -
  have "i \<in> ids c" using assms by (auto simp: ids_def)
  then obtain k where k: "resolveClusterIndex c i = Inr k" by (auto simp: resolve_total)
  with resolve_Inr [OF k] assms have "k = j"
    by (auto simp: distinct_conv_nth dest: spec [of _ k])
  with k show ?thesis by simp
qed

lemma resolveFrom_append:
  "resolveFrom k ms i = Inr j \<Longrightarrow> resolveFrom k (ms @ ms') i = Inr j"
  by (induction ms arbitrary: k) auto

lemma resolve_merge:
  "resolveClusterIndex c i = Inr j \<Longrightarrow> resolveClusterIndex (mergeClusterConfig c inc n w v) i = Inr j"
  by (simp add: resolveClusterIndex_def merge_eq resolveFrom_append)

text \<open>
  C18: The config-change format. What \<^verbatim>\<open>encodeConfigChange\<close> produces fits an entry, is recognised
  as a config change, and is decoded without a panic to the same members in the same order,
  with their ids and addresses (the rest of a record is not serialized); it refuses exactly the
  clusters of more than 255 members, with an address over 255 bytes, or over 112 bytes in all.
\<close>

theorem config_change_roundtrip:
  "case encodeConfigChange ms of
     Inr b \<Rightarrow> decodeConfigChange b = Inr (map memberView ms) \<and> isConfigChangeCommand b \<and> length b \<le> 112
   | Inl _ \<Rightarrow> 255 < length ms \<or> (\<exists>m. m \<in> set ms \<and> 255 < length (Address m)) \<or>
       112 < 2 + (\<Sum>m\<leftarrow>ms. 9 + length (Address m))"
proof (cases "encodeConfigChange ms")
  case (Inr b)
  with config_codec.dec_enc [OF Inr] encoded_isConfigChange [OF Inr] encoded_length [OF Inr]
  show ?thesis by simp
next
  case (Inl e)
  let ?b = "[configChangeMarker, of_nat (length ms)] @ concat (map encodeMember ms)"
  have "encodeConfigChange ms \<noteq> Inr ?b" using Inl by simp
  then have "\<not> (length ms \<le> 255 \<and> (\<forall>m \<in> set ms. length (Address m) \<le> 255) \<and> length ?b \<le> 112)"
    unfolding encodeConfigChange_Inr by simp
  moreover have "length ?b = 2 + (\<Sum>m\<leftarrow>ms. 9 + length (Address m))"
    by (simp add: length_concat byte_simps comp_def)
  ultimately show ?thesis
    unfolding Inl by (auto simp: not_le)
qed

text \<open>
  Merging a configuration is a union by id that keeps every record the node has, in place:
  known members are untouched, new ones are added behind them with a match index of zero, and
  merging the same configuration again changes nothing.
\<close>

theorem merge_is_union:
  "ids (mergeClusterConfig c inc n i v) = ids c \<union> ids inc \<and>
   take (length c) (mergeClusterConfig c inc n i v) = c \<and>
   list_all (\<lambda>m. memberId m \<notin> ids c \<and> matchIndex m = 0 \<and> nextIndex m = n)
     (drop (length c) (mergeClusterConfig c inc n i v)) \<and>
   mergeClusterConfig (mergeClusterConfig c inc n i v) inc n' i v' = mergeClusterConfig c inc n i v"
proof (intro conjI)
  show "mergeClusterConfig (mergeClusterConfig c inc n i v) inc n' i v' = mergeClusterConfig c inc n i v"
    by (rule merge_known) simp
  show "list_all (\<lambda>m. memberId m \<notin> ids c \<and> matchIndex m = 0 \<and> nextIndex m = n)
     (drop (length c) (mergeClusterConfig c inc n i v))"
    by (auto simp: merge_eq list_all_iff joined_def)
  show "take (length c) (mergeClusterConfig c inc n i v) = c" by (simp add: merge_eq)
qed (rule ids_merge)

section \<open>Rebuilding from a log\<close>

text \<open>The ids that the config changes of a log carry.\<close>

definition commandIds :: "bytes \<Rightarrow> u64 set" where
  "commandIds cmd =
     (if isConfigChangeCommand cmd
      then case decodeConfigChange cmd of Inl _ \<Rightarrow> {} | Inr ms \<Rightarrow> ids ms else {})"

definition logIds :: "Entry list \<Rightarrow> u64 set" where
  "logIds es = (\<Union>e \<in> set es. commandIds (Command e))"

text \<open>A command that the decoder accepts, if it is marked as a config change at all.\<close>

definition wf_command :: "bytes \<Rightarrow> bool" where
  "wf_command cmd \<longleftrightarrow> (isConfigChangeCommand cmd \<longrightarrow> (\<exists>ms. decodeConfigChange cmd = Inr ms))"

lemma logIds_simps [simp]:
  "logIds [] = {}"
  "logIds (e # es) = commandIds (Command e) \<union> logIds es"
  "logIds (es @ es') = logIds es \<union> logIds es'"
  by (auto simp: logIds_def)

lemma rebuildLoop_ids: "rebuildLoop i es c sid v = Inr c' \<Longrightarrow> ids c' = ids c \<union> logIds es"
  by (induction i es c sid v rule: rebuildLoop.induct)
    (auto simp: commandIds_def chain_Inr_iff split: if_splits)

lemma rebuildLoop_total:
  "\<forall>e \<in> set es. wf_command (Command e) \<Longrightarrow> \<exists>c'. rebuildLoop i es c sid v = Inr c'"
  by (induction i es c sid v rule: rebuildLoop.induct) (auto simp: wf_command_def)

lemma rebuildLoop_prefix: "rebuildLoop i es c sid v = Inr c' \<Longrightarrow> \<exists>ms. c' = c @ ms"
proof (induction i es c sid v rule: rebuildLoop.induct)
  case (2 i e es c sid v)
  show ?case
  proof (cases "isConfigChangeCommand (Command e)")
    case True
    with "2.prems" obtain inc where inc: "decodeConfigChange (Command e) = Inr inc"
      and r: "rebuildLoop (Suc i) es (mergeClusterConfig c inc (of_nat (i + 1)) sid v) sid v = Inr c'"
      by (auto simp: chain_Inr_iff)
    from "2.IH"(1) [OF True r] obtain ms
      where "c' = mergeClusterConfig c inc (of_nat (i + 1)) sid v @ ms" by blast
    then show ?thesis by (simp add: merge_eq)
  qed (use 2 in auto)
qed simp

lemma rebuildLoop_append:
  "rebuildLoop i (es @ es') c sid v =
     chain (rebuildLoop i es c sid v) (\<lambda>c'. rebuildLoop (i + length es) es' c' sid v)"
proof (induction i es c sid v rule: rebuildLoop.induct)
  case (2 i e es c sid v)
  then show ?case
    by (cases "decodeConfigChange (Command e)") auto
qed simp

end
