(* ===== verification/Server.thy ===== *)
theory Server
  imports Storage Membership
begin

text \<open>
  The state of one Raft node (navi/server.go) and the accessors that every handler uses: the
  vote a node keeps in its own member record (navi/persistence.go), the clock and the random
  generator, and the rebuilding of the cluster from the log (navi/membership.go). Interfaces
  are values with methods: \<^verbatim>\<open>Storage\<close> of theory Storage, and here \<^verbatim>\<open>StateMachine\<close>. The
  clock is the sequence of readings that \<^verbatim>\<open>Now\<close> returns, the generator the sequence of its
  draws. The mutex is not a field: each locked section is one operation.
\<close>

section \<open>The state\<close>

record ApplyResult =
  Result :: bytes
  Error :: "string option"

text \<open>\<open>NoState\<close> is the zero value, the empty string, of a server that was not started.\<close>

datatype ServerState = NoState | leaderState | followerState | candidateState

record 'sm StateMachine =
  sm :: 'sm
  sm_Apply :: "'sm \<Rightarrow> bytes \<Rightarrow> panic + ((bytes \<times> string option) \<times> 'sm)"

type_synonym time = int   \<comment> \<open>nanoseconds\<close>

abbreviation Millisecond :: int where "Millisecond \<equiv> 1000000"

record ('sm, 'st) Server =
  stopped :: bool                 \<comment> \<open>\<^verbatim>\<open>done\<close>\<close>
  currentTerm :: u64
  raftLog :: "Entry list"         \<comment> \<open>\<^verbatim>\<open>log\<close>\<close>
  logCap :: nat                   \<comment> \<open>\<^verbatim>\<open>cap(log)\<close>\<close>
  selfId :: u64                   \<comment> \<open>\<^verbatim>\<open>id\<close>\<close>
  selfAddress :: bytes            \<comment> \<open>\<^verbatim>\<open>address\<close>\<close>
  electionTimeout :: time
  heartbeatMs :: int
  heartbeatTimeout :: time
  statemachine :: "'sm StateMachine"
  storage :: "'st Storage option" \<comment> \<open>\<open>None\<close>: the nil interface\<close>
  baseCluster :: "ClusterMember list"
  Passive :: bool
  commitIndex :: u64
  lastApplied :: u64
  role :: ServerState             \<comment> \<open>\<^verbatim>\<open>state\<close>\<close>
  cluster :: "ClusterMember list"
  clusterIndex :: nat
  pendingConfigChangeIndex :: u64
  rand :: "nat \<Rightarrow> nat"            \<comment> \<open>the draws to come\<close>
  clock :: "nat \<Rightarrow> time"          \<comment> \<open>the readings to come\<close>
  nextChan :: nat                 \<comment> \<open>number of the next channel made\<close>
  delivered :: "(nat \<times> ApplyResult) list"  \<comment> \<open>what was sent on the channels\<close>

text \<open>A fault of an operation on the server keeps the state that it leaves behind.\<close>

type_synonym ('sm, 'st) fault = "panic \<times> ('sm, 'st) Server"

fun checkIds :: "ClusterMember list \<Rightarrow> panic + ClusterMember list" where
  "checkIds [] = Inr []"
| "checkIds (c # cs) =
     (if memberId c = 0 then Inl IdZero else chain (checkIds cs) (\<lambda>r. Inr (c # r)))"

definition NewServer ::
  "ClusterMember list \<Rightarrow> 'sm StateMachine \<Rightarrow> int \<Rightarrow> (nat \<Rightarrow> nat) \<Rightarrow> (nat \<Rightarrow> time)
     \<Rightarrow> panic + ('sm, 'st) Server" where
  "NewServer clusterConfig machine idx nodeRand clk =
     chain (checkIds clusterConfig) (\<lambda>cl.
       if idx < 0 \<or> int (length cl) \<le> idx then Inl IndexOutOfRange
       else Inr \<lparr>stopped = False, currentTerm = 0, raftLog = [], logCap = 0,
         selfId = memberId (cl ! nat idx), selfAddress = Address (cl ! nat idx),
         electionTimeout = 0, heartbeatMs = 300, heartbeatTimeout = 0,
         statemachine = machine, storage = None, baseCluster = cl, Passive = False,
         commitIndex = 0, lastApplied = 0, role = NoState, cluster = cl,
         clusterIndex = nat idx, pendingConfigChangeIndex = 0, rand = nodeRand, clock = clk,
         nextChan = 0, delivered = []\<rparr>)"

section \<open>Clock, generator, vote\<close>

definition Now :: "('sm, 'st) Server \<Rightarrow> time \<times> ('sm, 'st) Server" where
  "Now s = (clock s 0, s\<lparr>clock := \<lambda>n. clock s (Suc n)\<rparr>)"

definition Intn :: "int \<Rightarrow> ('sm, 'st) Server \<Rightarrow> panic + (int \<times> ('sm, 'st) Server)" where
  "Intn n s =
     (if n \<le> 0 then Inl IntnArgument
      else Inr (int (rand s 0) mod n, s\<lparr>rand := \<lambda>k. rand s (Suc k)\<rparr>))"

definition getVotedFor :: "('sm, 'st) Server \<Rightarrow> panic + u64" where
  "getVotedFor s =
     (if clusterIndex s < length (cluster s) then Inr (votedFor (cluster s ! clusterIndex s))
      else Inl (AssertFailed ''invalid cluster''))"

definition setVotedFor :: "u64 \<Rightarrow> ('sm, 'st) Server \<Rightarrow> ('sm, 'st) fault + ('sm, 'st) Server" where
  "setVotedFor v s =
     (if clusterIndex s < length (cluster s)
      then Inr (s\<lparr>cluster := (cluster s)[clusterIndex s :=
             (cluster s ! clusterIndex s)\<lparr>votedFor := v\<rparr>]\<rparr>)
      else Inl (AssertFailed ''Invalid cluster'', s))"

definition rebuildClusterFromLog ::
  "u64 \<Rightarrow> ('sm, 'st) Server \<Rightarrow> ('sm, 'st) fault + ('sm, 'st) Server" where
  "rebuildClusterFromLog selfVotedFor s =
     (case rebuildLoop 0 (raftLog s) (baseCluster s) (selfId s) selfVotedFor of
        Inl p \<Rightarrow> Inl (p, s)
      | Inr cl \<Rightarrow>
          (case resolveClusterIndex cl (selfId s) of
             Inl p \<Rightarrow> Inl (p, s\<lparr>cluster := cl\<rparr>)
           | Inr k \<Rightarrow> Inr (s\<lparr>cluster := cl, clusterIndex := k\<rparr>)))"

text \<open>
  Appending to the log slice: the same array while there is room, else a new one of a
  capacity that the runtime chooses (\<open>grow\<close>, any function), at least what is needed.
\<close>

definition appendCap :: "(nat \<Rightarrow> nat \<Rightarrow> nat) \<Rightarrow> nat \<Rightarrow> nat \<Rightarrow> nat" where
  "appendCap grow c n = (if n \<le> c then c else max n (grow c n))"

definition appendLog ::
  "(nat \<Rightarrow> nat \<Rightarrow> nat) \<Rightarrow> Entry list \<Rightarrow> ('sm, 'st) Server \<Rightarrow> ('sm, 'st) Server" where
  "appendLog grow es s =
     s\<lparr>raftLog := raftLog s @ es,
       logCap := appendCap grow (logCap s) (length (raftLog s) + length es)\<rparr>"

text \<open>\<^verbatim>\<open>uint64(len(log)-1)\<close>.\<close>

definition logLast :: "Entry list \<Rightarrow> u64" where
  "logLast es = of_nat (length es) - 1"

section \<open>Basic facts\<close>

lemma unat_logLast [simp]:
  assumes "es \<noteq> []" "fits (length es)"
  shows "unat (logLast es) = length es - 1"
proof -
  have "(of_nat (length es) :: u64) \<noteq> 0"
    using assms small_unat [of "length es"] by (metis fits_small length_0_conv unat_0)
  then show ?thesis
    using assms by (simp add: logLast_def unat_sub_one)
qed

lemma Now_eq [simp]: "fst (Now s) = clock s 0" "snd (Now s) = s\<lparr>clock := \<lambda>n. clock s (Suc n)\<rparr>"
  by (simp_all add: Now_def)

lemma checkIds_Inr: "checkIds cs = Inr r \<longleftrightarrow> r = cs \<and> (\<forall>c \<in> set cs. memberId c \<noteq> 0)"
  by (induction cs arbitrary: r) (auto simp: chain_Inr_iff)

lemma getVotedFor_Inr:
  "getVotedFor s = Inr v \<longleftrightarrow>
     clusterIndex s < length (cluster s) \<and> v = votedFor (cluster s ! clusterIndex s)"
  by (auto simp: getVotedFor_def)

lemma getVotedFor_frame [simp]:
  "getVotedFor (s\<lparr>currentTerm := t\<rparr>) = getVotedFor s"
  "getVotedFor (s\<lparr>raftLog := es\<rparr>) = getVotedFor s"
  "getVotedFor (s\<lparr>logCap := n\<rparr>) = getVotedFor s"
  "getVotedFor (s\<lparr>electionTimeout := i\<rparr>) = getVotedFor s"
  "getVotedFor (s\<lparr>heartbeatTimeout := i\<rparr>) = getVotedFor s"
  "getVotedFor (s\<lparr>storage := dv\<rparr>) = getVotedFor s"
  "getVotedFor (s\<lparr>Passive := b\<rparr>) = getVotedFor s"
  "getVotedFor (s\<lparr>commitIndex := w\<rparr>) = getVotedFor s"
  "getVotedFor (s\<lparr>lastApplied := w\<rparr>) = getVotedFor s"
  "getVotedFor (s\<lparr>role := r\<rparr>) = getVotedFor s"
  "getVotedFor (s\<lparr>pendingConfigChangeIndex := w\<rparr>) = getVotedFor s"
  "getVotedFor (s\<lparr>rand := f\<rparr>) = getVotedFor s"
  "getVotedFor (s\<lparr>clock := g\<rparr>) = getVotedFor s"
  "getVotedFor (s\<lparr>nextChan := n\<rparr>) = getVotedFor s"
  by (simp_all add: getVotedFor_def)

lemma setVotedFor_Inr:
  "setVotedFor v s = Inr s' \<longleftrightarrow> clusterIndex s < length (cluster s) \<and>
     s' = s\<lparr>cluster := (cluster s)[clusterIndex s := (cluster s ! clusterIndex s)\<lparr>votedFor := v\<rparr>]\<rparr>"
  by (auto simp: setVotedFor_def)

lemma setVotedFor_getVotedFor: "setVotedFor v s = Inr s' \<Longrightarrow> getVotedFor s' = Inr v"
  by (auto simp: setVotedFor_Inr getVotedFor_Inr)

lemma rebuildClusterFromLog_Inr:
  "rebuildClusterFromLog v s = Inr s' \<longleftrightarrow>
     (\<exists>cl k. rebuildLoop 0 (raftLog s) (baseCluster s) (selfId s) v = Inr cl \<and>
        resolveClusterIndex cl (selfId s) = Inr k \<and> s' = s\<lparr>cluster := cl, clusterIndex := k\<rparr>)"
  by (auto simp: rebuildClusterFromLog_def split: sum.splits)

text \<open>
  A founding member keeps, in every rebuilt cluster, the record that the configuration gave
  it: whatever vote is passed to \<^verbatim>\<open>rebuildClusterFromLog\<close> is used for new members only.
\<close>

lemma rebuild_founding_vote:
  assumes "rebuildLoop i es base sid v = Inr cl" "resolveClusterIndex cl sid = Inr k"
    "resolveClusterIndex base sid = Inr b"
  shows "k = b \<and> cl ! k = base ! b"
proof -
  obtain ms where cl: "cl = base @ ms"
    using rebuildLoop_prefix [OF assms(1)] by blast
  from resolve_Inr [OF assms(3)] have b: "b < length base" "memberId (base ! b) = sid"
    "\<forall>l < b. memberId (base ! l) \<noteq> sid" by auto
  from resolve_Inr [OF assms(2)] have k: "memberId (cl ! k) = sid" "\<forall>l < k. memberId (cl ! l) \<noteq> sid"
    by auto
  have "\<not> k < b" using k(1) b cl by (auto simp: nth_append)
  moreover have "\<not> b < k" using k(2) b cl by (auto simp: nth_append)
  ultimately show ?thesis using cl b by (simp add: nth_append)
qed

section \<open>An example node\<close>

text \<open>
  Node 1 of a three-node cluster, with a state machine that does nothing, on which the
  theorems below are instantiated: its log, term, vote and storage are given.
\<close>

definition noopStateMachine :: "unit StateMachine" where
  "noopStateMachine = \<lparr>sm = (), sm_Apply = (\<lambda>u cmd. Inr (([], None), u))\<rparr>"

definition dummyEntry :: Entry where
  "dummyEntry = \<lparr>Command = [], entryTerm = 0, result = None\<rparr>"

definition threeNodes :: "ClusterMember list" where
  "threeNodes = [newMember 1 [], newMember 2 [], newMember 3 []]"

definition demo :: "Entry list \<Rightarrow> u64 \<Rightarrow> u64 \<Rightarrow> MemStorage \<Rightarrow> (unit, MemStorage) Server" where
  "demo es t v m =
     \<lparr>stopped = False, currentTerm = t, raftLog = es, logCap = length es, selfId = 1,
      selfAddress = [], electionTimeout = 0, heartbeatMs = 300, heartbeatTimeout = 0,
      statemachine = noopStateMachine, storage = Some (memDevice m), baseCluster = threeNodes,
      Passive = False, commitIndex = 0, lastApplied = 0, role = followerState,
      cluster = threeNodes[0 := (newMember 1 [])\<lparr>votedFor := v\<rparr>], clusterIndex = 0,
      pendingConfigChangeIndex = 0, rand = (\<lambda>_. 0), clock = (\<lambda>_. 0), nextChan = 0, delivered = []\<rparr>"

lemma dummyEntry_fields [simp]:
  "Command dummyEntry = []" "entryTerm dummyEntry = 0" "result dummyEntry = None"
  by (simp_all add: dummyEntry_def)

lemma getVotedFor_demo [simp]: "getVotedFor (demo es t v m) = Inr v"
  by (simp add: getVotedFor_def demo_def threeNodes_def)

lemma demo_fields [simp]:
  "currentTerm (demo es t v m) = t" "raftLog (demo es t v m) = es" "selfId (demo es t v m) = 1"
  "storage (demo es t v m) = Some (memDevice m)" "baseCluster (demo es t v m) = threeNodes"
  "clusterIndex (demo es t v m) = 0" "length (cluster (demo es t v m)) = 3"
  "role (demo es t v m) = followerState" "commitIndex (demo es t v m) = 0"
  "heartbeatMs (demo es t v m) = 300" "Passive (demo es t v m) = False"
  "cluster (demo es t v m) ! 0 = (newMember 1 [])\<lparr>votedFor := v\<rparr>"
  "cluster (demo es t v m) ! Suc 0 = newMember 2 []" "cluster (demo es t v m) ! 2 = newMember 3 []"
  by (simp_all add: demo_def threeNodes_def)

lemma ids_threeNodes [simp]: "ids threeNodes = {1, 2, 3}"
  by (auto simp: threeNodes_def)

lemma votedFor_threeNodes [simp]: "\<forall>c \<in> set threeNodes. votedFor c = 0"
  by (simp add: threeNodes_def)

end
