(* ===== verification/Persistence.thy ===== *)
theory Persistence
  imports Server
begin

text \<open>
  The on-disk state of a node (navi/persistence.go): a page with the term, the vote and the
  length of the log, then one record of \<open>ENTRY_SIZE\<close> bytes per log entry. \<^verbatim>\<open>persist\<close> writes
  through the buffered writer of Go's bufio, whose buffer holds 4096 bytes; \<^verbatim>\<open>restore\<close>
  reads back. The lemmas of the locale context hold for any device that fulfils
  \<open>reliable_storage\<close>; at the end they are instantiated for \<^verbatim>\<open>MemStorage\<close>.
\<close>

section \<open>bufio.Writer\<close>

record 'st BufWriter =
  bw_dev :: "'st Storage"
  bw_buf :: bytes
  bw_err :: "io_error option"

abbreviation (input) BUF_SIZE :: nat where "BUF_SIZE \<equiv> 4096"

definition NewWriter :: "'st Storage \<Rightarrow> 'st BufWriter" where
  "NewWriter d = \<lparr>bw_dev = d, bw_buf = [], bw_err = None\<rparr>"

definition bwFlush :: "'st BufWriter \<Rightarrow> panic + (io_error option \<times> 'st BufWriter)" where
  "bwFlush w =
     (if bw_err w \<noteq> None then Inr (bw_err w, w)
      else if bw_buf w = [] then Inr (None, w)
      else case Write (bw_dev w) (bw_buf w) of
        Inl p \<Rightarrow> Inl p
      | Inr ((n, err), d) \<Rightarrow>
          (let err' = (if n < length (bw_buf w) \<and> err = None then Some ShortWrite else err)
           in if err' \<noteq> None then Inr (err', \<lparr>bw_dev = d, bw_buf = drop n (bw_buf w), bw_err = err'\<rparr>)
              else Inr (None, \<lparr>bw_dev = d, bw_buf = [], bw_err = None\<rparr>)))"

text \<open>\<^verbatim>\<open>Write(p)\<close> for a \<^verbatim>\<open>p\<close> that is no longer than the buffer: at most one flush.\<close>

definition bwWrite :: "'st BufWriter \<Rightarrow> bytes \<Rightarrow> panic + ((nat \<times> io_error option) \<times> 'st BufWriter)" where
  "bwWrite w p =
     (let avail = BUF_SIZE - length (bw_buf w)
      in if avail < length p \<and> bw_err w = None
         then case bwFlush (w\<lparr>bw_buf := bw_buf w @ take avail p\<rparr>) of
                Inl e \<Rightarrow> Inl e
              | Inr (_, w') \<Rightarrow>
                  if bw_err w' \<noteq> None then Inr ((avail, bw_err w'), w')
                  else Inr ((length p, None), w'\<lparr>bw_buf := bw_buf w' @ drop avail p\<rparr>)
         else if bw_err w \<noteq> None then Inr ((0, bw_err w), w)
         else Inr ((length p, None), w\<lparr>bw_buf := bw_buf w @ p\<rparr>))"

section \<open>persist\<close>

definition pageBytes :: "u64 \<Rightarrow> u64 \<Rightarrow> nat \<Rightarrow> bytes" where
  "pageBytes trm vote n =
     PutUint64 trm @ PutUint64 vote @ PutUint64 (of_nat n) @ replicate (PAGE_SIZE - 24) 0"

text \<open>The entry is written over the bytes of the one before it: \<^verbatim>\<open>entryBytes\<close> is not cleared.\<close>

definition entryBytes :: "bytes \<Rightarrow> Entry \<Rightarrow> bytes" where
  "entryBytes prev e =
     PutUint64 (entryTerm e) @ PutUint64 (of_nat (length (Command e))) @ Command e
       @ drop (ENTRY_HEADER + length (Command e)) prev"

definition persistPage :: "u64 \<Rightarrow> u64 \<Rightarrow> nat \<Rightarrow> 'st Storage \<Rightarrow> (panic \<times> 'st Storage) + 'st Storage" where
  "persistPage trm vote n d =
     (case Write d (pageBytes trm vote n) of
        Inl p \<Rightarrow> Inl (p, d)
      | Inr ((k, Some e), d') \<Rightarrow> Inl (IoPanic e, d')
      | Inr ((k, None), d') \<Rightarrow>
          if k \<noteq> PAGE_SIZE then Inl (AssertFailed ''Wrote full page'', d') else Inr d')"

fun writeEntries :: "'st BufWriter \<Rightarrow> bytes \<Rightarrow> Entry list \<Rightarrow> (panic \<times> 'st BufWriter) + 'st BufWriter" where
  "writeEntries w prev [] = Inr w"
| "writeEntries w prev (e # es) =
     (if ENTRY_SIZE - ENTRY_HEADER < length (Command e)
      then Inl (CommandTooLarge (length (Command e)), w)
      else case bwWrite w (entryBytes prev e) of
        Inl p \<Rightarrow> Inl (p, w)
      | Inr ((n, Some err), w') \<Rightarrow> Inl (IoPanic err, w')
      | Inr ((n, None), w') \<Rightarrow>
          if n \<noteq> ENTRY_SIZE then Inl (AssertFailed ''wrote full page'', w')
          else writeEntries w' (entryBytes prev e) es)"

definition persistEntries :: "nat \<Rightarrow> Entry list \<Rightarrow> 'st Storage \<Rightarrow> (panic \<times> 'st Storage) + 'st Storage" where
  "persistEntries newLogOffset es d =
     (let d1 = snd (Seek d (int (PAGE_SIZE + ENTRY_SIZE * newLogOffset)) 0)
      in case writeEntries (NewWriter d1) (replicate ENTRY_SIZE 0) es of
           Inl (p, w) \<Rightarrow> Inl (p, bw_dev w)
         | Inr w \<Rightarrow>
             (case bwFlush w of
                Inl p \<Rightarrow> Inl (p, bw_dev w)
              | Inr (Some err, w') \<Rightarrow> Inl (IoPanic err, bw_dev w')
              | Inr (None, w') \<Rightarrow> Inr (bw_dev w')))"

definition persist ::
  "bool \<Rightarrow> int \<Rightarrow> ('sm, 'st) Server \<Rightarrow> ('sm, 'st) fault + ('sm, 'st) Server" where
  "persist writeLog nNew s =
     (let nNewEntries = (if nNew = 0 \<and> writeLog then int (length (raftLog s)) else nNew)
      in case storage s of
           None \<Rightarrow> Inl (NilStorage, s)
         | Some d \<Rightarrow>
      (let d0 = snd (Seek d 0 0)
       in case getVotedFor s of
            Inl p \<Rightarrow> Inl (p, s\<lparr>storage := Some d0\<rparr>)
          | Inr vote \<Rightarrow>
      (case persistPage (currentTerm s) vote (length (raftLog s)) d0 of
         Inl (p, d1) \<Rightarrow> Inl (p, s\<lparr>storage := Some d1\<rparr>)
       | Inr d1 \<Rightarrow>
      (case (if writeLog \<and> 0 < nNewEntries
             then let newLogOffset = nat (max (int (length (raftLog s)) - nNewEntries) 0)
                  in persistEntries newLogOffset (drop newLogOffset (raftLog s)) d1
             else Inr d1) of
         Inl (p, d2) \<Rightarrow> Inl (p, s\<lparr>storage := Some d2\<rparr>)
       | Inr d2 \<Rightarrow>
      (case Sync d2 of
         (Some e, d3) \<Rightarrow> Inl (IoPanic e, s\<lparr>storage := Some d3\<rparr>)
       | (None, d3) \<Rightarrow> Inr (s\<lparr>storage := Some d3\<rparr>))))))"

section \<open>restore\<close>

definition ensureLog :: "(nat \<Rightarrow> nat \<Rightarrow> nat) \<Rightarrow> ('sm, 'st) Server \<Rightarrow> ('sm, 'st) Server" where
  "ensureLog grow s =
     (if raftLog s = [] then appendLog grow [\<lparr>Command = [], entryTerm = 0, result = None\<rparr>] s else s)"

definition decodeEntry :: "bytes \<Rightarrow> panic + Entry" where
  "decodeEntry eb =
     chain (slice eb 16 (unat (16 + Uint64 (take 8 (drop 8 eb))))) (\<lambda>cmd.
       Inr \<lparr>Command = cmd, entryTerm = Uint64 (take 8 eb), result = None\<rparr>)"

definition readEntry :: "'st Storage \<Rightarrow> panic + (Entry \<times> 'st Storage)" where
  "readEntry d =
     (case Read d ENTRY_SIZE of
        Inl p \<Rightarrow> Inl p
      | Inr ((bs, Some err), d') \<Rightarrow> Inl (IoPanic err)
      | Inr ((bs, None), d') \<Rightarrow>
          if length bs \<noteq> ENTRY_SIZE then Inl (AssertFailed ''read full entry'')
          else chain (decodeEntry bs) (\<lambda>e. Inr (e, d')))"

fun readEntries :: "nat \<Rightarrow> 'st Storage \<Rightarrow> panic + (Entry list \<times> 'st Storage)" where
  "readEntries 0 d = Inr ([], d)"
| "readEntries (Suc n) d =
     chain (readEntry d) (\<lambda>(e, d'). chain (readEntries n d') (\<lambda>(es, d''). Inr (e # es, d'')))"

text \<open>
  \<^verbatim>\<open>restore\<close> runs in the goroutine of \<^verbatim>\<open>Start\<close>, where a panic ends the process: only the panic
  is kept. \<open>openFile\<close> is what \<^verbatim>\<open>NewFileStorage\<close> gives for a server without a storage; the
  capacity of the log read back is that of the appends, one entry at a time.
\<close>

definition restoreLog ::
  "(nat \<Rightarrow> nat \<Rightarrow> nat) \<Rightarrow> ('sm, 'st) Server \<Rightarrow> panic + ('sm, 'st) Server" where
  "restoreLog grow s =
     (let s1 = ensureLog grow s
      in chain (getVotedFor s1) (\<lambda>v.
           case rebuildClusterFromLog v s1 of Inl (p, _) \<Rightarrow> Inl p | Inr s2 \<Rightarrow> Inr s2))"

definition restore ::
  "(nat \<Rightarrow> nat \<Rightarrow> nat) \<Rightarrow> panic + 'st Storage \<Rightarrow> ('sm, 'st) Server \<Rightarrow> panic + ('sm, 'st) Server" where
  "restore grow openFile s =
     chain (case storage s of Some d \<Rightarrow> Inr d | None \<Rightarrow> openFile) (\<lambda>d.
     case Read (snd (Seek d 0 0)) PAGE_SIZE of
       Inl p \<Rightarrow> Inl p
     | Inr ((page, Some err), d1) \<Rightarrow>
         if err = EOF then restoreLog grow (s\<lparr>storage := Some d1\<rparr>) else Inl (IoPanic err)
     | Inr ((page, None), d1) \<Rightarrow>
         if length page \<noteq> PAGE_SIZE then Inl (AssertFailed ''read full page'')
         else case setVotedFor (Uint64 (take 8 (drop 8 page)))
                     (s\<lparr>storage := Some d1, currentTerm := Uint64 (take 8 page)\<rparr>) of
           Inl (p, _) \<Rightarrow> Inl p
         | Inr s1 \<Rightarrow>
             (let lenLog = Uint64 (take 8 (drop 16 page))
              in if 0 < lenLog
                 then chain (readEntries (unat lenLog) (snd (Seek d1 (int PAGE_SIZE) 0))) (\<lambda>(es, d2).
                   restoreLog grow
                     (foldl (\<lambda>x e. appendLog grow [e] x) (s1\<lparr>raftLog := [], logCap := 0, storage := Some d2\<rparr>) es))
                 else restoreLog grow (s1\<lparr>raftLog := [], logCap := 0\<rparr>)))"

section \<open>The disk image\<close>

definition entry_ok :: "Entry \<Rightarrow> bool" where
  "entry_ok e \<longleftrightarrow> length (Command e) \<le> ENTRY_SIZE - ENTRY_HEADER"

text \<open>Entries that do not fit their slot stop \<^verbatim>\<open>persist\<close>.\<close>

lemma writeEntries_fit: "writeEntries w prev es = Inr w' \<Longrightarrow> \<forall>e \<in> set es. entry_ok e"
  by (induction w prev es rule: writeEntries.induct) (auto simp: entry_ok_def split: if_splits sum.splits option.splits)

lemma persist_fit:
  assumes "persist True n s = Inr s'" "0 < n" "raftLog s = es @ new" "int (length new) = n"
  shows "\<forall>e \<in> set new. entry_ok e"
proof -
  have "nat (max (int (length (raftLog s)) - n) 0) = length es" using assms(2-4) by simp
  with assms(1-3) show ?thesis
    by (auto simp: persist_def persistEntries_def Let_def dest!: writeEntries_fit
        split: option.splits sum.splits prod.splits if_splits)
qed

definition entryHead :: "Entry \<Rightarrow> bytes" where
  "entryHead e = PutUint64 (entryTerm e) @ PutUint64 (of_nat (length (Command e))) @ Command e"

text \<open>Entry \<open>i\<close> of the log area holds \<open>e\<close>; the page holds term, vote and length.\<close>

definition stored :: "bytes \<Rightarrow> nat \<Rightarrow> Entry \<Rightarrow> bool" where
  "stored c i e \<longleftrightarrow> entry_ok e \<and>
     window c (PAGE_SIZE + ENTRY_SIZE * i) (ENTRY_HEADER + length (Command e)) = entryHead e"

definition logImage :: "bytes \<Rightarrow> Entry list \<Rightarrow> bool" where
  "logImage c es \<longleftrightarrow> (\<forall>i < length es. stored c i (es ! i))"

definition pageImage :: "bytes \<Rightarrow> u64 \<Rightarrow> u64 \<Rightarrow> nat \<Rightarrow> bool" where
  "pageImage c trm vote n \<longleftrightarrow> PAGE_SIZE \<le> length c \<and>
     window c 0 24 = PutUint64 trm @ PutUint64 vote @ PutUint64 (of_nat n)"

definition eraseResult :: "Entry \<Rightarrow> Entry" where
  "eraseResult e = e\<lparr>result := None\<rparr>"

text \<open>The bytes that the loop of \<^verbatim>\<open>persist\<close> sends to the buffered writer.\<close>

fun entryStream :: "bytes \<Rightarrow> Entry list \<Rightarrow> bytes" where
  "entryStream prev [] = []"
| "entryStream prev (e # es) = entryBytes prev e @ entryStream (entryBytes prev e) es"

lemma length_pageBytes [byte_simps]: "length (pageBytes t v n) = PAGE_SIZE"
  by (simp add: pageBytes_def)

lemma length_entryHead [byte_simps]: "length (entryHead e) = ENTRY_HEADER + length (Command e)"
  by (simp add: entryHead_def)

lemma entryBytes_head:
  "entryBytes prev e = entryHead e @ drop (ENTRY_HEADER + length (Command e)) prev"
  by (simp add: entryBytes_def entryHead_def)

lemma length_entryBytes [byte_simps]:
  "entry_ok e \<Longrightarrow> length prev = ENTRY_SIZE \<Longrightarrow> length (entryBytes prev e) = ENTRY_SIZE"
  by (simp add: entryBytes_head byte_simps entry_ok_def)

lemma length_entryStream [byte_simps]:
  "\<forall>e \<in> set es. entry_ok e \<Longrightarrow> length prev = ENTRY_SIZE \<Longrightarrow>
     length (entryStream prev es) = ENTRY_SIZE * length es"
  by (induction es arbitrary: prev) (auto simp: byte_simps)

lemma entryStream_nth:
  assumes "\<forall>e \<in> set es. entry_ok e" "length prev = ENTRY_SIZE" "i < length es"
  shows "take (ENTRY_HEADER + length (Command (es ! i))) (drop (ENTRY_SIZE * i) (entryStream prev es))
    = entryHead (es ! i)"
  using assms
proof (induction es arbitrary: prev i)
  case (Cons e es)
  have len: "length (entryBytes prev e) = ENTRY_SIZE"
    using Cons.prems by (simp add: byte_simps)
  show ?case
  proof (cases i)
    case 0
    then show ?thesis by (simp add: entryBytes_head byte_simps)
  next
    case (Suc j)
    with Cons.prems len Cons.IH [of "entryBytes prev e" j] show ?thesis
      by simp
  qed
qed simp

lemma stored_overwrite_stream:
  assumes "\<forall>e \<in> set es. entry_ok e" "length prev = ENTRY_SIZE" "i < length es"
  shows "stored (overwrite c (PAGE_SIZE + ENTRY_SIZE * off) (entryStream prev es)) (off + i) (es ! i)"
proof -
  have ok: "entry_ok (es ! i)" using assms by simp
  have "ENTRY_SIZE * i + (ENTRY_HEADER + length (Command (es ! i))) \<le> ENTRY_SIZE * Suc i"
    using ok by (simp add: entry_ok_def)
  also have "\<dots> \<le> ENTRY_SIZE * length es"
    using assms(3) by (intro mult_le_mono2) simp
  finally have fits: "ENTRY_SIZE * i + (ENTRY_HEADER + length (Command (es ! i)))
      \<le> length (entryStream prev es)"
    using assms by (simp add: byte_simps)
  have "window (overwrite c (PAGE_SIZE + ENTRY_SIZE * off) (entryStream prev es))
      (PAGE_SIZE + ENTRY_SIZE * (off + i)) (ENTRY_HEADER + length (Command (es ! i)))
    = take (ENTRY_HEADER + length (Command (es ! i))) (drop (ENTRY_SIZE * i) (entryStream prev es))"
    using fits by (subst window_overwrite_inside) (auto simp: algebra_simps)
  with ok assms show ?thesis
    by (simp add: stored_def entryStream_nth)
qed

lemma stored_overwrite_other:
  "p + length bs \<le> PAGE_SIZE + ENTRY_SIZE * i \<or> PAGE_SIZE + ENTRY_SIZE * Suc i \<le> p \<Longrightarrow>
     stored (overwrite c p bs) i e = stored c i e"
  unfolding stored_def entry_ok_def by (auto simp: window_overwrite_disjoint)

lemma logImage_overwrite_stream:
  assumes "logImage c (take off es)" "\<forall>e \<in> set (drop off es). entry_ok e" "off \<le> length es"
    "length prev = ENTRY_SIZE"
  shows "logImage (overwrite c (PAGE_SIZE + ENTRY_SIZE * off) (entryStream prev (drop off es))) es"
  unfolding logImage_def
proof (intro allI impI)
  fix i assume i: "i < length es"
  show "stored (overwrite c (PAGE_SIZE + ENTRY_SIZE * off) (entryStream prev (drop off es))) i (es ! i)"
  proof (cases "i < off")
    case True
    with assms(1) i have "stored c i (es ! i)"
      by (auto simp: logImage_def)
    moreover have "PAGE_SIZE + ENTRY_SIZE * Suc i \<le> PAGE_SIZE + ENTRY_SIZE * off"
      using True by (intro add_left_mono mult_le_mono2) simp
    ultimately show ?thesis
      by (subst stored_overwrite_other) auto
  next
    case False
    with i assms stored_overwrite_stream [of "drop off es" prev "i - off" c off]
    show ?thesis by simp
  qed
qed

lemma logImage_page: "logImage (overwrite c 0 (pageBytes t v n)) es = logImage c es"
  unfolding logImage_def by (subst stored_overwrite_other) (auto simp: byte_simps)

lemma pageImage_pageBytes: "pageImage (overwrite c 0 (pageBytes t v n)) t v n"
proof -
  have "window (overwrite c 0 (pageBytes t v n)) 0 24 = take 24 (pageBytes t v n)"
    by (subst window_overwrite_inside) (auto simp: byte_simps)
  with length_overwrite_ge [of 0 "pageBytes t v n" c] show ?thesis
    by (simp add: pageImage_def pageBytes_def)
qed

lemma pageImage_overwrite:
  "PAGE_SIZE \<le> p \<Longrightarrow> pageImage c t v n \<Longrightarrow> pageImage (overwrite c p bs) t v n"
  using length_overwrite_keeps [of c p bs] by (auto simp: pageImage_def window_overwrite_disjoint)

lemma pageImage_fields:
  assumes "pageImage c t v n"
  shows "Uint64 (take 8 (window c 0 PAGE_SIZE)) = t"
    "Uint64 (take 8 (drop 8 (window c 0 PAGE_SIZE))) = v"
    "Uint64 (take 8 (drop 16 (window c 0 PAGE_SIZE))) = of_nat n"
proof -
  have w: "window c 0 24 = PutUint64 t @ PutUint64 v @ PutUint64 (of_nat n)"
    using assms by (simp add: pageImage_def)
  have "window c 0 PAGE_SIZE = window c 0 24 @ window c 24 (PAGE_SIZE - 24)"
    using window_append [of c 0 24 "PAGE_SIZE - 24"] by simp
  then show "Uint64 (take 8 (window c 0 PAGE_SIZE)) = t"
    "Uint64 (take 8 (drop 8 (window c 0 PAGE_SIZE))) = v"
    "Uint64 (take 8 (drop 16 (window c 0 PAGE_SIZE))) = of_nat n"
    by (simp_all add: w)
qed

lemma decodeEntry_stored:
  assumes "stored c i e"
  shows "decodeEntry (window c (PAGE_SIZE + ENTRY_SIZE * i) ENTRY_SIZE) = Inr (eraseResult e)"
proof -
  let ?p = "PAGE_SIZE + ENTRY_SIZE * i" and ?n = "length (Command e)"
  have n: "?n \<le> 112" and w: "window c ?p (16 + ?n) = entryHead e"
    using assms by (auto simp: stored_def entry_ok_def)
  have split: "window c ?p 128 = entryHead e @ window c (?p + (16 + ?n)) (112 - ?n)"
    using window_append [of c ?p "16 + ?n" "112 - ?n"] n w by simp
  have "unat (16 + of_nat ?n :: u64) = 16 + ?n"
    using n by (simp add: unat_word_ariths unat_of_nat)
  then show ?thesis
    using n by (simp add: split decodeEntry_def entryHead_def slice_def eraseResult_def)
qed

text \<open>The index from which \<^verbatim>\<open>persist\<close> rewrites the log; the length when it writes no entry.\<close>

definition newOffset :: "bool \<Rightarrow> int \<Rightarrow> nat \<Rightarrow> nat" where
  "newOffset writeLog n len =
     (let k = (if n = 0 \<and> writeLog then int len else n)
      in if writeLog \<and> 0 < k then nat (max (int len - k) 0) else len)"

lemma newOffset_le: "newOffset w n len \<le> len"
  by (auto simp: newOffset_def Let_def)

lemma newOffset_simps [simp]:
  "newOffset False n len = len"
  "newOffset True (int k) len = (if k = 0 then 0 else len - k)"
  "newOffset True 1 len = len - 1"
  by (auto simp: newOffset_def Let_def)

section \<open>Buffered writing is plain writing\<close>

context reliable_storage
begin

text \<open>
  \<open>bw_rel w c p bs\<close>: since the device had content \<open>c\<close> and position \<open>p\<close>, the writer has taken
  \<open>bs\<close>, of which a part may be buffered, and has met no error.
\<close>

definition bw_rel :: "'st BufWriter \<Rightarrow> bytes \<Rightarrow> nat \<Rightarrow> bytes \<Rightarrow> bool" where
  "bw_rel w c p bs \<longleftrightarrow>
     (\<exists>d b. w = \<lparr>bw_dev = device d, bw_buf = b, bw_err = None\<rparr> \<and> valid d \<and> length b \<le> BUF_SIZE \<and>
        offset d + length b = p + length bs \<and>
        (if bs = [] then b = [] \<and> content d = c
         else overwrite (content d) (offset d) b = overwrite c p bs \<and>
           (b = [] \<longrightarrow> offset d \<le> length (content d))))"

lemma bw_rel_new: "valid d \<Longrightarrow> bw_rel (NewWriter (device d)) (content d) (offset d) []"
  by (simp add: bw_rel_def NewWriter_def)

lemma bw_rel_push:
  assumes "bw_rel w c p bs" "length (bw_buf w) + length q \<le> BUF_SIZE" "q \<noteq> []"
  shows "bw_rel (w\<lparr>bw_buf := bw_buf w @ q\<rparr>) c p (bs @ q)"
proof -
  from assms(1) obtain d b where w: "w = \<lparr>bw_dev = device d, bw_buf = b, bw_err = None\<rparr>" "valid d"
    "offset d + length b = p + length bs"
    and r: "if bs = [] then b = [] \<and> content d = c
      else overwrite (content d) (offset d) b = overwrite c p bs \<and>
        (b = [] \<longrightarrow> offset d \<le> length (content d))"
    by (auto simp: bw_rel_def)
  have "overwrite (content d) (offset d) (b @ q) = overwrite c p (bs @ q)"
  proof (cases "bs = []")
    case True
    with r w show ?thesis by simp
  next
    case False
    have "overwrite (content d) (offset d) (b @ q)
        = overwrite (overwrite (content d) (offset d) b) (offset d + length b) q"
      using assms(3) by (subst overwrite_overwrite) auto
    also have "\<dots> = overwrite (overwrite c p bs) (p + length bs) q"
      using r w(3) False by simp
    also have "\<dots> = overwrite c p (bs @ q)"
      using False by (subst overwrite_overwrite) auto
    finally show ?thesis .
  qed
  with assms w show ?thesis by (simp add: bw_rel_def)
qed

lemma bwFlush_rel:
  assumes "bw_rel w c p bs" "p + length bs < 4611686018427387904"
  obtains w' where "bwFlush w = Inr (None, w')" "bw_rel w' c p bs" "bw_buf w' = []"
proof -
  from assms(1) obtain d b where w: "w = \<lparr>bw_dev = device d, bw_buf = b, bw_err = None\<rparr>" "valid d"
    "offset d + length b = p + length bs"
    and r: "if bs = [] then b = [] \<and> content d = c
      else overwrite (content d) (offset d) b = overwrite c p bs \<and>
        (b = [] \<longrightarrow> offset d \<le> length (content d))"
    by (auto simp: bw_rel_def)
  show thesis
  proof (cases "b = []")
    case True
    with w assms(1) that [of w] show ?thesis by (simp add: bwFlush_def)
  next
    case False
    with w assms(2) obtain d' where d': "Write (device d) b = Inr ((length b, None), device d')"
      "valid d'" "content d' = overwrite (content d) (offset d) b" "offset d' = offset d + length b"
      by (elim Write_device [of d b]) auto
    let ?w' = "\<lparr>bw_dev = device d', bw_buf = [], bw_err = None\<rparr>"
    have "bs \<noteq> []" using r False by auto
    moreover have "offset d' \<le> length (content d')"
      using d' by (simp add: byte_simps)
    ultimately have "bw_rel ?w' c p bs"
      using r d' w(3) by (simp add: bw_rel_def overwrite_Nil)
    with d' w False that [of ?w'] show ?thesis by (simp add: bwFlush_def)
  qed
qed

lemma bwWrite_rel:
  assumes "bw_rel w c p bs" "q \<noteq> []" "length q \<le> BUF_SIZE"
    "p + length bs + length q < 4611686018427387904"
  obtains w' where "bwWrite w q = Inr ((length q, None), w')" "bw_rel w' c p (bs @ q)"
proof -
  have err: "bw_err w = None" and room: "length (bw_buf w) \<le> BUF_SIZE"
    using assms(1) by (auto simp: bw_rel_def)
  let ?avail = "BUF_SIZE - length (bw_buf w)"
  show thesis
  proof (cases "?avail < length q")
    case False
    then have "bw_rel (w\<lparr>bw_buf := bw_buf w @ q\<rparr>) c p (bs @ q)"
      using room by (intro bw_rel_push assms) auto
    with False err that show ?thesis by (simp add: bwWrite_def)
  next
    case True
    let ?q1 = "take ?avail q" and ?q2 = "drop ?avail q"
    have 1: "bw_rel (w\<lparr>bw_buf := bw_buf w @ ?q1\<rparr>) c p (bs @ ?q1)"
    proof (cases "?q1 = []")
      case False
      then show ?thesis using room by (intro bw_rel_push assms) auto
    qed (use assms in simp)
    obtain w1 where w1: "bwFlush (w\<lparr>bw_buf := bw_buf w @ ?q1\<rparr>) = Inr (None, w1)"
      "bw_rel w1 c p (bs @ ?q1)" "bw_buf w1 = []"
      by (rule bwFlush_rel [OF 1]) (use assms(4) in auto)
    have "bw_rel (w1\<lparr>bw_buf := bw_buf w1 @ ?q2\<rparr>) c p ((bs @ ?q1) @ ?q2)"
      using True w1 assms by (intro bw_rel_push) auto
    moreover have "bw_err w1 = None" using w1(2) by (auto simp: bw_rel_def)
    ultimately show ?thesis
      using True w1 err that [of "w1\<lparr>bw_buf := ?q2\<rparr>"] by (simp add: bwWrite_def Let_def)
  qed
qed

lemma writeEntries_rel:
  assumes "bw_rel w c p bs" "\<forall>e \<in> set es. entry_ok e" "length prev = ENTRY_SIZE"
    "p + length bs + ENTRY_SIZE * length es < 4611686018427387904"
  shows "\<exists>w'. writeEntries w prev es = Inr w' \<and> bw_rel w' c p (bs @ entryStream prev es)"
  using assms
proof (induction es arbitrary: w bs prev)
  case Nil
  then show ?case by simp
next
  case (Cons e es)
  let ?q = "entryBytes prev e"
  have q: "length ?q = ENTRY_SIZE" using Cons.prems by (simp add: byte_simps)
  obtain w1 where w1: "bwWrite w ?q = Inr ((length ?q, None), w1)" "bw_rel w1 c p (bs @ ?q)"
    using Cons.prems q by (elim bwWrite_rel [of w c p bs ?q]) auto
  have "\<exists>w'. writeEntries w1 ?q es = Inr w' \<and> bw_rel w' c p ((bs @ ?q) @ entryStream ?q es)"
    using Cons.prems w1 q by (intro Cons.IH) auto
  with w1 q Cons.prems show ?case by (auto simp: entry_ok_def)
qed

lemma persistEntries_ok:
  assumes "valid d" "\<forall>e \<in> set es. entry_ok e"
    "PAGE_SIZE + ENTRY_SIZE * (off + length es) < 4611686018427387904" "es \<noteq> []"
  obtains d' where "persistEntries off es (device d) = Inr (device d')" "valid d'"
    "content d' = overwrite (content d) (PAGE_SIZE + ENTRY_SIZE * off)
       (entryStream (replicate ENTRY_SIZE 0) es)"
proof -
  let ?p = "PAGE_SIZE + ENTRY_SIZE * off" and ?s = "entryStream (replicate ENTRY_SIZE 0) es"
  obtain d1 where d1: "Seek (device d) (int ?p) 0 = ((int ?p, None), device d1)" "valid d1"
    "content d1 = content d" "offset d1 = ?p"
    using assms by (elim Seek_device [of d ?p]) auto
  from bw_rel_new [OF d1(2)] have "bw_rel (NewWriter (device d1)) (content d) ?p []"
    by (simp add: d1)
  then obtain w where w: "writeEntries (NewWriter (device d1)) (replicate ENTRY_SIZE 0) es = Inr w"
    "bw_rel w (content d) ?p ?s"
    using writeEntries_rel [of _ "content d" ?p "[]" es "replicate ENTRY_SIZE 0"] assms by auto
  have len: "length ?s = ENTRY_SIZE * length es" using assms by (simp add: byte_simps)
  obtain w' where w': "bwFlush w = Inr (None, w')" "bw_rel w' (content d) ?p ?s" "bw_buf w' = []"
    by (rule bwFlush_rel [OF w(2)]) (use assms(3) len in auto)
  have "?s \<noteq> []" using len assms(4) by auto
  then obtain d2 where "bw_dev w' = device d2" "valid d2" "content d2 = overwrite (content d) ?p ?s"
    using w' by (auto simp: bw_rel_def overwrite_Nil)
  moreover have "persistEntries off es (device d) = Inr (bw_dev w')"
    using d1 w w' by (simp add: persistEntries_def)
  ultimately show ?thesis using that by simp
qed

section \<open>Reading the log back\<close>

lemma readEntry_stored:
  assumes "valid d" "offset d = PAGE_SIZE + ENTRY_SIZE * i" "stored (content d) i e"
    "offset d + ENTRY_SIZE \<le> length (content d)"
  obtains d' where "readEntry (device d) = Inr (eraseResult e, device d')" "valid d'"
    "content d' = content d" "offset d' = PAGE_SIZE + ENTRY_SIZE * Suc i"
proof -
  obtain d' where d': "Read (device d) ENTRY_SIZE
      = Inr ((window (content d) (offset d) ENTRY_SIZE, None), device d')"
    "valid d'" "content d' = content d" "offset d' = offset d + ENTRY_SIZE"
    using assms by (elim Read_device [of d ENTRY_SIZE]) auto
  have "decodeEntry (window (content d) (offset d) ENTRY_SIZE) = Inr (eraseResult e)"
    using decodeEntry_stored [OF assms(3)] assms(2) by simp
  with d' have "readEntry (device d) = Inr (eraseResult e, device d')"
    by (simp add: readEntry_def)
  with d' assms(2) that show ?thesis by simp
qed

lemma readEntries_stored:
  assumes "valid d" "offset d = PAGE_SIZE + ENTRY_SIZE * i" "\<forall>j < length es. stored (content d) (i + j) (es ! j)"
    "PAGE_SIZE + ENTRY_SIZE * (i + length es) \<le> length (content d)"
  shows "\<exists>d'. readEntries (length es) (device d) = Inr (map eraseResult es, device d') \<and>
    valid d' \<and> content d' = content d"
  using assms
proof (induction es arbitrary: d i)
  case Nil
  then show ?case by auto
next
  case (Cons e es)
  have "stored (content d) i e" using Cons.prems(3) by force
  then obtain d1 where d1: "readEntry (device d) = Inr (eraseResult e, device d1)" "valid d1"
    "content d1 = content d" "offset d1 = PAGE_SIZE + ENTRY_SIZE * Suc i"
    by (rule readEntry_stored [OF Cons.prems(1,2)]) (use Cons.prems(2,4) in auto)
  have "\<forall>j < length es. stored (content d1) (Suc i + j) (es ! j)"
    using Cons.prems(3) d1 by (metis Suc_less_eq add_Suc_shift length_Cons nth_Cons_Suc)
  then have "\<exists>d'. readEntries (length es) (device d1) = Inr (map eraseResult es, device d') \<and>
      valid d' \<and> content d' = content d1"
    using Cons.prems d1 by (intro Cons.IH [of d1 "Suc i"]) auto
  with d1 show ?case by auto
qed

section \<open>persist and restore on a reliable device\<close>

lemma persist_ok:
  assumes s: "storage s = Some (device d)" "valid d" "getVotedFor s = Inr v"
    and off: "off = newOffset writeLog n (length (raftLog s))"
    and img: "logImage (content d) (take off (raftLog s))"
    and ok: "\<forall>e \<in> set (drop off (raftLog s)). entry_ok e" "fits (length (raftLog s))"
  shows "\<exists>d'. persist writeLog n s = Inr (s\<lparr>storage := Some (device d')\<rparr>) \<and> valid d' \<and>
    pageImage (content d') (currentTerm s) v (length (raftLog s)) \<and>
    logImage (content d') (raftLog s) \<and>
    length (content d') = max (length (content d))
      (if off < length (raftLog s) then PAGE_SIZE + ENTRY_SIZE * length (raftLog s) else PAGE_SIZE)"
proof -
  let ?len = "length (raftLog s)" and ?page = "pageBytes (currentTerm s) v (length (raftLog s))"
  let ?k = "if n = 0 \<and> writeLog then int ?len else n"
  obtain d0 where d0: "Seek (device d) 0 0 = ((0, None), device d0)" "valid d0"
    "content d0 = content d" "offset d0 = 0"
    using s by (elim Seek_device [of d 0]) auto
  obtain d1 where d1: "Write (device d0) ?page = Inr ((length ?page, None), device d1)" "valid d1"
    "content d1 = overwrite (content d) 0 ?page"
    using d0 by (elim Write_device [of d0 ?page]) (auto simp: byte_simps)
  have page: "persistPage (currentTerm s) v ?len (device d0) = Inr (device d1)"
    using d1 by (simp add: persistPage_def byte_simps)
  have pi: "pageImage (content d1) (currentTerm s) v ?len"
    by (simp add: d1 pageImage_pageBytes)
  have li: "logImage (content d1) (take off (raftLog s))"
    using img by (simp add: d1 logImage_page)
  have "?page \<noteq> []" using length_pageBytes [of "currentTerm s" v ?len] by force
  then have grows: "length (content d1) = max (length (content d)) PAGE_SIZE"
    by (simp add: d1 byte_simps)
  define es where "es = drop off (raftLog s)"
  have "\<exists>d2. (if writeLog \<and> 0 < ?k
        then let newLogOffset = nat (max (int ?len - ?k) 0)
             in persistEntries newLogOffset (drop newLogOffset (raftLog s)) (device d1)
        else Inr (device d1)) = Inr (device d2) \<and> valid d2 \<and>
      pageImage (content d2) (currentTerm s) v ?len \<and> logImage (content d2) (raftLog s) \<and>
      length (content d2) = max (length (content d1))
        (if off < ?len then PAGE_SIZE + ENTRY_SIZE * ?len else PAGE_SIZE)"
  proof (cases "es = []")
    case True
    then have "?len \<le> off" by (simp add: es_def)
    then have "\<not> (writeLog \<and> 0 < ?k) \<or> raftLog s = []"
      using off by (auto simp: newOffset_def Let_def max_def split: if_splits)
    moreover have "persistEntries 0 [] (device d1) = Inr (snd (Seek (device d1) (int PAGE_SIZE) 0))"
      by (simp add: persistEntries_def NewWriter_def bwFlush_def)
    moreover obtain d2 where "Seek (device d1) (int PAGE_SIZE) 0 = ((int PAGE_SIZE, None), device d2)"
      "valid d2" "content d2 = content d1"
      using d1 by (elim Seek_device [of d1 PAGE_SIZE]) auto
    ultimately show ?thesis
      using \<open>?len \<le> off\<close> d1(2) pi li grows by auto
  next
    case False
    then have "off < ?len" by (simp add: es_def)
    then have on: "writeLog \<and> 0 < ?k" "nat (max (int ?len - ?k) 0) = off"
      using off by (auto simp: newOffset_def Let_def split: if_splits)
    have len: "off + length es = ?len" using \<open>off < ?len\<close> by (simp add: es_def)
    obtain d2 where d2: "persistEntries off es (device d1) = Inr (device d2)" "valid d2"
      "content d2 = overwrite (content d1) (PAGE_SIZE + ENTRY_SIZE * off)
         (entryStream (replicate ENTRY_SIZE 0) es)"
      using d1(2) ok False len by (elim persistEntries_ok [of d1 es off]) (auto simp: es_def fits_def)
    have "length (entryStream (replicate ENTRY_SIZE 0) es) = ENTRY_SIZE * length es"
      using ok by (simp add: byte_simps es_def)
    moreover from this have "entryStream (replicate ENTRY_SIZE 0) es \<noteq> []"
      using False by auto
    ultimately have "length (content d2) = max (length (content d1)) (PAGE_SIZE + ENTRY_SIZE * ?len)"
      by (simp add: d2 length_overwrite flip: len)
    moreover have "logImage (content d2) (raftLog s)"
      unfolding d2 es_def
      by (rule logImage_overwrite_stream) (use li ok \<open>off < ?len\<close> in auto)
    moreover have "pageImage (content d2) (currentTerm s) v ?len"
      unfolding d2 by (rule pageImage_overwrite) (use pi in auto)
    ultimately show ?thesis using on d2(1,2) \<open>off < ?len\<close> by (auto simp: es_def Let_def)
  qed
  then obtain d2 where d2: "(if writeLog \<and> 0 < ?k
        then let newLogOffset = nat (max (int ?len - ?k) 0)
             in persistEntries newLogOffset (drop newLogOffset (raftLog s)) (device d1)
        else Inr (device d1)) = Inr (device d2)" "valid d2"
      "pageImage (content d2) (currentTerm s) v ?len" "logImage (content d2) (raftLog s)"
      "length (content d2) = max (length (content d1))
        (if off < ?len then PAGE_SIZE + ENTRY_SIZE * ?len else PAGE_SIZE)"
    by blast
  obtain d3 where d3: "Sync (device d2) = (None, device d3)" "valid d3" "content d3 = content d2"
    by (rule Sync_device [OF d2(2)])
  have "persist writeLog n s = Inr (s\<lparr>storage := Some (device d3)\<rparr>)"
    unfolding persist_def Let_def [of "?k"]
    using d0 page d2(1) d3(1) s by (simp add: Let_def)
  with d2 d3 grows show ?thesis by auto
qed

lemma foldl_appendLog:
  "\<exists>c. foldl (\<lambda>x e. appendLog grow [e] x) (s::('sm, 'st) Server) es
     = s\<lparr>raftLog := raftLog s @ es, logCap := c\<rparr>"
proof (induction es arbitrary: s)
  case Nil
  then show ?case by (metis (no_types) Server.surjective Server.update_convs(3,4) append_Nil2 foldl_Nil)
next
  case (Cons e es)
  from Cons [of "appendLog grow [e] s"] show ?case by (auto simp: appendLog_def)
qed

lemma restore_ok:
  assumes s: "storage s = Some (device d)" "valid d" "clusterIndex s < length (cluster s)"
    and img: "pageImage (content d) t v (length es)" "logImage (content d) es"
      "PAGE_SIZE + ENTRY_SIZE * length es \<le> length (content d)" "fits (length es)"
  shows "\<exists>d' c s1. setVotedFor v (s\<lparr>currentTerm := t\<rparr>) = Inr s1 \<and> valid d' \<and> content d' = content d \<and>
    restore grow openFile s
      = restoreLog grow (s1\<lparr>storage := Some (device d'), raftLog := map eraseResult es, logCap := c\<rparr>)"
proof -
  obtain d0 where d0: "Seek (device d) 0 0 = ((0, None), device d0)" "valid d0"
    "content d0 = content d" "offset d0 = 0"
    using s by (elim Seek_device [of d 0]) auto
  obtain d1 where d1: "Read (device d0) PAGE_SIZE = Inr ((window (content d) 0 PAGE_SIZE, None), device d1)"
    "valid d1" "content d1 = content d"
    using d0 img(3) by (elim Read_device [of d0 PAGE_SIZE]) auto
  obtain d2 where d2: "Seek (device d1) (int PAGE_SIZE) 0 = ((int PAGE_SIZE, None), device d2)"
    "valid d2" "content d2 = content d" "offset d2 = PAGE_SIZE"
    using d1 by (elim Seek_device [of d1 PAGE_SIZE]) auto
  obtain d3 where d3: "readEntries (length es) (device d2) = Inr (map eraseResult es, device d3)"
    "valid d3" "content d3 = content d"
    using readEntries_stored [of d2 0 es] d2 img by (auto simp: logImage_def)
  obtain s1 where s1: "setVotedFor v (s\<lparr>currentTerm := t\<rparr>) = Inr s1"
    using s(3) by (auto simp: setVotedFor_def)
  have s1': "setVotedFor v (s\<lparr>storage := Some (device d1), currentTerm := t\<rparr>)
      = Inr (s1\<lparr>storage := Some (device d1)\<rparr>)"
    using s1 by (auto simp: setVotedFor_def split: if_splits)
  have n: "unat (of_nat (length es) :: u64) = length es"
    using img(4) by simp
  show ?thesis
  proof (cases "es = []")
    case True
    with s1 s1' d0 d1 s img show ?thesis
      by (auto simp: restore_def pageImage_fields [OF img(1)] Let_def intro!: exI [of _ d1] exI [of _ "0::nat"])
  next
    case False
    then have pos: "(0::u64) < of_nat (length es)"
      using n by (metis length_greater_0_conv unat_0 word_less_nat_alt)
    obtain c where c: "foldl (\<lambda>x e. appendLog grow [e] x)
        (s1\<lparr>raftLog := [], logCap := 0, storage := Some (device d3)\<rparr>) (map eraseResult es)
      = s1\<lparr>storage := Some (device d3), raftLog := map eraseResult es, logCap := c\<rparr>"
      using foldl_appendLog [of grow "s1\<lparr>raftLog := [], logCap := 0, storage := Some (device d3)\<rparr>"
          "map eraseResult es"] by auto
    have "restore grow openFile s
        = restoreLog grow (s1\<lparr>storage := Some (device d3), raftLog := map eraseResult es, logCap := c\<rparr>)"
      using s s1' d0 d1 d2 d3 n pos c
      by (simp add: restore_def pageImage_fields [OF img(1)] Let_def)
    with s1 d3 show ?thesis by auto
  qed
qed

text \<open>A page that promises more entries than the device holds makes \<^verbatim>\<open>restore\<close> panic.\<close>

lemma readEntries_short:
  assumes "valid d" "offset d = PAGE_SIZE + ENTRY_SIZE * i"
    "\<forall>j < length es. stored (content d) (i + j) (es ! j)"
    "length (content d) = PAGE_SIZE + ENTRY_SIZE * (i + length es)" "length es < n"
  shows "readEntries n (device d) = Inl (IoPanic EOF)"
  using assms
proof (induction es arbitrary: d i n)
  case Nil
  then obtain k where "n = Suc k" by (cases n) auto
  moreover have "readEntry (device d) = Inl (IoPanic EOF)"
    using Nil by (simp add: readEntry_def Read_device_eof)
  ultimately show ?case by simp
next
  case (Cons e es)
  then obtain k where k: "n = Suc k" by (cases n) auto
  have "stored (content d) i e" using Cons.prems(3) by force
  then obtain d1 where d1: "readEntry (device d) = Inr (eraseResult e, device d1)" "valid d1"
    "content d1 = content d" "offset d1 = PAGE_SIZE + ENTRY_SIZE * Suc i"
    by (rule readEntry_stored [OF Cons.prems(1,2)]) (use Cons.prems(2,4) in auto)
  have "\<forall>j < length es. stored (content d1) (Suc i + j) (es ! j)"
    using Cons.prems(3) d1 by (metis Suc_less_eq add_Suc_shift length_Cons nth_Cons_Suc)
  then have "readEntries k (device d1) = Inl (IoPanic EOF)"
    using Cons.prems d1 k by (intro Cons.IH [of d1 "Suc i"]) auto
  with d1 k show ?case by simp
qed

lemma restore_short:
  assumes s: "storage s = Some (device d)" "valid d" "clusterIndex s < length (cluster s)"
    and img: "pageImage (content d) t v n" "logImage (content d) es" "length es < n" "small n"
      "length (content d) = PAGE_SIZE + ENTRY_SIZE * length es"
  shows "restore grow openFile s = Inl (IoPanic EOF)"
proof -
  obtain d0 where d0: "Seek (device d) 0 0 = ((0, None), device d0)" "valid d0"
    "content d0 = content d" "offset d0 = 0"
    using s by (elim Seek_device [of d 0]) auto
  obtain d1 where d1: "Read (device d0) PAGE_SIZE = Inr ((window (content d) 0 PAGE_SIZE, None), device d1)"
    "valid d1" "content d1 = content d"
    using d0 img by (elim Read_device [of d0 PAGE_SIZE]) auto
  obtain d2 where d2: "Seek (device d1) (int PAGE_SIZE) 0 = ((int PAGE_SIZE, None), device d2)"
    "valid d2" "content d2 = content d" "offset d2 = PAGE_SIZE"
    using d1 by (elim Seek_device [of d1 PAGE_SIZE]) auto
  have "readEntries n (device d2) = Inl (IoPanic EOF)"
    using d2 img by (intro readEntries_short [of d2 0 es]) (auto simp: logImage_def)
  moreover obtain s1 where "setVotedFor v (s\<lparr>storage := Some (device d1), currentTerm := t\<rparr>) = Inr s1"
    using s(3) by (auto simp: setVotedFor_def)
  moreover have "unat (of_nat n :: u64) = n" using img(4) by simp
  moreover from this have "(0::u64) < of_nat n"
    using img(3) by (metis less_nat_zero_code neq0_conv unat_0 word_less_nat_alt)
  ultimately show ?thesis
    using s d0 d1 d2 by (simp add: restore_def pageImage_fields [OF img(1)] Let_def)
qed

text \<open>
  When the last entry is too large, \<^verbatim>\<open>persist(true, 1)\<close> has written the page with the new
  length before it panics, and nothing of the log area.
\<close>

lemma persist_refuses:
  assumes s: "storage s = Some (device d)" "valid d" "getVotedFor s = Inr v"
    and l: "raftLog s = es @ [e]" "\<not> entry_ok e" "fits (length es)"
  obtains d' where "persist True 1 s = Inl (CommandTooLarge (length (Command e)), s\<lparr>storage := Some (device d')\<rparr>)"
    "valid d'" "content d' = overwrite (content d) 0 (pageBytes (currentTerm s) v (Suc (length es)))"
proof -
  let ?page = "pageBytes (currentTerm s) v (Suc (length es))"
  obtain d0 where d0: "Seek (device d) 0 0 = ((0, None), device d0)" "valid d0"
    "content d0 = content d" "offset d0 = 0"
    using s by (elim Seek_device [of d 0]) auto
  obtain d1 where d1: "Write (device d0) ?page = Inr ((length ?page, None), device d1)" "valid d1"
    "content d1 = overwrite (content d) 0 ?page"
    using d0 by (elim Write_device [of d0 ?page]) (auto simp: byte_simps)
  have page: "persistPage (currentTerm s) v (length (raftLog s)) (device d0) = Inr (device d1)"
    using d1 l by (simp add: persistPage_def byte_simps)
  obtain d2 where d2: "Seek (device d1) (int (PAGE_SIZE + ENTRY_SIZE * length es)) 0
      = ((int (PAGE_SIZE + ENTRY_SIZE * length es), None), device d2)" "valid d2" "content d2 = content d1"
    using d1 l(3) by (elim Seek_device [of d1 "PAGE_SIZE + ENTRY_SIZE * length es"]) (auto simp: fits_def)
  have pe: "persistEntries (length es) [e] (device d1)
      = Inl (CommandTooLarge (length (Command e)), device d2)"
    using d2 l(2) by (simp add: persistEntries_def entry_ok_def NewWriter_def)
  have "persist True 1 s = Inl (CommandTooLarge (length (Command e)), s\<lparr>storage := Some (device d2)\<rparr>)"
    using s d0 page pe l by (simp add: persist_def)
  with d2 d1 that show thesis by simp
qed

lemma persist_oversize:
  assumes s: "storage s = Some (device d)" "valid d" "getVotedFor s = Inr v"
    and l: "raftLog s = es @ [e]" "\<not> entry_ok e" "fits (length es)"
    and img: "logImage (content d) es" "length (content d) = PAGE_SIZE + ENTRY_SIZE * length es"
  shows "\<exists>d'. persist True 1 s = Inl (CommandTooLarge (length (Command e)), s\<lparr>storage := Some (device d')\<rparr>) \<and>
    valid d' \<and> pageImage (content d') (currentTerm s) v (Suc (length es)) \<and>
    logImage (content d') es \<and> length (content d') = length (content d)"
proof -
  let ?page = "pageBytes (currentTerm s) v (Suc (length es))"
  obtain d2 where d2: "persist True 1 s = Inl (CommandTooLarge (length (Command e)), s\<lparr>storage := Some (device d2)\<rparr>)"
    "valid d2" "content d2 = overwrite (content d) 0 ?page"
    by (rule persist_refuses [OF s l])
  have "?page \<noteq> []" by (simp add: pageBytes_def PutUint64_def)
  then have "length (content d2) = length (content d)"
    using img(2) by (simp add: d2 length_overwrite length_pageBytes)
  moreover have "pageImage (content d2) (currentTerm s) v (Suc (length es))"
    by (simp add: d2 pageImage_pageBytes)
  moreover have "logImage (content d2) es"
    using img by (simp add: d2 logImage_page)
  ultimately show ?thesis using d2(1,2) by auto
qed

end

end
