(* ===== verification/Durability.thy ===== *)
theory Durability
  imports Persistence
begin

text \<open>
  What \<^verbatim>\<open>persist\<close> guarantees and what \<^verbatim>\<open>restore\<close> gives back, on the in-memory storage: the
  invariant \<open>durable\<close> (the disk holds the term, the vote and the log of the server), its
  preservation by \<^verbatim>\<open>persist\<close>, the recovery of term, log and membership, the loss of the
  vote, and the two ways in which a persisted state cannot be restored.
\<close>

section \<open>The durability invariant\<close>

text \<open>The log on disk agrees with the log in memory.\<close>

definition log_durable :: "('sm, MemStorage) Server \<Rightarrow> bool" where
  "log_durable s \<longleftrightarrow>
     (\<exists>m. storage s = Some (memDevice m) \<and> mem_valid m \<and> logImage (data m) (raftLog s))"

text \<open>So do the term, the vote and the length of the log on the page.\<close>

definition durable :: "('sm, MemStorage) Server \<Rightarrow> bool" where
  "durable s \<longleftrightarrow>
     (\<exists>m v. storage s = Some (memDevice m) \<and> mem_valid m \<and> logImage (data m) (raftLog s) \<and>
        getVotedFor s = Inr v \<and> pageImage (data m) (currentTerm s) v (length (raftLog s)))"

text \<open>The log area is as long as the page says.\<close>

definition complete :: "('sm, MemStorage) Server \<Rightarrow> bool" where
  "complete s \<longleftrightarrow>
     (\<exists>m. storage s = Some (memDevice m) \<and>
        PAGE_SIZE + ENTRY_SIZE * length (raftLog s) \<le> length (data m))"

lemma durable_log_durable: "durable s \<Longrightarrow> log_durable s"
  by (auto simp: durable_def log_durable_def)

lemma memDevice_inj [simp]: "memDevice m = memDevice m' \<longleftrightarrow> m = m'"
  using mem.device_inj by simp

lemma logImage_take: "logImage c es \<Longrightarrow> logImage c (take n es)"
  by (auto simp: logImage_def)

lemma logImage_ok: "logImage c es \<Longrightarrow> e \<in> set es \<Longrightarrow> entry_ok e"
  by (auto simp: logImage_def stored_def in_set_conv_nth)

lemma Now_Intn_durable [simp]:
  "durable (s\<lparr>clock := c\<rparr>) = durable s" "durable (s\<lparr>rand := r\<rparr>) = durable s"
  by (simp_all add: durable_def getVotedFor_def)

section \<open>The example node on a blank device\<close>

text \<open>A device whose log area holds the dummy entry: zeros.\<close>

definition blankDisk :: MemStorage where
  "blankDisk = \<lparr>data = replicate (PAGE_SIZE + ENTRY_SIZE) 0, pos = 0\<rparr>"

definition demoLog :: "Entry list" where
  "demoLog = [dummyEntry, \<lparr>Command = [1], entryTerm = 3, result = Some 7\<rparr>]"

lemma mem_valid_blank [simp]: "mem_valid blankDisk" "mem_valid NewMemStorage"
  by (simp_all add: mem_valid_def blankDisk_def NewMemStorage_def)

lemma window_zeros: "window (replicate k 0) p n = replicate n 0"
  by (rule nth_equalityI) (auto simp: byte_at_def window_def)

lemma logImage_dummy [simp]: "logImage (replicate k 0) [dummyEntry]" "logImage [] [dummyEntry]"
  by (simp_all add: logImage_def stored_def entry_ok_def entryHead_def window_zeros flip: replicate_add)

lemma demoLog_ok [simp]:
  "length demoLog = 2" "demoLog \<noteq> []" "\<forall>e \<in> set demoLog. entry_ok e"
  "\<forall>e \<in> set demoLog. wf_command (Command e)" "take (Suc 0) demoLog = [dummyEntry]"
  "map eraseResult demoLog = [dummyEntry, \<lparr>Command = [1], entryTerm = 3, result = None\<rparr>]"
  by (simp_all add: demoLog_def entry_ok_def wf_command_def isConfigChangeCommand_def
      configChangeMarker_def eraseResult_def dummyEntry_def)

lemma fits_numeral [simp]: "fits 0" "fits 1" "fits 2" "fits (Suc 0)" "fits (Suc (Suc 0))"
  by (simp_all add: fits_def)

text \<open>
  C9: \<^verbatim>\<open>persist\<close> establishes the durability invariant: when the entries before the rewritten
  part of the log are on disk already and the rewritten ones are no longer than 112 bytes, it
  changes nothing of the server but the device, and afterwards the disk holds the server's
  term, vote and log.
\<close>

theorem persist_durable:
  assumes "storage s = Some (memDevice m)" "mem_valid m" "getVotedFor s = Inr v"
    and "logImage (data m) (take (newOffset writeLog n (length (raftLog s))) (raftLog s))"
    and "\<forall>e \<in> set (drop (newOffset writeLog n (length (raftLog s))) (raftLog s)). entry_ok e"
    and "fits (length (raftLog s))"
  shows "\<exists>m'. persist writeLog n s = Inr (s\<lparr>storage := Some (memDevice m')\<rparr>) \<and>
    durable (s\<lparr>storage := Some (memDevice m')\<rparr>) \<and>
    (newOffset writeLog n (length (raftLog s)) < length (raftLog s) \<or> complete s
       \<longrightarrow> complete (s\<lparr>storage := Some (memDevice m')\<rparr>))"
proof -
  obtain m' where m': "persist writeLog n s = Inr (s\<lparr>storage := Some (memDevice m')\<rparr>)" "mem_valid m'"
    "pageImage (data m') (currentTerm s) v (length (raftLog s))" "logImage (data m') (raftLog s)"
    "length (data m') = max (length (data m))
      (if newOffset writeLog n (length (raftLog s)) < length (raftLog s)
       then PAGE_SIZE + ENTRY_SIZE * length (raftLog s) else PAGE_SIZE)"
    using mem.persist_ok [OF _ assms(2,3) refl assms(4,5,6)] assms(1) by (auto simp: durable_def)
  moreover have "durable (s\<lparr>storage := Some (memDevice m')\<rparr>)"
    using m' assms(3) by (auto simp: durable_def)
  ultimately show ?thesis
    using assms(1) by (auto simp: complete_def intro!: exI [of _ m'])
qed

theorem persist_durable_witness:
  "\<exists>m'. persist True 1 (demo demoLog 3 2 blankDisk) = Inr (demo demoLog 3 2 m') \<and>
    durable (demo demoLog 3 2 m') \<and> complete (demo demoLog 3 2 m')"
proof -
  have "demo demoLog 3 2 blankDisk\<lparr>storage := Some (memDevice m')\<rparr> = demo demoLog 3 2 m'" for m'
    by (simp add: demo_def)
  moreover have "logImage (data blankDisk) [dummyEntry]"
    by (simp only: blankDisk_def MemStorage.simps logImage_dummy)
  moreover have "\<forall>e \<in> set (drop (Suc 0) demoLog). entry_ok e"
    by (meson demoLog_ok(3) in_set_dropD)
  ultimately show ?thesis
    using persist_durable [of "demo demoLog 3 2 blankDisk" blankDisk 2 True 1] by simp
qed

text \<open>The two uses of it in the handlers: the page alone, and the page with the log's tail.\<close>

lemma persist_page_durable:
  assumes "log_durable s" "getVotedFor s = Inr v" "fits (length (raftLog s))"
  obtains m' where "persist False n s = Inr (s\<lparr>storage := Some (memDevice m')\<rparr>)"
    "durable (s\<lparr>storage := Some (memDevice m')\<rparr>)"
proof -
  from assms(1) obtain m where m: "storage s = Some (memDevice m)" "mem_valid m"
    "logImage (data m) (raftLog s)" by (auto simp: log_durable_def)
  from mem.persist_ok [of s m v _ False n, OF _ m(2) assms(2) refl] m assms(2,3)
  obtain m' where "persist False n s = Inr (s\<lparr>storage := Some (memDevice m')\<rparr>)" "mem_valid m'"
    "pageImage (data m') (currentTerm s) v (length (raftLog s))" "logImage (data m') (raftLog s)"
    by auto
  with assms(2) that show thesis by (auto simp: durable_def)
qed

lemma persist_tail_durable:
  assumes "log_durable (s\<lparr>raftLog := es\<rparr>)" "getVotedFor s = Inr v" "fits (length (raftLog s))"
    "raftLog s = es @ new" "\<forall>e \<in> set new. entry_ok e" "k = length new" "0 < k"
  obtains m' where "persist True (int k) s = Inr (s\<lparr>storage := Some (memDevice m')\<rparr>)"
    "durable (s\<lparr>storage := Some (memDevice m')\<rparr>)" "complete (s\<lparr>storage := Some (memDevice m')\<rparr>)"
proof -
  from assms(1) obtain m where m: "storage s = Some (memDevice m)" "mem_valid m"
    "logImage (data m) es" by (auto simp: log_durable_def)
  from mem.persist_ok [of s m v _ True "int k", OF _ m(2) assms(2) refl] m assms(2-7)
  obtain m' where "persist True (int k) s = Inr (s\<lparr>storage := Some (memDevice m')\<rparr>)" "mem_valid m'"
    "pageImage (data m') (currentTerm s) v (length (raftLog s))" "logImage (data m') (raftLog s)"
    "PAGE_SIZE + ENTRY_SIZE * length (raftLog s) \<le> length (data m')"
    by auto
  with assms(2) that show thesis by (auto simp: durable_def complete_def)
qed

section \<open>Recovery\<close>

lemma restoreLog_ok:
  assumes "raftLog s \<noteq> []" "clusterIndex s < length (cluster s)" "selfId s \<in> ids (baseCluster s)"
    "\<forall>e \<in> set (raftLog s). wf_command (Command e)"
  obtains cl k v where "restoreLog grow s = Inr (s\<lparr>cluster := cl, clusterIndex := k\<rparr>)"
    "rebuildLoop 0 (raftLog s) (baseCluster s) (selfId s) v = Inr cl"
    "resolveClusterIndex cl (selfId s) = Inr k"
proof -
  obtain v where v: "getVotedFor s = Inr v"
    using assms(2) by (simp add: getVotedFor_def)
  obtain cl where cl: "rebuildLoop 0 (raftLog s) (baseCluster s) (selfId s) v = Inr cl"
    using rebuildLoop_total [OF assms(4)] by blast
  have "selfId s \<in> ids cl" using rebuildLoop_ids [OF cl] assms(3) by simp
  then obtain k where k: "resolveClusterIndex cl (selfId s) = Inr k"
    by (auto simp: resolve_total)
  from assms(1) v cl k have "restoreLog grow s = Inr (s\<lparr>cluster := cl, clusterIndex := k\<rparr>)"
    by (simp add: restoreLog_def ensureLog_def rebuildClusterFromLog_def)
  with cl k that show thesis by blast
qed

lemma restore_durable:
  assumes "durable s" "complete s" "raftLog s \<noteq> []" "fits (length (raftLog s))"
    and "\<forall>e \<in> set (raftLog s). wf_command (Command e)"
    and "storage r = storage s" "clusterIndex r < length (cluster r)" "selfId r \<in> ids (baseCluster r)"
  obtains r' cl k v where "restore grow openFile r = Inr r'" "currentTerm r' = currentTerm s"
    "raftLog r' = map eraseResult (raftLog s)" "cluster r' = cl" "clusterIndex r' = k"
    "rebuildLoop 0 (map eraseResult (raftLog s)) (baseCluster r) (selfId r) v = Inr cl"
    "resolveClusterIndex cl (selfId r) = Inr k"
proof -
  from assms(1,2) obtain m v where m: "storage s = Some (memDevice m)" "mem_valid m"
    "logImage (data m) (raftLog s)" "pageImage (data m) (currentTerm s) v (length (raftLog s))"
    "PAGE_SIZE + ENTRY_SIZE * length (raftLog s) \<le> length (data m)"
    by (auto simp: durable_def complete_def)
  obtain m' c s1 where r: "setVotedFor v (r\<lparr>currentTerm := currentTerm s\<rparr>) = Inr s1"
    "restore grow openFile r = restoreLog grow
      (s1\<lparr>storage := Some (memDevice m'), raftLog := map eraseResult (raftLog s), logCap := c\<rparr>)"
    using mem.restore_ok [of r m "currentTerm s" v "raftLog s" grow openFile] m assms by auto
  let ?s2 = "s1\<lparr>storage := Some (memDevice m'), raftLog := map eraseResult (raftLog s), logCap := c\<rparr>"
  have f: "currentTerm s1 = currentTerm s" "selfId s1 = selfId r" "baseCluster s1 = baseCluster r"
    "clusterIndex s1 < length (cluster s1)"
    using r(1) by (auto simp: setVotedFor_Inr)
  obtain cl k w where "restoreLog grow ?s2 = Inr (?s2\<lparr>cluster := cl, clusterIndex := k\<rparr>)"
    "rebuildLoop 0 (raftLog ?s2) (baseCluster ?s2) (selfId ?s2) w = Inr cl"
    "resolveClusterIndex cl (selfId ?s2) = Inr k"
    by (rule restoreLog_ok [of ?s2]) (use assms f in \<open>auto simp: eraseResult_def\<close>)
  with r(2) f that show thesis by simp
qed

lemma commandIds_eraseResult: "logIds (map eraseResult es) = logIds es"
  by (simp add: logIds_def eraseResult_def image_image)

text \<open>
  C10: A restart recovers what was persisted. From a durable server with a complete log area, a
  fresh server of the same storage restores the same term, the same entries (without the
  channels of waiting clients), and a cluster that consists of its founding members and those
  of the config changes in the log, with its own index pointing at itself.
\<close>

theorem restore_recovers:
  assumes "durable s" "complete s" "raftLog s \<noteq> []" "fits (length (raftLog s))"
    and "\<forall>e \<in> set (raftLog s). wf_command (Command e)"
    and "storage r = storage s" "clusterIndex r < length (cluster r)" "selfId r \<in> ids (baseCluster r)"
  shows "\<exists>r'. restore grow openFile r = Inr r' \<and> currentTerm r' = currentTerm s \<and>
    raftLog r' = map eraseResult (raftLog s) \<and>
    ids (cluster r') = ids (baseCluster r) \<union> logIds (raftLog s) \<and>
    clusterIndex r' < length (cluster r') \<and> memberId (cluster r' ! clusterIndex r') = selfId r"
proof -
  obtain r' cl k v where r: "restore grow openFile r = Inr r'" "currentTerm r' = currentTerm s"
    "raftLog r' = map eraseResult (raftLog s)" "cluster r' = cl" "clusterIndex r' = k"
    "rebuildLoop 0 (map eraseResult (raftLog s)) (baseCluster r) (selfId r) v = Inr cl"
    "resolveClusterIndex cl (selfId r) = Inr k"
    by (rule restore_durable [OF assms])
  with rebuildLoop_ids [OF r(6)] resolve_Inr [OF r(7)] show ?thesis
    by (simp add: commandIds_eraseResult)
qed

text \<open>The example node after its log was persisted, and a fresh node of the same storage.\<close>

lemma demo_persisted:
  obtains m' where "durable (demo demoLog t v m')" "complete (demo demoLog t v m')"
proof -
  let ?s = "demo demoLog t v blankDisk"
  have 1: "log_durable (?s\<lparr>raftLog := [dummyEntry]\<rparr>)"
    by (auto simp: log_durable_def blankDisk_def mem_valid_def simp del: replicate_Suc)
  have 2: "raftLog ?s = [dummyEntry] @ drop 1 demoLog"
    by (simp add: demoLog_def)
  have 3: "\<forall>e \<in> set (drop 1 demoLog). entry_ok e"
    by (meson demoLog_ok(3) in_set_dropD)
  obtain m' where "durable (?s\<lparr>storage := Some (memDevice m')\<rparr>)"
    "complete (?s\<lparr>storage := Some (memDevice m')\<rparr>)"
    by (rule persist_tail_durable [OF 1 getVotedFor_demo _ 2 3, where k = 1]) simp_all
  moreover have "?s\<lparr>storage := Some (memDevice m')\<rparr> = demo demoLog t v m'"
    by (simp add: demo_def)
  ultimately show thesis using that by simp
qed

theorem restore_recovers_witness:
  "\<exists>m r'. durable (demo demoLog 3 2 m) \<and> restore (\<lambda>_ n. n) (Inl NilStorage) (demo [] 0 0 m) = Inr r' \<and>
    currentTerm r' = 3 \<and> raftLog r' = [dummyEntry, \<lparr>Command = [1], entryTerm = 3, result = None\<rparr>]"
proof -
  obtain m where m: "durable (demo demoLog 3 2 m)" "complete (demo demoLog 3 2 m)"
    by (rule demo_persisted)
  with restore_recovers [of "demo demoLog 3 2 m" "demo [] 0 0 m" "\<lambda>_ n. n" "Inl NilStorage"]
  show ?thesis by auto
qed

text \<open>
  C19: The vote is not recovered. \<^verbatim>\<open>restore\<close> reads it from the page into the cluster and then
  rebuilds the cluster from the founding members, whose records were copied before any vote:
  a founding member that voted and restarts has no vote, whatever the page says, and can vote
  again in the same term.
\<close>

theorem restore_forgets_vote:
  assumes "durable s" "complete s" "raftLog s \<noteq> []" "fits (length (raftLog s))"
    and "\<forall>e \<in> set (raftLog s). wf_command (Command e)"
    and "storage r = storage s" "clusterIndex r < length (cluster r)" "selfId r \<in> ids (baseCluster r)"
    and "\<forall>c \<in> set (baseCluster r). votedFor c = 0"
  shows "\<exists>r'. restore grow openFile r = Inr r' \<and> currentTerm r' = currentTerm s \<and> getVotedFor r' = Inr 0"
proof -
  obtain r' cl k v where r: "restore grow openFile r = Inr r'" "currentTerm r' = currentTerm s"
    "cluster r' = cl" "clusterIndex r' = k"
    "rebuildLoop 0 (map eraseResult (raftLog s)) (baseCluster r) (selfId r) v = Inr cl"
    "resolveClusterIndex cl (selfId r) = Inr k"
    by (rule restore_durable [OF assms(1-8)])
  obtain b where b: "resolveClusterIndex (baseCluster r) (selfId r) = Inr b"
    using assms(8) by (auto simp: resolve_total)
  have "cl ! k = baseCluster r ! b"
    using rebuild_founding_vote [OF r(5,6) b] by blast
  moreover have "b < length (baseCluster r)" "k < length cl"
    using resolve_Inr [OF b] resolve_Inr [OF r(6)] by auto
  ultimately show ?thesis
    using r assms(9) by (auto simp: getVotedFor_def)
qed

theorem restore_forgets_vote_witness:
  "\<exists>m r'. durable (demo demoLog 3 2 m) \<and> getVotedFor (demo demoLog 3 2 m) = Inr 2 \<and>
    restore (\<lambda>_ n. n) (Inl NilStorage) (demo [] 0 0 m) = Inr r' \<and>
    currentTerm r' = 3 \<and> getVotedFor r' = Inr 0"
proof -
  obtain m where m: "durable (demo demoLog 3 2 m)" "complete (demo demoLog 3 2 m)"
    by (rule demo_persisted)
  with restore_forgets_vote [of "demo demoLog 3 2 m" "demo [] 0 0 m" "\<lambda>_ n. n" "Inl NilStorage"]
  show ?thesis by auto
qed

section \<open>Persisted states that cannot be restored\<close>

text \<open>
  C20: A node that persists its page before it has written any entry, as a fresh node does when
  it grants its first vote or starts its first election, cannot be restarted: the page counts
  the dummy entry at index 0, which is not on disk, and \<^verbatim>\<open>restore\<close> panics at the end of file.
\<close>

theorem restart_after_first_vote_panics:
  assumes "storage s = Some (memDevice NewMemStorage)" "getVotedFor s = Inr v"
    and "raftLog s = [dummyEntry]"
    and "clusterIndex r < length (cluster r)"
  shows "\<exists>s'. persist False 0 s = Inr s' \<and>
    restore grow openFile (r\<lparr>storage := storage s'\<rparr>) = Inl (IoPanic EOF)"
proof -
  have img: "logImage [] (raftLog s)"
    using assms(3) by (simp add: logImage_def stored_def entry_ok_def entryHead_def flip: replicate_add)
  obtain m' where m': "persist False 0 s = Inr (s\<lparr>storage := Some (memDevice m')\<rparr>)" "mem_valid m'"
    "pageImage (data m') (currentTerm s) v (length (raftLog s))" "length (data m') = PAGE_SIZE"
    using mem.persist_ok [of s NewMemStorage v _ False 0, OF _ _ assms(2) refl] assms img
    by (auto simp: fits_def mem_valid_def NewMemStorage_def)
  have "restore grow openFile (r\<lparr>storage := Some (memDevice m')\<rparr>) = Inl (IoPanic EOF)"
    using mem.restore_short [of "r\<lparr>storage := Some (memDevice m')\<rparr>" m' "currentTerm s" v 1 "[]"]
      m' assms by (simp add: logImage_def small_def)
  with m' show ?thesis by auto
qed


theorem restart_after_first_vote_panics_witness:
  "\<exists>s'. persist False 0 (demo [dummyEntry] 1 2 NewMemStorage) = Inr s' \<and>
    restore (\<lambda>_ n. n) (Inl NilStorage) (demo [] 0 0 NewMemStorage\<lparr>storage := storage s'\<rparr>)
      = Inl (IoPanic EOF)"
  by (rule restart_after_first_vote_panics [where v = 2]) simp_all

text \<open>
  C21: A command of more than 112 bytes at the end of the log makes \<^verbatim>\<open>persist(true, 1)\<close> panic
  after it has written the page with the new length: the panic names the size of the command,
  and a node that restarts from what it left behind panics in \<^verbatim>\<open>restore\<close> as well, since the
  log area ends before the entry that the page counts.
\<close>

theorem oversize_command_bricks_node:
  assumes "storage s = Some (memDevice m)" "mem_valid m" "getVotedFor s = Inr v"
    and "raftLog s = es @ [e]" "112 < length (Command e)" "fits (length es)"
    and "logImage (data m) es" "length (data m) = PAGE_SIZE + ENTRY_SIZE * length es"
    and "clusterIndex r < length (cluster r)"
  shows "\<exists>s'. persist True 1 s = Inl (CommandTooLarge (length (Command e)), s') \<and>
    restore grow openFile (r\<lparr>storage := storage s'\<rparr>) = Inl (IoPanic EOF)"
proof -
  have "\<not> entry_ok e" using assms(5) by (simp add: entry_ok_def)
  then obtain m' where m': "persist True 1 s
      = Inl (CommandTooLarge (length (Command e)), s\<lparr>storage := Some (memDevice m')\<rparr>)"
    "mem_valid m'" "pageImage (data m') (currentTerm s) v (Suc (length es))"
    "logImage (data m') es" "length (data m') = length (data m)"
    using mem.persist_oversize [of s m v es e] assms by auto
  have "small (Suc (length es))" using assms(6) by (simp add: fits_def small_def)
  with m' assms(8,9) have "restore grow openFile (r\<lparr>storage := Some (memDevice m')\<rparr>) = Inl (IoPanic EOF)"
    using mem.restore_short [of "r\<lparr>storage := Some (memDevice m')\<rparr>" m' "currentTerm s" v "Suc (length es)" es]
    by simp
  with m' show ?thesis by auto
qed

theorem oversize_command_bricks_node_witness:
  "\<exists>s'. persist True 1 (demo [dummyEntry, \<lparr>Command = replicate 113 1, entryTerm = 3, result = Some 0\<rparr>] 3 2 blankDisk)
      = Inl (CommandTooLarge 113, s') \<and>
    restore (\<lambda>_ n. n) (Inl NilStorage) (demo [] 0 0 NewMemStorage\<lparr>storage := storage s'\<rparr>)
      = Inl (IoPanic EOF)"
proof -
  let ?e = "\<lparr>Command = replicate 113 1, entryTerm = 3, result = Some 0\<rparr>"
  have "logImage (data blankDisk) [dummyEntry]" "length (data blankDisk) = PAGE_SIZE + ENTRY_SIZE"
    by (simp_all only: blankDisk_def MemStorage.simps logImage_dummy length_replicate)
  with oversize_command_bricks_node [of "demo [dummyEntry, ?e] 3 2 blankDisk" blankDisk 2 "[dummyEntry]" ?e
      "demo [] 0 0 NewMemStorage" "\<lambda>_ n. n" "Inl NilStorage"]
  show ?thesis by simp
qed

end
