(* ===== verification/Election.thy ===== *)
theory Election
  imports Durability
begin

text \<open>
  Leader election (navi/election.go): the election timer, the start of an election, the
  request and the reply of a vote, the vote handler, the adoption of a higher term, and the
  count of the votes. A goroutine that sends a request is two operations: the locked section
  that builds the request and the locked section that takes the response.
\<close>

section \<open>Messages\<close>

record RPCMessage =
  Term :: u64

record RequestVoteRequest = RPCMessage +
  CandidateId :: u64
  LastLogIndex :: u64
  LastLogTerm :: u64

record RequestVoteResponse = RPCMessage +
  VoteGranted :: bool

section \<open>Operations\<close>

definition resetElectionTimeout :: "('sm, 'st) Server \<Rightarrow> ('sm, 'st) fault + ('sm, 'st) Server" where
  "resetElectionTimeout s =
     (case Intn (heartbeatMs s * 2) s of
        Inl p \<Rightarrow> Inl (p, s)
      | Inr (r, s1) \<Rightarrow>
          (let interval = r + heartbeatMs s * 2;
               (now, s2) = Now s1
           in Inr (s2\<lparr>electionTimeout := now + interval * Millisecond\<rparr>)))"

text \<open>
  \<^verbatim>\<open>requestVote\<close> starts one goroutine per other member; its value is the list of their indices.
\<close>

definition requestVote :: "('sm, 'st) Server \<Rightarrow> nat list" where
  "requestVote s = filter (\<lambda>i. i \<noteq> clusterIndex s) [0..<length (cluster s)]"

definition resetVotes :: "('sm, 'st) Server \<Rightarrow> ClusterMember list" where
  "resetVotes s =
     map (\<lambda>(i, m). m\<lparr>votedFor := (if i = clusterIndex s then selfId s else 0)\<rparr>)
       (zip [0..<length (cluster s)] (cluster s))"

definition timeout :: "('sm, 'st) Server \<Rightarrow> ('sm, 'st) fault + (nat list \<times> ('sm, 'st) Server)" where
  "timeout s =
     (if Passive s then Inr ([], s)
      else let (now, s1) = Now s
      in if electionTimeout s1 < now
         then chain (resetElectionTimeout
                (s1\<lparr>role := candidateState, currentTerm := currentTerm s1 + 1, cluster := resetVotes s1\<rparr>)) (\<lambda>s2.
              chain (persist False 0 s2) (\<lambda>s3.
              Inr (requestVote s3, s3)))
         else Inr ([], s1))"

text \<open>The first locked section of the goroutine for member \<open>i\<close>.\<close>

definition buildRequestVote ::
  "nat \<Rightarrow> ('sm, 'st) Server \<Rightarrow> ('sm, 'st) fault + (bytes \<times> RequestVoteRequest)" where
  "buildRequestVote i s =
     (if length (cluster s) \<le> i \<or> raftLog s = [] then Inl (IndexOutOfRange, s)
      else Inr (Address (cluster s ! i),
        \<lparr>Term = currentTerm s, CandidateId = selfId s,
         LastLogIndex = logLast (raftLog s),
         LastLogTerm = entryTerm (raftLog s ! (length (raftLog s) - 1))\<rparr>))"

definition updateTerm ::
  "'a RPCMessage_scheme \<Rightarrow> ('sm, 'st) Server \<Rightarrow> ('sm, 'st) fault + (bool \<times> ('sm, 'st) Server)" where
  "updateTerm msg s =
     (if currentTerm s < Term msg
      then chain (setVotedFor 0 (s\<lparr>currentTerm := Term msg, role := followerState\<rparr>)) (\<lambda>s1.
           chain (resetElectionTimeout (s1\<lparr>pendingConfigChangeIndex := 0\<rparr>)) (\<lambda>s2.
           chain (persist False 0 s2) (\<lambda>s3.
           Inr (True, s3))))
      else Inr (False, s))"

text \<open>The second locked section: the response to \<open>req\<close> that member \<open>i\<close> gave.\<close>

definition handleVoteResponse ::
  "nat \<Rightarrow> RequestVoteRequest \<Rightarrow> RequestVoteResponse \<Rightarrow> ('sm, 'st) Server
     \<Rightarrow> ('sm, 'st) fault + ('sm, 'st) Server" where
  "handleVoteResponse i req rsp s =
     chain (updateTerm rsp s) (\<lambda>(transitioned, s1).
       if transitioned then Inr s1
       else if Term rsp \<noteq> Term req then Inr s1
       else if VoteGranted rsp
       then if i < length (cluster s1)
            then Inr (s1\<lparr>cluster := (cluster s1)[i := (cluster s1 ! i)\<lparr>votedFor := selfId s1\<rparr>]\<rparr>)
            else Inl (IndexOutOfRange, s1)
       else Inr s1)"

definition HandleRequestVoteRequest ::
  "RequestVoteRequest \<Rightarrow> ('sm, 'st) Server
     \<Rightarrow> ('sm, 'st) fault + (RequestVoteResponse \<times> ('sm, 'st) Server)" where
  "HandleRequestVoteRequest req s =
     chain (updateTerm req s) (\<lambda>(_, s1).
       if Term req < currentTerm s1
       then Inr (\<lparr>Term = currentTerm s1, VoteGranted = False\<rparr>, s1)
       else if raftLog s1 = [] then Inl (IndexOutOfRange, s1)
       else
         (let lastLogTerm = entryTerm (raftLog s1 ! (length (raftLog s1) - 1));
              logLen = logLast (raftLog s1);
              logOk = (lastLogTerm < LastLogTerm req \<or>
                (LastLogTerm req = lastLogTerm \<and> logLen \<le> LastLogIndex req))
          in case getVotedFor s1 of
               Inl p \<Rightarrow> Inl (p, s1)
             | Inr v \<Rightarrow>
                 if Term req = currentTerm s1 \<and> logOk \<and> (v = 0 \<or> v = CandidateId req)
                 then chain (setVotedFor (CandidateId req) s1) (\<lambda>s2.
                      chain (resetElectionTimeout s2) (\<lambda>s3.
                      chain (persist False 0 s3) (\<lambda>s4.
                      Inr (\<lparr>Term = currentTerm s1, VoteGranted = True\<rparr>, s4))))
                 else Inr (\<lparr>Term = currentTerm s1, VoteGranted = False\<rparr>, s1)))"

fun countVotes :: "u64 \<Rightarrow> nat \<Rightarrow> ClusterMember list \<Rightarrow> nat" where
  "countVotes selfID quorum [] = quorum"
| "countVotes selfID quorum (m # ms) =
     countVotes selfID (if votedFor m = selfID \<and> 0 < quorum then quorum - 1 else quorum) ms"

definition becomeLeader ::
  "(nat \<Rightarrow> nat \<Rightarrow> nat) \<Rightarrow> ('sm, 'st) Server \<Rightarrow> ('sm, 'st) fault + ('sm, 'st) Server" where
  "becomeLeader grow s =
     (if countVotes (selfId s) (length (cluster s) div 2 + 1) (cluster s) = 0
      then let s1 = s\<lparr>cluster := map (\<lambda>m. m\<lparr>nextIndex := of_nat (length (raftLog s) + 1), matchIndex := 0\<rparr>)
                        (cluster s), role := leaderState\<rparr>
           in chain (persist True 1
                (appendLog grow [\<lparr>Command = [], entryTerm = currentTerm s1, result = None\<rparr>] s1)) (\<lambda>s2.
              let (now, s3) = Now s2 in Inr (s3\<lparr>heartbeatTimeout := now\<rparr>))
      else Inr s)"

section \<open>Well-formed nodes\<close>

text \<open>
  What every node satisfies after \<^verbatim>\<open>restore\<close>: the log on disk is the log in memory, it has
  the dummy entry, the node knows itself.
\<close>

definition node_ok :: "('sm, MemStorage) Server \<Rightarrow> bool" where
  "node_ok s \<longleftrightarrow> log_durable s \<and> raftLog s \<noteq> [] \<and> fits (length (raftLog s)) \<and>
     clusterIndex s < length (cluster s) \<and> 0 < heartbeatMs s"

text \<open>The operations that only touch timers and the device agree on everything else.\<close>

definition agree :: "('sm, 'st) Server \<Rightarrow> ('sm, 'st) Server \<Rightarrow> bool" where
  "agree s s' \<longleftrightarrow>
     currentTerm s' = currentTerm s \<and> raftLog s' = raftLog s \<and> logCap s' = logCap s \<and>
     selfId s' = selfId s \<and> selfAddress s' = selfAddress s \<and> heartbeatMs s' = heartbeatMs s \<and>
     statemachine s' = statemachine s \<and> baseCluster s' = baseCluster s \<and> Passive s' = Passive s \<and>
     commitIndex s' = commitIndex s \<and> lastApplied s' = lastApplied s \<and> role s' = role s \<and>
     cluster s' = cluster s \<and> clusterIndex s' = clusterIndex s \<and> nextChan s' = nextChan s \<and>
     pendingConfigChangeIndex s' = pendingConfigChangeIndex s \<and> delivered s' = delivered s \<and>
     stopped s' = stopped s"

lemma agree_refl [simp]: "agree s s"
  by (simp add: agree_def)

lemma agree_trans [trans]: "agree s t \<Longrightarrow> agree t u \<Longrightarrow> agree s u"
  by (simp add: agree_def)

lemma agree_vote: "agree s s' \<Longrightarrow> getVotedFor s' = getVotedFor s"
  by (simp add: agree_def getVotedFor_def)

lemma log_durable_cong:
  "storage s' = storage s \<Longrightarrow> raftLog s' = raftLog s \<Longrightarrow> log_durable s' = log_durable s"
  by (simp add: log_durable_def)

lemma resetElectionTimeout_ok:
  assumes "0 < heartbeatMs s"
  obtains s' where "resetElectionTimeout s = Inr s'" "agree s s'" "storage s' = storage s"
    "clock s 0 + 2 * heartbeatMs s * Millisecond \<le> electionTimeout s'"
    "electionTimeout s' < clock s 0 + 4 * heartbeatMs s * Millisecond"
proof -
  let ?r = "int (rand s 0) mod (heartbeatMs s * 2)"
  let ?s = "s\<lparr>rand := \<lambda>k. rand s (Suc k), clock := \<lambda>n. clock s (Suc n),
    electionTimeout := clock s 0 + (?r + heartbeatMs s * 2) * Millisecond\<rparr>"
  have "0 \<le> ?r" "?r < heartbeatMs s * 2" using assms by simp_all
  moreover have "resetElectionTimeout s = Inr ?s"
    using assms by (simp add: resetElectionTimeout_def Intn_def Now_def)
  ultimately show thesis
    using that [of ?s] by (simp add: agree_def)
qed

lemma persist_page_ok:
  assumes "node_ok s"
  obtains s' where "persist False n s = Inr s'" "agree s s'" "durable s'" "node_ok s'"
    "clock s' = clock s" "electionTimeout s' = electionTimeout s"
proof -
  obtain v where "getVotedFor s = Inr v"
    using assms by (auto simp: node_ok_def getVotedFor_def)
  then obtain m' where m': "persist False n s = Inr (s\<lparr>storage := Some (memDevice m')\<rparr>)"
    "durable (s\<lparr>storage := Some (memDevice m')\<rparr>)"
    using assms by (auto simp: node_ok_def intro: persist_page_durable)
  with assms durable_log_durable [OF m'(2)] that show thesis
    by (auto simp: node_ok_def agree_def)
qed

lemma node_ok_agree: "agree s s' \<Longrightarrow> storage s' = storage s \<Longrightarrow> node_ok s' = node_ok s"
  by (simp add: node_ok_def agree_def log_durable_def)

lemma reset_persist_ok:
  assumes "node_ok s"
  obtains s1 s2 where "resetElectionTimeout s = Inr s1" "persist False 0 s1 = Inr s2"
    "agree s s2" "durable s2" "node_ok s2"
    "clock s 0 + 2 * heartbeatMs s * Millisecond \<le> electionTimeout s2"
    "electionTimeout s2 < clock s 0 + 4 * heartbeatMs s * Millisecond"
proof -
  have "0 < heartbeatMs s" using assms by (simp add: node_ok_def)
  then obtain s1 where s1: "resetElectionTimeout s = Inr s1" "agree s s1" "storage s1 = storage s"
    "clock s 0 + 2 * heartbeatMs s * Millisecond \<le> electionTimeout s1"
    "electionTimeout s1 < clock s 0 + 4 * heartbeatMs s * Millisecond"
    by (rule resetElectionTimeout_ok)
  then have "node_ok s1" using assms by (simp add: node_ok_agree)
  then obtain s2 where "persist False 0 s1 = Inr s2" "agree s1 s2" "durable s2" "node_ok s2"
    "electionTimeout s2 = electionTimeout s1"
    by (rule persist_page_ok)
  moreover from this s1 have "agree s s2" by (blast intro: agree_trans)
  ultimately show thesis using s1(4,5) that [OF s1(1), of s2] by simp
qed

section \<open>The adoption of a term\<close>

text \<open>The node's own vote, and the effect of \<^verbatim>\<open>updateTerm\<close> but for timer and device.\<close>

definition ownVote :: "('sm, 'st) Server \<Rightarrow> u64" where
  "ownVote s = votedFor (cluster s ! clusterIndex s)"

definition adoptTerm :: "u64 \<Rightarrow> ('sm, 'st) Server \<Rightarrow> ('sm, 'st) Server" where
  "adoptTerm t s =
     (if currentTerm s < t
      then s\<lparr>currentTerm := t, role := followerState,
             cluster := (cluster s)[clusterIndex s := (cluster s ! clusterIndex s)\<lparr>votedFor := 0\<rparr>],
             pendingConfigChangeIndex := 0\<rparr>
      else s)"

lemma getVotedFor_ok: "node_ok s \<Longrightarrow> getVotedFor s = Inr (ownVote s)"
  by (simp add: node_ok_def getVotedFor_def ownVote_def)

lemma agree_ownVote: "agree s s' \<Longrightarrow> ownVote s' = ownVote s"
  by (simp add: agree_def ownVote_def)

lemma adoptTerm_fields [simp]:
  "currentTerm (adoptTerm t s) = max (currentTerm s) t"
  "raftLog (adoptTerm t s) = raftLog s"
  "clusterIndex (adoptTerm t s) = clusterIndex s"
  "length (cluster (adoptTerm t s)) = length (cluster s)"
  "heartbeatMs (adoptTerm t s) = heartbeatMs s"
  "selfId (adoptTerm t s) = selfId s"
  "storage (adoptTerm t s) = storage s"
  "commitIndex (adoptTerm t s) = commitIndex s"
  "lastApplied (adoptTerm t s) = lastApplied s"
  "baseCluster (adoptTerm t s) = baseCluster s"
  "logCap (adoptTerm t s) = logCap s"
  by (auto simp: adoptTerm_def max_def)

lemma node_ok_adoptTerm [simp]: "node_ok (adoptTerm t s) = node_ok s"
  by (simp add: node_ok_def log_durable_def)

lemma ownVote_adoptTerm:
  "clusterIndex s < length (cluster s) \<Longrightarrow>
     ownVote (adoptTerm t s) = (if currentTerm s < t then 0 else ownVote s)"
  by (simp add: ownVote_def adoptTerm_def)

lemma updateTerm_ok:
  assumes "node_ok s"
  obtains s' where "updateTerm msg s = Inr (currentTerm s < Term msg, s')" "node_ok s'"
    "agree (adoptTerm (Term msg) s) s'" "currentTerm s < Term msg \<longrightarrow> durable s'"
    "\<not> currentTerm s < Term msg \<longrightarrow> s' = s"
proof (cases "currentTerm s < Term msg")
  case False
  with assms that [of s] show thesis by (simp add: updateTerm_def adoptTerm_def)
next
  case True
  have "node_ok (adoptTerm (Term msg) s)" using assms by simp
  then obtain s1 s2 where "resetElectionTimeout (adoptTerm (Term msg) s) = Inr s1"
    "persist False 0 s1 = Inr s2" "agree (adoptTerm (Term msg) s) s2" "durable s2" "node_ok s2"
    by (rule reset_persist_ok)
  with True assms that show thesis
    by (simp add: updateTerm_def adoptTerm_def setVotedFor_def node_ok_def)
qed

section \<open>The vote\<close>

definition lastTerm :: "('sm, 'st) Server \<Rightarrow> u64" where
  "lastTerm s = entryTerm (raftLog s ! (length (raftLog s) - 1))"

text \<open>
  The rule of the Raft paper: the candidate's log is at least as up-to-date, and the node has
  no other vote in the request's term.
\<close>

definition upToDate :: "RequestVoteRequest \<Rightarrow> ('sm, 'st) Server \<Rightarrow> bool" where
  "upToDate req s \<longleftrightarrow> lastTerm s < LastLogTerm req \<or>
     (LastLogTerm req = lastTerm s \<and> length (raftLog s) - 1 \<le> unat (LastLogIndex req))"

definition grantable :: "RequestVoteRequest \<Rightarrow> ('sm, 'st) Server \<Rightarrow> bool" where
  "grantable req s \<longleftrightarrow> upToDate req s \<and>
     (currentTerm s < Term req \<or>
      currentTerm s = Term req \<and> (ownVote s = 0 \<or> ownVote s = CandidateId req))"

definition castVote :: "u64 \<Rightarrow> ('sm, 'st) Server \<Rightarrow> ('sm, 'st) Server" where
  "castVote c s = s\<lparr>cluster := (cluster s)[clusterIndex s := (cluster s ! clusterIndex s)\<lparr>votedFor := c\<rparr>]\<rparr>"

lemma castVote_fields [simp]:
  "currentTerm (castVote c s) = currentTerm s" "raftLog (castVote c s) = raftLog s"
  "clusterIndex (castVote c s) = clusterIndex s" "heartbeatMs (castVote c s) = heartbeatMs s"
  "length (cluster (castVote c s)) = length (cluster s)" "storage (castVote c s) = storage s"
  "role (castVote c s) = role s" "selfId (castVote c s) = selfId s"
  by (simp_all add: castVote_def)

lemma ownVote_castVote: "clusterIndex s < length (cluster s) \<Longrightarrow> ownVote (castVote c s) = c"
  by (simp add: castVote_def ownVote_def)

lemma node_ok_castVote [simp]: "node_ok (castVote c s) = node_ok s"
  by (simp add: node_ok_def log_durable_def)

lemma agree_castVote: "agree s s' \<Longrightarrow> agree (castVote c s) (castVote c s')"
  by (simp add: agree_def castVote_def)

lemma last_index_word:
  "es \<noteq> [] \<Longrightarrow> fits (length es) \<Longrightarrow> logLast es \<le> x \<longleftrightarrow> length es - 1 \<le> unat x"
  by (simp add: word_le_nat_alt)

text \<open>What the handler does on a well-formed node, in one statement.\<close>

lemma HandleRequestVoteRequest_ok:
  assumes "node_ok s"
  obtains s' where
    "HandleRequestVoteRequest req s
       = Inr (\<lparr>Term = max (currentTerm s) (Term req), VoteGranted = grantable req s\<rparr>, s')"
    "node_ok s'"
    "agree (if grantable req s then castVote (CandidateId req) (adoptTerm (Term req) s)
            else adoptTerm (Term req) s) s'"
    "grantable req s \<or> currentTerm s < Term req \<longrightarrow> durable s'"
    "\<not> grantable req s \<and> \<not> currentTerm s < Term req \<longrightarrow> s' = s"
proof -
  obtain s1 where u: "updateTerm req s = Inr (currentTerm s < Term req, s1)" "node_ok s1"
    "agree (adoptTerm (Term req) s) s1" "currentTerm s < Term req \<longrightarrow> durable s1"
    "\<not> currentTerm s < Term req \<longrightarrow> s1 = s"
    using assms by (rule updateTerm_ok)
  have f: "currentTerm s1 = max (currentTerm s) (Term req)" "raftLog s1 = raftLog s"
    "ownVote s1 = (if currentTerm s < Term req then 0 else ownVote s)"
    using u(3) assms agree_ownVote [OF u(3)]
    by (auto simp: agree_def ownVote_adoptTerm node_ok_def)
  have ne: "raftLog s1 \<noteq> []" and w: "fits (length (raftLog s))"
    using u(2) assms by (auto simp: node_ok_def)
  note v = getVotedFor_ok [OF u(2)]
  show thesis
  proof (cases "grantable req s")
    case False
    then have "HandleRequestVoteRequest req s
        = Inr (\<lparr>Term = max (currentTerm s) (Term req), VoteGranted = False\<rparr>, s1)"
      using u(1) v f ne w
      by (auto simp: HandleRequestVoteRequest_def grantable_def upToDate_def lastTerm_def
          last_index_word max_def Let_def split: if_splits)
    with False u that show thesis by simp
  next
    case True
    then have T: "max (currentTerm s) (Term req) = Term req" by (auto simp: grantable_def)
    have "node_ok (castVote (CandidateId req) s1)" using u(2) by simp
    then obtain s2 s3 where s3: "resetElectionTimeout (castVote (CandidateId req) s1) = Inr s2"
      "persist False 0 s2 = Inr s3" "agree (castVote (CandidateId req) s1) s3" "durable s3" "node_ok s3"
      by (rule reset_persist_ok)
    have "setVotedFor (CandidateId req) s1 = Inr (castVote (CandidateId req) s1)"
      using u(2) by (simp add: setVotedFor_def castVote_def node_ok_def)
    then have "HandleRequestVoteRequest req s = Inr (\<lparr>Term = Term req, VoteGranted = True\<rparr>, s3)"
      using u(1) v f ne w True s3(1,2) T
      by (auto simp: HandleRequestVoteRequest_def grantable_def upToDate_def lastTerm_def
          last_index_word Let_def)
    moreover have "agree (castVote (CandidateId req) (adoptTerm (Term req) s)) s3"
      using agree_castVote [OF u(3)] s3(3) by (rule agree_trans)
    ultimately show thesis using True s3 T that [of s3] by simp
  qed
qed

section \<open>Starting an election\<close>

lemma length_resetVotes [simp]: "length (resetVotes s) = length (cluster s)"
  by (simp add: resetVotes_def)

lemma resetVotes_nth:
  "i < length (cluster s) \<Longrightarrow> resetVotes s ! i
     = (cluster s ! i)\<lparr>votedFor := (if i = clusterIndex s then selfId s else 0)\<rparr>"
  by (simp add: resetVotes_def)

lemma ids_resetVotes: "map memberId (resetVotes s) = map memberId (cluster s)"
  by (rule nth_equalityI) (auto simp: resetVotes_nth)

lemma timeout_waits:
  "Passive s \<Longrightarrow> timeout s = Inr ([], s)"
  "\<not> Passive s \<Longrightarrow> clock s 0 \<le> electionTimeout s \<Longrightarrow>
     timeout s = Inr ([], s\<lparr>clock := \<lambda>n. clock s (Suc n)\<rparr>)"
  by (simp_all add: timeout_def Now_def)

lemma timeout_starts_election:
  assumes "node_ok s" "\<not> Passive s" "electionTimeout s < clock s 0"
  obtains s' where "timeout s = Inr (requestVote s, s')" "node_ok s'" "durable s'"
    "currentTerm s' = currentTerm s + 1" "role s' = candidateState" "raftLog s' = raftLog s"
    "cluster s' = resetVotes s" "clusterIndex s' = clusterIndex s" "selfId s' = selfId s"
    "commitIndex s' = commitIndex s" "electionTimeout s' \<ge> clock s 1 + 2 * heartbeatMs s * Millisecond"
    "electionTimeout s' < clock s 1 + 4 * heartbeatMs s * Millisecond"
    "agree (s\<lparr>role := candidateState, currentTerm := currentTerm s + 1, cluster := resetVotes s\<rparr>) s'"
proof -
  let ?s1 = "s\<lparr>clock := \<lambda>n. clock s (Suc n)\<rparr>"
  let ?c = "?s1\<lparr>role := candidateState, currentTerm := currentTerm s + 1, cluster := resetVotes s\<rparr>"
  have r: "resetVotes ?s1 = resetVotes s" by (auto simp: resetVotes_def)
  have "node_ok ?c" using assms(1) by (simp add: node_ok_def log_durable_def)
  then obtain s2 s3 where s3: "resetElectionTimeout ?c = Inr s2" "persist False 0 s2 = Inr s3"
    "agree ?c s3" "durable s3" "node_ok s3"
    "clock ?c 0 + 2 * heartbeatMs ?c * Millisecond \<le> electionTimeout s3"
    "electionTimeout s3 < clock ?c 0 + 4 * heartbeatMs ?c * Millisecond"
    by (rule reset_persist_ok)
  have "requestVote s3 = requestVote s"
    using s3(3) by (simp add: requestVote_def agree_def)
  with s3(1,2) assms r have "timeout s = Inr (requestVote s, s3)"
    by (simp add: timeout_def Now_def)
  with s3 show thesis by (intro that [of s3]) (simp_all add: agree_def)
qed

section \<open>Counting votes\<close>

definition voters :: "('sm, 'st) Server \<Rightarrow> ClusterMember list" where
  "voters s = filter (\<lambda>m. votedFor m = selfId s) (cluster s)"

definition majority :: "nat \<Rightarrow> nat" where
  "majority n = n div 2 + 1"

lemma countVotes_eq: "countVotes i q ms = q - length (filter (\<lambda>m. votedFor m = i) ms)"
  by (induction ms arbitrary: q) auto

lemma becomeLeader_waits:
  "length (voters s) < majority (length (cluster s)) \<Longrightarrow> becomeLeader grow s = Inr s"
  by (simp add: becomeLeader_def countVotes_eq voters_def majority_def)

lemma becomeLeader_wins:
  assumes "node_ok s" "fits (Suc (length (raftLog s)))"
    "majority (length (cluster s)) \<le> length (voters s)"
  obtains s' where "becomeLeader grow s = Inr s'" "node_ok s'" "durable s'" "complete s'"
    "role s' = leaderState" "currentTerm s' = currentTerm s"
    "raftLog s' = raftLog s @ [\<lparr>Command = [], entryTerm = currentTerm s, result = None\<rparr>]"
    "cluster s' = map (\<lambda>m. m\<lparr>nextIndex := of_nat (length (raftLog s) + 1), matchIndex := 0\<rparr>) (cluster s)"
    "clusterIndex s' = clusterIndex s" "selfId s' = selfId s" "commitIndex s' = commitIndex s"
    "ownVote s' = ownVote s" "lastApplied s' = lastApplied s" "baseCluster s' = baseCluster s"
    "logCap s' = appendCap grow (logCap s) (length (raftLog s) + 1)"
proof -
  let ?e = "\<lparr>Command = [], entryTerm = currentTerm s, result = None\<rparr>"
  let ?s1 = "appendLog grow [?e] (s\<lparr>cluster := map (\<lambda>m. m\<lparr>nextIndex := of_nat (length (raftLog s) + 1),
    matchIndex := 0\<rparr>) (cluster s), role := leaderState\<rparr>)"
  have ld: "log_durable (?s1\<lparr>raftLog := raftLog s\<rparr>)"
    using assms(1) by (simp add: node_ok_def log_durable_def appendLog_def)
  have v: "getVotedFor ?s1 = Inr (ownVote s)"
    using assms(1) by (simp add: getVotedFor_def node_ok_def appendLog_def ownVote_def)
  obtain m' where m': "persist True (int 1) ?s1 = Inr (?s1\<lparr>storage := Some (memDevice m')\<rparr>)"
    "durable (?s1\<lparr>storage := Some (memDevice m')\<rparr>)" "complete (?s1\<lparr>storage := Some (memDevice m')\<rparr>)"
    by (rule persist_tail_durable [OF ld v, where new = "[?e]" and k = 1])
      (use assms(2) in \<open>simp_all add: appendLog_def entry_ok_def\<close>)
  let ?s2 = "?s1\<lparr>storage := Some (memDevice m')\<rparr>"
  let ?s3 = "?s2\<lparr>clock := \<lambda>n. clock ?s2 (Suc n), heartbeatTimeout := clock ?s2 0\<rparr>"
  have "becomeLeader grow s = Inr ?s3"
    using assms(3) m'(1) by (simp add: becomeLeader_def countVotes_eq voters_def majority_def Now_def Let_def)
  moreover have "durable ?s3" "complete ?s3"
    using m'(2,3) by (simp_all add: durable_def complete_def)
  moreover have "node_ok ?s3"
    using assms(1,2) durable_log_durable [OF \<open>durable ?s3\<close>]
    by (simp add: node_ok_def appendLog_def)
  moreover have "ownVote ?s3 = ownVote s"
    using assms(1) by (simp add: ownVote_def appendLog_def node_ok_def)
  ultimately show thesis by (intro that [of ?s3]) (simp_all add: appendLog_def)
qed

section \<open>Responses\<close>

lemma handleVoteResponse_ok:
  assumes "node_ok s" "i < length (cluster s)"
  obtains s' where "handleVoteResponse i req rsp s = Inr s'" "node_ok s'"
    "currentTerm s' = max (currentTerm s) (Term rsp)" "raftLog s' = raftLog s"
    "agree (if currentTerm s < Term rsp then adoptTerm (Term rsp) s
            else if Term rsp = Term req \<and> VoteGranted rsp
            then s\<lparr>cluster := (cluster s)[i := (cluster s ! i)\<lparr>votedFor := selfId s\<rparr>]\<rparr> else s) s'"
    "currentTerm s < Term rsp \<longrightarrow> durable s'"
proof -
  obtain s1 where u: "updateTerm rsp s = Inr (currentTerm s < Term rsp, s1)" "node_ok s1"
    "agree (adoptTerm (Term rsp) s) s1" "currentTerm s < Term rsp \<longrightarrow> durable s1"
    "\<not> currentTerm s < Term rsp \<longrightarrow> s1 = s"
    using assms(1) by (rule updateTerm_ok)
  let ?t = "s\<lparr>cluster := (cluster s)[i := (cluster s ! i)\<lparr>votedFor := selfId s\<rparr>]\<rparr>"
  have t: "node_ok ?t" using assms(1) by (simp add: node_ok_def log_durable_def)
  show thesis
  proof (cases "currentTerm s < Term rsp")
    case True
    with u that [of s1] show ?thesis
      by (simp add: handleVoteResponse_def agree_def)
  next
    case False
    then have m: "max (currentTerm s) (Term rsp) = currentTerm s" by (simp add: max_def)
    show ?thesis
    proof (cases "Term rsp = Term req \<and> VoteGranted rsp")
      case True
      with False u(1,5) assms(2) have "handleVoteResponse i req rsp s = Inr ?t"
        by (simp add: handleVoteResponse_def)
      with True False m t show ?thesis by (intro that [of ?t]) simp_all
    next
      case F: False
      with False u(1,5) have "handleVoteResponse i req rsp s = Inr s"
        by (auto simp: handleVoteResponse_def)
      with F False m assms(1) show ?thesis by (intro that [of s]) auto
    qed
  qed
qed

section \<open>Properties\<close>

lemma node_ok_demo [simp]: "node_ok (demo [dummyEntry] t v blankDisk)"
proof -
  have "logImage (data blankDisk) [dummyEntry]"
    by (simp only: blankDisk_def MemStorage.simps logImage_dummy)
  then show ?thesis by (simp add: node_ok_def log_durable_def)
qed

lemma ownVote_demo [simp]: "ownVote (demo es t v m) = v"
  by (simp add: ownVote_def)

lemma vote_step:
  assumes "node_ok s"
  shows "\<exists>s'. HandleRequestVoteRequest req s
      = Inr (\<lparr>Term = max (currentTerm s) (Term req), VoteGranted = grantable req s\<rparr>, s') \<and>
    node_ok s' \<and> raftLog s' = raftLog s \<and> currentTerm s' = max (currentTerm s) (Term req) \<and>
    ownVote s' = (if grantable req s then CandidateId req
      else if currentTerm s < Term req then 0 else ownVote s) \<and>
    (grantable req s \<or> currentTerm s < Term req \<longrightarrow> durable s')"
proof -
  obtain s' where s': "HandleRequestVoteRequest req s
      = Inr (\<lparr>Term = max (currentTerm s) (Term req), VoteGranted = grantable req s\<rparr>, s')" "node_ok s'"
    "agree (if grantable req s then castVote (CandidateId req) (adoptTerm (Term req) s)
            else adoptTerm (Term req) s) s'"
    "grantable req s \<or> currentTerm s < Term req \<longrightarrow> durable s'"
    using assms by (rule HandleRequestVoteRequest_ok)
  have "clusterIndex s < length (cluster s)" using assms by (simp add: node_ok_def)
  then have "ownVote s' = (if grantable req s then CandidateId req
      else if currentTerm s < Term req then 0 else ownVote s)"
    using agree_ownVote [OF s'(3)] by (simp add: ownVote_castVote ownVote_adoptTerm)
  with s' show ?thesis by (intro exI [of _ s']) (simp add: agree_def split: if_splits)
qed

text \<open>
  C8: The vote handler is Raft's rule. On a well-formed node it never fails and answers with
  the higher of the two terms; it grants exactly if the candidate's log is at least as
  up-to-date and the node, in the request's term, has no vote or one for this candidate. It
  leaves the log alone, records the vote it granted (a new term without a grant clears it), and
  a granted vote and a new term are on disk before the answer is given.
\<close>

theorem vote_handler:
  assumes "node_ok s"
  shows "\<exists>s'. HandleRequestVoteRequest req s
      = Inr (\<lparr>Term = max (currentTerm s) (Term req), VoteGranted = grantable req s\<rparr>, s') \<and>
    node_ok s' \<and> raftLog s' = raftLog s \<and> currentTerm s' = max (currentTerm s) (Term req) \<and>
    ownVote s' = (if grantable req s then CandidateId req
      else if currentTerm s < Term req then 0 else ownVote s) \<and>
    (grantable req s \<or> currentTerm s < Term req \<longrightarrow> durable s')"
  using assms by (rule vote_step)

theorem vote_handler_witness:
  "\<exists>s'. HandleRequestVoteRequest \<lparr>Term = 3, CandidateId = 2, LastLogIndex = 0, LastLogTerm = 0\<rparr>
      (demo [dummyEntry] 3 0 blankDisk) = Inr (\<lparr>Term = 3, VoteGranted = True\<rparr>, s') \<and>
    ownVote s' = 2 \<and> durable s'"
  using vote_handler [of "demo [dummyEntry] 3 0 blankDisk"
      "\<lparr>Term = 3, CandidateId = 2, LastLogIndex = 0, LastLogTerm = 0\<rparr>"]
  by (simp add: grantable_def upToDate_def lastTerm_def) blast

text \<open>Votes of one node over a run of requests.\<close>

fun voteRun ::
  "RequestVoteRequest list \<Rightarrow> ('sm, 'st) Server
     \<Rightarrow> ('sm, 'st) fault + (RequestVoteResponse list \<times> ('sm, 'st) Server)" where
  "voteRun [] s = Inr ([], s)"
| "voteRun (req # reqs) s =
     chain (HandleRequestVoteRequest req s) (\<lambda>(rsp, s1).
     chain (voteRun reqs s1) (\<lambda>(rsps, s2). Inr (rsp # rsps, s2)))"

text \<open>The requests that got the vote.\<close>

fun grants :: "RequestVoteRequest list \<Rightarrow> RequestVoteResponse list \<Rightarrow> RequestVoteRequest list" where
  "grants (req # reqs) (rsp # rsps) =
     (if VoteGranted rsp then req # grants reqs rsps else grants reqs rsps)"
| "grants _ _ = []"

text \<open>A grant in a run is in no older term, and agrees with the vote the node had.\<close>

lemma voteRun_ok:
  assumes "node_ok s" "\<forall>req \<in> set reqs. CandidateId req \<noteq> 0"
  shows "\<exists>rsps s'. voteRun reqs s = Inr (rsps, s') \<and> length rsps = length reqs \<and>
    (\<forall>r \<in> set (grants reqs rsps). currentTerm s \<le> Term r \<and>
       (Term r = currentTerm s \<and> ownVote s \<noteq> 0 \<longrightarrow> CandidateId r = ownVote s)) \<and>
    (\<forall>r \<in> set (grants reqs rsps). \<forall>r' \<in> set (grants reqs rsps).
       Term r = Term r' \<longrightarrow> CandidateId r = CandidateId r')"
  using assms
proof (induction reqs arbitrary: s)
  case (Cons req reqs)
  obtain s1 where s1: "HandleRequestVoteRequest req s
      = Inr (\<lparr>Term = max (currentTerm s) (Term req), VoteGranted = grantable req s\<rparr>, s1)" "node_ok s1"
    "currentTerm s1 = max (currentTerm s) (Term req)"
    "ownVote s1 = (if grantable req s then CandidateId req
      else if currentTerm s < Term req then 0 else ownVote s)"
    using vote_step [OF Cons.prems(1), of req] by blast
  have "\<forall>req \<in> set reqs. CandidateId req \<noteq> 0" using Cons.prems(2) by simp
  from Cons.IH [OF s1(2) this] obtain rsps s' where
    r: "voteRun reqs s1 = Inr (rsps, s')" "length rsps = length reqs"
    "\<forall>r \<in> set (grants reqs rsps). currentTerm s1 \<le> Term r \<and>
       (Term r = currentTerm s1 \<and> ownVote s1 \<noteq> 0 \<longrightarrow> CandidateId r = ownVote s1)"
    "\<forall>r \<in> set (grants reqs rsps). \<forall>r' \<in> set (grants reqs rsps).
       Term r = Term r' \<longrightarrow> CandidateId r = CandidateId r'"
    by (elim exE conjE)
  let ?rsps = "\<lparr>Term = max (currentTerm s) (Term req), VoteGranted = grantable req s\<rparr> # rsps"
  have head: "CandidateId r = CandidateId req"
    if "grantable req s" "r \<in> set (grants reqs rsps)" "Term r = Term req" for r
  proof -
    have "currentTerm s1 = Term req" using s1(3) that(1) by (auto simp: grantable_def max_def)
    moreover have "ownVote s1 = CandidateId req" using s1(4) that(1) by simp
    ultimately show ?thesis using bspec [OF r(3) that(2)] that(3) Cons.prems(2) by simp
  qed
  have tail: "currentTerm s \<le> Term r \<and>
      (Term r = currentTerm s \<and> ownVote s \<noteq> 0 \<longrightarrow> CandidateId r = ownVote s)"
    if g: "r \<in> set (grants reqs rsps)" for r
  proof -
    note b = bspec [OF r(3) g]
    have le: "max (currentTerm s) (Term req) \<le> Term r" using b s1(3) by simp
    have "CandidateId r = ownVote s" if t: "Term r = currentTerm s" "ownVote s \<noteq> 0"
    proof -
      have m: "currentTerm s1 = currentTerm s" "\<not> currentTerm s < Term req"
        using le t(1) s1(3) by (auto simp: max_def split: if_splits)
      then have "ownVote s1 = ownVote s" using s1(4) t(2) by (auto simp: grantable_def)
      with b m t show ?thesis by simp
    qed
    with le show ?thesis by simp
  qed
  have run: "voteRun (req # reqs) s = Inr (?rsps, s')" using s1(1) r(1) by simp
  have mem: "r \<in> set (grants (req # reqs) ?rsps) \<longleftrightarrow>
      grantable req s \<and> r = req \<or> r \<in> set (grants reqs rsps)" for r
    by simp
  show ?case
  proof (intro exI conjI ballI impI)
    show "voteRun (req # reqs) s = Inr (?rsps, s')" by (fact run)
    show "length ?rsps = length (req # reqs)" using r(2) by simp
    fix r assume g: "r \<in> set (grants (req # reqs) ?rsps)"
    from g consider (new) "grantable req s" "r = req" | (old) "r \<in> set (grants reqs rsps)"
      unfolding mem by blast
    then have b: "currentTerm s \<le> Term r \<and>
        (Term r = currentTerm s \<and> ownVote s \<noteq> 0 \<longrightarrow> CandidateId r = ownVote s)"
    proof cases
      case new
      then have "currentTerm s < Term r \<or>
          currentTerm s = Term r \<and> (ownVote s = 0 \<or> ownVote s = CandidateId r)"
        unfolding grantable_def by blast
      then show ?thesis by (metis order.strict_iff_order order.refl)
    qed (rule tail)
    show "currentTerm s \<le> Term r" using b by (rule conjunct1)
    show "CandidateId r = ownVote s" if "Term r = currentTerm s \<and> ownVote s \<noteq> 0"
      using conjunct2 [OF b] that by (rule mp)
    fix r' assume "r' \<in> set (grants (req # reqs) ?rsps)" "Term r = Term r'"
    with g show "CandidateId r = CandidateId r'"
      using head r(4) unfolding mem by metis
  qed
qed simp

text \<open>
  C12: One vote per term: over any run of vote requests that a node handles without a restart
  or a truncation in between, from any well-formed state, the requests of one term that it
  grants all come from the same candidate. The handler answers every request of the run.
\<close>

theorem one_vote_per_term:
  assumes "node_ok s" "\<forall>req \<in> set reqs. CandidateId req \<noteq> 0"
  shows "\<exists>rsps s'. voteRun reqs s = Inr (rsps, s') \<and> length rsps = length reqs \<and>
    (\<forall>r \<in> set (grants reqs rsps). \<forall>r' \<in> set (grants reqs rsps).
       Term r = Term r' \<longrightarrow> CandidateId r = CandidateId r')"
  using voteRun_ok [OF assms] by (elim exE conjE) (intro exI conjI)

theorem one_vote_per_term_witness:
  "\<exists>rsps s'. voteRun [\<lparr>Term = 4, CandidateId = 2, LastLogIndex = 0, LastLogTerm = 0\<rparr>,
      \<lparr>Term = 4, CandidateId = 3, LastLogIndex = 0, LastLogTerm = 0\<rparr>] (demo [dummyEntry] 3 0 blankDisk)
      = Inr (rsps, s') \<and> \<not> (VoteGranted (rsps ! 0) \<and> VoteGranted (rsps ! 1))"
proof -
  let ?reqs = "[\<lparr>Term = 4, CandidateId = 2, LastLogIndex = 0, LastLogTerm = 0\<rparr>,
      \<lparr>Term = 4, CandidateId = 3, LastLogIndex = 0, LastLogTerm = 0\<rparr>] :: RequestVoteRequest list"
  have "\<forall>req \<in> set ?reqs. CandidateId req \<noteq> 0" by simp
  from one_vote_per_term [OF node_ok_demo [of 3 0] this]
  obtain rsps s' where r: "voteRun ?reqs (demo [dummyEntry] 3 0 blankDisk) = Inr (rsps, s')"
    "length rsps = length ?reqs"
    "\<forall>r \<in> set (grants ?reqs rsps). \<forall>r' \<in> set (grants ?reqs rsps).
       Term r = Term r' \<longrightarrow> CandidateId r = CandidateId r'"
    by (elim exE conjE)
  then obtain p q where pq: "rsps = [p, q]" by (auto simp: length_Suc_conv)
  with r(3) have "\<not> (VoteGranted p \<and> VoteGranted q)" by auto
  with r(1) pq show ?thesis by auto
qed

lemma length_filter_update:
  "i < length xs \<Longrightarrow> length (filter P (xs[i := x])) + (if P (xs ! i) then 1 else 0)
     = length (filter P xs) + (if P x then 1 else 0)"
proof (induction xs arbitrary: i)
  case (Cons y ys)
  then show ?case using Cons.IH [of "i - 1"] by (cases i) (auto split: if_splits)
qed simp

text \<open>
  C16: The election timer. A passive node never starts an election; another one starts it
  exactly when the clock has passed its deadline: it moves to the next term as a candidate
  that voted for itself and holds no other vote, with the new term and vote on disk and a new
  deadline between two and four heartbeats away, and asks every other member for its vote.
\<close>

theorem timeout_election:
  assumes "node_ok s"
  shows "\<exists>s' is. timeout s = Inr (is, s') \<and> node_ok s' \<and> raftLog s' = raftLog s \<and>
    (if \<not> Passive s \<and> electionTimeout s < clock s 0
     then is = filter (\<lambda>i. i \<noteq> clusterIndex s) [0..<length (cluster s)] \<and>
       role s' = candidateState \<and> currentTerm s' = currentTerm s + 1 \<and> length (cluster s') = length (cluster s) \<and>
       (\<forall>i < length (cluster s). cluster s' ! i =
          (cluster s ! i)\<lparr>votedFor := (if i = clusterIndex s then selfId s else 0)\<rparr>) \<and>
       ownVote s' = selfId s \<and> durable s' \<and>
       electionTimeout s' \<in> {clock s 1 + 2 * heartbeatMs s * Millisecond ..<
         clock s 1 + 4 * heartbeatMs s * Millisecond}
     else is = [] \<and> role s' = role s \<and> currentTerm s' = currentTerm s \<and> cluster s' = cluster s)"
proof (cases "\<not> Passive s \<and> electionTimeout s < clock s 0")
  case True
  then obtain s' where s': "timeout s = Inr (requestVote s, s')" "node_ok s'" "durable s'"
    "currentTerm s' = currentTerm s + 1" "role s' = candidateState" "raftLog s' = raftLog s"
    "cluster s' = resetVotes s" "clusterIndex s' = clusterIndex s"
    "clock s 1 + 2 * heartbeatMs s * Millisecond \<le> electionTimeout s'"
    "electionTimeout s' < clock s 1 + 4 * heartbeatMs s * Millisecond"
    using timeout_starts_election [OF assms] by metis
  have "ownVote s' = selfId s"
    using s'(7,8) assms by (simp add: ownVote_def resetVotes_nth node_ok_def)
  with s' True show ?thesis
    by (intro exI [of _ s'] exI [of _ "requestVote s"]) (simp add: requestVote_def resetVotes_nth)
next
  case False
  show ?thesis
  proof (cases "Passive s")
    case True
    with assms show ?thesis by (simp add: timeout_waits)
  next
    case F: False
    have "node_ok (s\<lparr>clock := \<lambda>n. clock s (Suc n)\<rparr>)"
      using assms by (simp add: node_ok_def log_durable_def)
    with False F timeout_waits(2) [of s] show ?thesis by auto
  qed
qed

theorem timeout_election_witness:
  "\<exists>s' is. timeout (demo [dummyEntry] 3 0 blankDisk\<lparr>clock := \<lambda>n. 7\<rparr>) = Inr (is, s') \<and>
    is = [1, 2] \<and> role s' = candidateState \<and> currentTerm s' = 4 \<and> ownVote s' = 1 \<and>
    votedFor (cluster s' ! 1) = 0 \<and> votedFor (cluster s' ! 2) = 0"
proof -
  let ?s = "demo [dummyEntry] 3 0 blankDisk\<lparr>clock := \<lambda>n. 7\<rparr>"
  have "node_ok ?s" using node_ok_demo [of 3 0] by (simp add: node_ok_def log_durable_def)
  moreover have c: "\<not> Passive ?s \<and> electionTimeout ?s < clock ?s 0" by (simp add: demo_def)
  ultimately obtain s' "is" where r: "timeout ?s = Inr (is, s')"
    "is = filter (\<lambda>i. i \<noteq> clusterIndex ?s) [0..<length (cluster ?s)]" "role s' = candidateState"
    "currentTerm s' = currentTerm ?s + 1" "ownVote s' = selfId ?s"
    "\<forall>i < length (cluster ?s). cluster s' ! i = (cluster ?s ! i)\<lparr>votedFor := (if i = clusterIndex ?s then selfId ?s else 0)\<rparr>"
    using timeout_election [of ?s] unfolding if_P [OF c] by blast
  moreover have "length (cluster ?s) = 3" "clusterIndex ?s = 0" by (simp_all add: demo_def threeNodes_def)
  moreover from this r(2) have "is = [1, 2]" by (simp add: upt_rec)
  ultimately show ?thesis by simp
qed

text \<open>
  A node becomes leader exactly when a majority of its member records hold a vote for it;
  otherwise nothing changes. A new leader has appended the empty entry of its term, persisted
  it, and reset every member's next and match index.
\<close>

theorem becomeLeader_majority:
  assumes "node_ok s" "fits (Suc (length (raftLog s)))"
  shows "\<exists>s'. becomeLeader grow s = Inr s' \<and> node_ok s' \<and>
    (if majority (length (cluster s)) \<le> length (voters s)
     then role s' = leaderState \<and> currentTerm s' = currentTerm s \<and> durable s' \<and> complete s' \<and>
       raftLog s' = raftLog s @ [\<lparr>Command = [], entryTerm = currentTerm s, result = None\<rparr>] \<and>
       (\<forall>m \<in> set (cluster s'). matchIndex m = 0 \<and> nextIndex m = of_nat (length (raftLog s'))) \<and>
       ownVote s' = ownVote s
     else s' = s)"
proof (cases "majority (length (cluster s)) \<le> length (voters s)")
  case True
  then obtain s' where "becomeLeader grow s = Inr s'" "node_ok s'" "durable s'" "complete s'"
    "role s' = leaderState" "currentTerm s' = currentTerm s"
    "raftLog s' = raftLog s @ [\<lparr>Command = [], entryTerm = currentTerm s, result = None\<rparr>]"
    "cluster s' = map (\<lambda>m. m\<lparr>nextIndex := of_nat (length (raftLog s) + 1), matchIndex := 0\<rparr>) (cluster s)"
    "ownVote s' = ownVote s"
    using becomeLeader_wins [OF assms] by metis
  with True show ?thesis by (intro exI [of _ s']) simp
next
  case False
  with assms(1) becomeLeader_waits [of s grow] show ?thesis by simp
qed

theorem becomeLeader_majority_witness:
  "\<exists>s'. becomeLeader (\<lambda>_ n. n) (demo [dummyEntry] 3 1 blankDisk
      \<lparr>cluster := map (\<lambda>m. m\<lparr>votedFor := 1\<rparr>) threeNodes\<rparr>) = Inr s' \<and> role s' = leaderState \<and>
    raftLog s' = [dummyEntry, \<lparr>Command = [], entryTerm = 3, result = None\<rparr>]"
proof -
  let ?s = "demo [dummyEntry] 3 1 blankDisk\<lparr>cluster := map (\<lambda>m. m\<lparr>votedFor := 1\<rparr>) threeNodes\<rparr>"
  have ok: "node_ok ?s"
    using node_ok_demo [of 3 1] by (simp add: node_ok_def log_durable_def threeNodes_def)
  have "majority (length (cluster ?s)) \<le> length (voters ?s)"
    by (simp add: majority_def voters_def threeNodes_def)
  with becomeLeader_majority [OF ok, of "\<lambda>_ n. n"] show ?thesis by auto
qed

lemma becomeLeader_needs_majority:
  assumes "becomeLeader grow s = Inr s'" "role s \<noteq> leaderState" "role s' = leaderState"
  shows "majority (length (cluster s)) \<le> length (voters s)"
  using assms becomeLeader_waits [of s grow] by fastforce

lemma card_ids: "distinct (map memberId ms) \<Longrightarrow> card (ids ms) = length ms"
  using distinct_card [of "map memberId ms"] by (simp add: ids_def)

lemma distinct_voters: "distinct (map memberId (cluster s)) \<Longrightarrow> distinct (map memberId (voters s))"
  by (simp add: voters_def distinct_map_filter)

lemma ids_voters: "ids (voters s) \<subseteq> ids (cluster s)"
  by (auto simp: ids_def voters_def)

text \<open>
  Two majorities meet: when two nodes with the same members (in any order) both become
  leader, some member is recorded as a voter by both. With one vote per member and term this
  is what allows one leader per term.
\<close>

theorem winners_share_a_voter:
  assumes "becomeLeader grow s = Inr s'" "role s \<noteq> leaderState" "role s' = leaderState"
    and "becomeLeader grow t = Inr t'" "role t \<noteq> leaderState" "role t' = leaderState"
    and "ids (cluster s) = ids (cluster t)"
    and "distinct (map memberId (cluster s))" "distinct (map memberId (cluster t))"
  shows "ids (voters s) \<inter> ids (voters t) \<noteq> {}"
proof
  assume empty: "ids (voters s) \<inter> ids (voters t) = {}"
  have "ids (voters s) \<union> ids (voters t) \<subseteq> ids (cluster s)"
    using ids_voters [of s] ids_voters [of t] assms(7) by blast
  then have "card (ids (voters s) \<union> ids (voters t)) \<le> card (ids (cluster s))"
    by (intro card_mono) (auto simp: ids_def)
  moreover have "card (ids (voters s) \<union> ids (voters t)) = card (ids (voters s)) + card (ids (voters t))"
    using empty by (intro card_Un_disjoint) (auto simp: ids_def)
  moreover have "length (cluster t) = length (cluster s)"
    using card_ids [OF assms(8)] card_ids [OF assms(9)] assms(7) by simp
  moreover note becomeLeader_needs_majority [OF assms(1-3)] becomeLeader_needs_majority [OF assms(4-6)]
    card_ids [OF distinct_voters [OF assms(8)]] card_ids [OF distinct_voters [OF assms(9)]]
    card_ids [OF assms(8)]
  ultimately show False by (simp add: majority_def)
qed

text \<open>The example node with given votes, as its own candidate or as that of member 2.\<close>

definition ballot :: "u64 \<Rightarrow> nat \<Rightarrow> u64 list \<Rightarrow> (unit, MemStorage) Server" where
  "ballot i k vs = demo [dummyEntry] 3 0 blankDisk
     \<lparr>selfId := i, clusterIndex := k, role := candidateState,
      cluster := map (\<lambda>(m, v). m\<lparr>votedFor := v\<rparr>) (zip threeNodes vs)\<rparr>"

lemma ballot_ok:
  assumes "k < 3" "length vs = 3"
  shows "node_ok (ballot i k vs)"
  using assms node_ok_demo [of 3 0] by (simp add: node_ok_def log_durable_def ballot_def threeNodes_def)

lemma ballot_fields [simp]:
  "raftLog (ballot i k vs) = [dummyEntry]" "role (ballot i k vs) = candidateState"
  "selfId (ballot i k vs) = i" "currentTerm (ballot i k vs) = 3"
  "cluster (ballot i k vs) = map (\<lambda>(m, v). m\<lparr>votedFor := v\<rparr>) (zip threeNodes vs)"
  by (simp_all add: ballot_def)

theorem winners_share_a_voter_witness:
  "\<exists>s' t'. becomeLeader (\<lambda>_ n. n) (ballot 1 0 [1, 1, 0]) = Inr s' \<and> role s' = leaderState \<and>
    becomeLeader (\<lambda>_ n. n) (ballot 2 1 [0, 2, 2]) = Inr t' \<and> role t' = leaderState \<and>
    ids (voters (ballot 1 0 [1, 1, 0])) \<inter> ids (voters (ballot 2 1 [0, 2, 2])) \<noteq> {}"
proof -
  let ?s = "ballot 1 0 [1, 1, 0]" and ?t = "ballot 2 1 [0, 2, 2]"
  have ok: "node_ok ?s" "node_ok ?t" by (simp_all add: ballot_ok)
  have m: "majority (length (cluster ?s)) \<le> length (voters ?s)"
    "majority (length (cluster ?t)) \<le> length (voters ?t)"
    by (simp_all add: majority_def voters_def threeNodes_def)
  have f: "fits (Suc (length (raftLog ?s)))" "fits (Suc (length (raftLog ?t)))" by simp_all
  obtain s' where s': "becomeLeader (\<lambda>_ n. n) ?s = Inr s'" "role s' = leaderState"
    by (rule becomeLeader_wins [OF ok(1) f(1) m(1)])
  obtain t' where t': "becomeLeader (\<lambda>_ n. n) ?t = Inr t'" "role t' = leaderState"
    by (rule becomeLeader_wins [OF ok(2) f(2) m(2)])
  have "ids (voters ?s) \<inter> ids (voters ?t) \<noteq> {}"
    by (rule winners_share_a_voter [OF s'(1) _ s'(2) t'(1) _ t'(2)]) (simp_all add: threeNodes_def)
  with s' t' show ?thesis by blast
qed

text \<open>
  C24: A stale vote elects. The response handler compares the response's term with that of its
  request, not with the node's current term: a vote granted in an earlier term, in which the
  node asked for it, is recorded for the term the node is in now. If one vote is missing to a
  majority, the late answer of an earlier term completes it, and the next \<^verbatim>\<open>becomeLeader\<close> makes the
  node leader of its present term.
\<close>

theorem stale_vote_elects:
  assumes "node_ok s" "fits (Suc (length (raftLog s)))" "i < length (cluster s)"
    and "votedFor (cluster s ! i) \<noteq> selfId s"
    and "length (voters s) + 1 = majority (length (cluster s))"
    and "Term req < currentTerm s" "Term rsp = Term req" "VoteGranted rsp"
  shows "\<exists>s1 s2. handleVoteResponse i req rsp s = Inr s1 \<and> becomeLeader grow s1 = Inr s2 \<and>
    role s2 = leaderState \<and> currentTerm s2 = currentTerm s"
proof -
  let ?t = "s\<lparr>cluster := (cluster s)[i := (cluster s ! i)\<lparr>votedFor := selfId s\<rparr>]\<rparr>"
  obtain s1 where s1: "handleVoteResponse i req rsp s = Inr s1" "node_ok s1"
    "raftLog s1 = raftLog s" "agree (if currentTerm s < Term rsp then adoptTerm (Term rsp) s
            else if Term rsp = Term req \<and> VoteGranted rsp then ?t else s) s1"
    "currentTerm s1 = max (currentTerm s) (Term rsp)"
    using handleVoteResponse_ok [OF assms(1,3)] by metis
  have nlt: "\<not> currentTerm s < Term rsp" using assms(6,7) by simp
  with s1(4) assms(7,8) have a: "agree ?t s1" by simp
  have t: "currentTerm s1 = currentTerm s" using s1(5) nlt by (simp add: max_def)
  have "voters s1 = voters ?t" using a by (simp add: agree_def voters_def)
  moreover have "length (voters ?t) = length (voters s) + 1"
    using length_filter_update [OF assms(3), of "\<lambda>m. votedFor m = selfId s"] assms(4)
    by (simp add: voters_def)
  moreover have "length (cluster s1) = length (cluster s)" using a by (simp add: agree_def)
  ultimately have "majority (length (cluster s1)) \<le> length (voters s1)"
    using assms(5) by simp
  moreover have "fits (Suc (length (raftLog s1)))" using assms(2) s1(3) by simp
  ultimately obtain s2 where "becomeLeader grow s1 = Inr s2" "role s2 = leaderState"
    "currentTerm s2 = currentTerm s1"
    using becomeLeader_wins [OF s1(2)] by metis
  with s1(1) t show ?thesis by auto
qed

theorem stale_vote_elects_witness:
  "\<exists>s1 s2. handleVoteResponse 1 \<lparr>Term = 2, CandidateId = 1, LastLogIndex = 0, LastLogTerm = 0\<rparr>
      \<lparr>Term = 2, VoteGranted = True\<rparr> (ballot 1 0 [1, 0, 0]) = Inr s1 \<and>
    becomeLeader (\<lambda>_ n. n) s1 = Inr s2 \<and> role s2 = leaderState \<and> currentTerm s2 = 3"
proof -
  let ?s = "ballot 1 0 [1, 0, 0]"
  let ?req = "\<lparr>Term = 2, CandidateId = 1, LastLogIndex = 0, LastLogTerm = 0\<rparr> :: RequestVoteRequest"
  let ?rsp = "\<lparr>Term = 2, VoteGranted = True\<rparr> :: RequestVoteResponse"
  have "node_ok ?s" by (rule ballot_ok) simp_all
  moreover have "fits (Suc (length (raftLog ?s)))" by simp
  moreover have "1 < length (cluster ?s)" "votedFor (cluster ?s ! 1) \<noteq> selfId ?s"
    "length (voters ?s) + 1 = majority (length (cluster ?s))"
    by (simp_all add: threeNodes_def majority_def voters_def)
  moreover have "Term ?req < currentTerm ?s" "Term ?rsp = Term ?req" "VoteGranted ?rsp" by simp_all
  ultimately have "\<exists>s1 s2. handleVoteResponse 1 ?req ?rsp ?s = Inr s1 \<and>
      becomeLeader (\<lambda>_ n. n) s1 = Inr s2 \<and> role s2 = leaderState \<and> currentTerm s2 = currentTerm ?s"
    by (rule stale_vote_elects)
  then show ?thesis by (simp only: ballot_fields)
qed

end
