(* ===== verification/Replication.thy ===== *)
theory Replication
  imports Election
begin

text \<open>
  Log replication (navi/replication.go) and the membership change of a leader
  (\<^verbatim>\<open>AddServer\<close> of navi/membership.go): the client's commands, the append request that a
  leader builds for a member and the response it takes, the append handler, the advance of
  the commit index with the application of one entry, and the heartbeat.
\<close>

section \<open>Messages and errors\<close>

record AppendEntriesRequest = RPCMessage +
  LeaderId :: u64
  PrevLogIndex :: u64
  PrevLogTerm :: u64
  Entries :: "Entry list"
  LeaderCommit :: u64

record AppendEntriesResponse = RPCMessage +
  Success :: bool

datatype raft_error =
    ErrApplyToLeader
  | ErrConfigChangeInProgress
  | ErrInvalidServerId
  | ErrEncode encode_error

abbreviation (input) MAX_APPEND_ENTRIES_BATCH :: nat where
  "MAX_APPEND_ENTRIES_BATCH \<equiv> 8000"

section \<open>Commands of clients\<close>

definition appendLocked ::
  "(nat \<Rightarrow> nat \<Rightarrow> nat) \<Rightarrow> bytes \<Rightarrow> ('sm, 'st) Server \<Rightarrow> (nat \<times> u64) \<times> ('sm, 'st) Server" where
  "appendLocked grow command s =
     (let ch = nextChan s;
          s1 = appendLog grow [\<lparr>Command = command, entryTerm = currentTerm s, result = Some ch\<rparr>]
                 (s\<lparr>nextChan := Suc ch\<rparr>)
      in ((ch, logLast (raftLog s1)), s1))"

fun appendCommands ::
  "(nat \<Rightarrow> nat \<Rightarrow> nat) \<Rightarrow> bytes list \<Rightarrow> ('sm, 'st) Server \<Rightarrow> nat list \<times> ('sm, 'st) Server" where
  "appendCommands grow [] s = ([], s)"
| "appendCommands grow (c # cs) s =
     (let ((ch, _), s1) = appendLocked grow c s; (chs, s2) = appendCommands grow cs s1
      in (ch # chs, s2))"

text \<open>
  \<^verbatim>\<open>appendEntries\<close> starts one goroutine per other member: the list of their indices.
\<close>

definition appendEntries :: "('sm, 'st) Server \<Rightarrow> nat list" where
  "appendEntries s = filter (\<lambda>i. i \<noteq> clusterIndex s) [0..<length (cluster s)]"

text \<open>
  \<^verbatim>\<open>Apply\<close> up to the wait: an error, or the channels to wait on and the goroutines started.
\<close>

definition Apply ::
  "(nat \<Rightarrow> nat \<Rightarrow> nat) \<Rightarrow> bytes list \<Rightarrow> ('sm, 'st) Server
     \<Rightarrow> ('sm, 'st) fault + ((raft_error + (nat list \<times> nat list)) \<times> ('sm, 'st) Server)" where
  "Apply grow commands s =
     (if role s \<noteq> leaderState then Inr (Inl ErrApplyToLeader, s)
      else let (chs, s1) = appendCommands grow commands s
      in chain (persist True (int (length commands)) s1) (\<lambda>s2.
         Inr (Inr (chs, appendEntries s2), s2)))"

text \<open>The wait: the results, in the order of the commands, once all were sent.\<close>

definition awaitResults :: "nat list \<Rightarrow> ('sm, 'st) Server \<Rightarrow> ApplyResult list option" where
  "awaitResults chs s =
     (if \<forall>ch \<in> set chs. map_of (delivered s) ch \<noteq> None
      then Some (map (\<lambda>ch. the (map_of (delivered s) ch)) chs) else None)"

section \<open>The leader's requests\<close>

definition buildAppendEntries ::
  "nat \<Rightarrow> ('sm, 'st) Server \<Rightarrow> ('sm, 'st) fault + (bytes \<times> AppendEntriesRequest)" where
  "buildAppendEntries i s =
     (if length (cluster s) \<le> i then Inl (IndexOutOfRange, s)
      else let next = nextIndex (cluster s ! i); prevLogIndex = next - 1
      in if length (raftLog s) \<le> unat prevLogIndex then Inl (IndexOutOfRange, s)
      else let prevLogTerm = entryTerm (raftLog s ! unat prevLogIndex);
               rest = (if next \<le> logLast (raftLog s) then drop (unat next) (raftLog s) else []);
               entries = (if MAX_APPEND_ENTRIES_BATCH < length rest
                          then take MAX_APPEND_ENTRIES_BATCH rest else rest)
      in if length (cluster s) \<le> clusterIndex s then Inl (IndexOutOfRange, s)
      else Inr (Address (cluster s ! i),
        \<lparr>Term = currentTerm s, LeaderId = memberId (cluster s ! clusterIndex s),
         PrevLogIndex = prevLogIndex, PrevLogTerm = prevLogTerm, Entries = entries,
         LeaderCommit = commitIndex s\<rparr>))"

definition handleAppendResponse ::
  "nat \<Rightarrow> AppendEntriesRequest \<Rightarrow> AppendEntriesResponse \<Rightarrow> ('sm, 'st) Server
     \<Rightarrow> ('sm, 'st) fault + ('sm, 'st) Server" where
  "handleAppendResponse i req rsp s =
     chain (updateTerm rsp s) (\<lambda>(transitioned, s1).
       if transitioned then Inr s1
       else if Term rsp \<noteq> Term req \<and> role s1 = leaderState then Inr s1
       else if length (cluster s1) \<le> i then Inl (IndexOutOfRange, s1)
       else if Success rsp
       then let next = max (PrevLogIndex req + of_nat (length (Entries req)) + 1) 1
            in Inr (s1\<lparr>cluster := (cluster s1)[i :=
                 (cluster s1 ! i)\<lparr>nextIndex := next, matchIndex := next - 1\<rparr>]\<rparr>)
       else Inr (s1\<lparr>cluster := (cluster s1)[i :=
              (cluster s1 ! i)\<lparr>nextIndex := max (nextIndex (cluster s1 ! i) - 1) 1\<rparr>]\<rparr>))"

section \<open>The append handler\<close>

text \<open>
  The loop over the entries of a request; \<open>next\<close> and \<open>n\<close> are fixed (index of the first entry,
  number of entries), \<open>i\<close> is the index at hand, \<open>nNew\<close> counts the appended entries.
\<close>

definition reserveLog :: "u64 \<Rightarrow> u64 \<Rightarrow> ('sm, 'st) Server \<Rightarrow> ('sm, 'st) fault + ('sm, 'st) Server" where
  "reserveLog newTotal i s =
     (if logCap s \<le> unat i
      then if unat (newTotal * 2) < unat i then Inl (SliceOutOfRange, s)
           else Inr (s\<lparr>raftLog := take (unat i) (raftLog s) @
                         replicate (unat i - length (raftLog s)) dummyEntry,
                       logCap := unat (newTotal * 2)\<rparr>)
      else Inr s)"

definition truncateLog :: "u64 \<Rightarrow> Entry \<Rightarrow> u64 \<Rightarrow> ('sm, 'st) Server \<Rightarrow> ('sm, 'st) fault + ('sm, 'st) Server" where
  "truncateLog i e selfVotedFor s =
     (if unat i < length (raftLog s) \<and> entryTerm (raftLog s ! unat i) \<noteq> entryTerm e
      then rebuildClusterFromLog selfVotedFor (s\<lparr>raftLog := take (unat i) (raftLog s)\<rparr>)
      else Inr s)"

definition placeEntry ::
  "(nat \<Rightarrow> nat \<Rightarrow> nat) \<Rightarrow> u64 \<Rightarrow> Entry \<Rightarrow> ('sm, 'st) Server \<Rightarrow> ('sm, 'st) fault + (nat \<times> ('sm, 'st) Server)" where
  "placeEntry grow i e s =
     (if unat i < length (raftLog s)
      then if entryTerm (raftLog s ! unat i) \<noteq> entryTerm e
           then Inl (AssertFailed ''existing log is the same as new log'', s) else Inr (0, s)
      else let s1 = appendLog grow [e] s
           in if (of_nat (length (raftLog s1)) :: u64) \<noteq> i + 1
              then Inl (AssertFailed ''length is directly related to the index'', s1) else Inr (1, s1))"

definition adoptConfig :: "u64 \<Rightarrow> Entry \<Rightarrow> u64 \<Rightarrow> ('sm, 'st) Server \<Rightarrow> ('sm, 'st) fault + ('sm, 'st) Server" where
  "adoptConfig i e selfVotedFor s =
     (if isConfigChangeCommand (Command e)
      then case decodeConfigChange (Command e) of
             Inl p \<Rightarrow> Inl (p, s)
           | Inr incoming \<Rightarrow>
               (let cl = mergeClusterConfig (cluster s) incoming (i + 1) (selfId s) selfVotedFor
                in case resolveClusterIndex cl (selfId s) of
                     Inl p \<Rightarrow> Inl (p, s\<lparr>cluster := cl\<rparr>)
                   | Inr k \<Rightarrow> Inr (s\<lparr>cluster := cl, clusterIndex := k\<rparr>))
      else Inr s)"

fun appendLoop ::
  "(nat \<Rightarrow> nat \<Rightarrow> nat) \<Rightarrow> u64 \<Rightarrow> u64 \<Rightarrow> Entry list \<Rightarrow> u64 \<Rightarrow> nat \<Rightarrow> ('sm, 'st) Server
     \<Rightarrow> ('sm, 'st) fault + (nat \<times> ('sm, 'st) Server)" where
  "appendLoop grow newTotal i [] selfVotedFor nNew s = Inr (nNew, s)"
| "appendLoop grow newTotal i (e0 # es) selfVotedFor nNew s =
     (let e = e0\<lparr>result := None\<rparr>
      in chain (reserveLog newTotal i s) (\<lambda>s1.
         chain (truncateLog i e selfVotedFor s1) (\<lambda>s2.
         chain (placeEntry grow i e s2) (\<lambda>(k, s3).
         chain (adoptConfig i e selfVotedFor s3) (\<lambda>s4.
         appendLoop grow newTotal (i + 1) es selfVotedFor (nNew + k) s4)))))"

definition validPreviousLog :: "AppendEntriesRequest \<Rightarrow> ('sm, 'st) Server \<Rightarrow> bool" where
  "validPreviousLog req s \<longleftrightarrow> PrevLogIndex req = 0 \<or>
     (unat (PrevLogIndex req) < length (raftLog s) \<and>
      entryTerm (raftLog s ! unat (PrevLogIndex req)) = PrevLogTerm req)"

definition HandleAppendEntriesRequest ::
  "(nat \<Rightarrow> nat \<Rightarrow> nat) \<Rightarrow> AppendEntriesRequest \<Rightarrow> ('sm, 'st) Server
     \<Rightarrow> ('sm, 'st) fault + (AppendEntriesResponse \<times> ('sm, 'st) Server)" where
  "HandleAppendEntriesRequest grow req s =
     chain (updateTerm req s) (\<lambda>(_, s1).
       let s2 = (if Term req = currentTerm s1 \<and> role s1 = candidateState
                 then s1\<lparr>role := followerState\<rparr> else s1);
           refuse = \<lparr>Term = currentTerm s2, Success = False\<rparr>
       in if role s2 \<noteq> followerState then Inr (refuse, s2)
          else if Term req < currentTerm s2 then Inr (refuse, s2)
          else chain (resetElectionTimeout s2) (\<lambda>s3.
            let s4 = s3\<lparr>Passive := False\<rparr>
            in if \<not> validPreviousLog req s4 then Inr (refuse, s4)
               else case getVotedFor s4 of
                 Inl p \<Rightarrow> Inl (p, s4)
               | Inr selfVotedFor \<Rightarrow>
                   (let next = PrevLogIndex req + 1
                    in chain (appendLoop grow (next + of_nat (length (Entries req))) next
                                (Entries req) selfVotedFor 0 s4) (\<lambda>(nNew, s5).
                       let s6 = (if commitIndex s5 < LeaderCommit req
                                 then s5\<lparr>commitIndex := min (LeaderCommit req) (logLast (raftLog s5))\<rparr>
                                 else s5)
                       in chain (persist (nNew \<noteq> 0) (int nNew) s6) (\<lambda>s7.
                          Inr (\<lparr>Term = currentTerm s2, Success = True\<rparr>, s7))))))"

section \<open>Commit and application\<close>

text \<open>The inner loop: \<open>quorum\<close> minus the members whose match index reaches \<open>i\<close>, from index \<open>j\<close> on.\<close>

fun countMatches :: "nat \<Rightarrow> u64 \<Rightarrow> nat \<Rightarrow> nat \<Rightarrow> ClusterMember list \<Rightarrow> nat" where
  "countMatches ci i j quorum [] = quorum"
| "countMatches ci i j quorum (m # ms) =
     (if quorum = 0 then quorum
      else countMatches ci i (Suc j) (if i \<le> matchIndex m \<or> j = ci then quorum - 1 else quorum) ms)"

text \<open>The outer loop, from \<open>i\<close> down to the commit index.\<close>

fun scanCommit :: "ClusterMember list \<Rightarrow> nat \<Rightarrow> nat \<Rightarrow> nat \<Rightarrow> nat option" where
  "scanCommit cl ci 0 commit = None"
| "scanCommit cl ci (Suc i) commit =
     (if commit < Suc i
      then if countMatches ci (of_nat (Suc i)) 0 (length cl div 2 + 1) cl = 0 then Some (Suc i)
           else scanCommit cl ci i commit
      else None)"

definition advanceLeaderCommit :: "('sm, 'st) Server \<Rightarrow> ('sm, 'st) Server" where
  "advanceLeaderCommit s =
     (if role s = leaderState
      then case scanCommit (cluster s) (clusterIndex s) (unat (logLast (raftLog s))) (unat (commitIndex s)) of
             None \<Rightarrow> s
           | Some i \<Rightarrow> s\<lparr>commitIndex := of_nat i\<rparr>
      else s)"

definition deliver :: "Entry \<Rightarrow> bytes \<Rightarrow> string option \<Rightarrow> ('sm, 'st) Server \<Rightarrow> ('sm, 'st) Server" where
  "deliver e res err s =
     (case result e of
        None \<Rightarrow> s
      | Some ch \<Rightarrow> s\<lparr>delivered := delivered s @ [(ch, \<lparr>Result = res, Error = err\<rparr>)]\<rparr>)"

definition applyEntry :: "Entry \<Rightarrow> ('sm, 'st) Server \<Rightarrow> ('sm, 'st) fault + ('sm, 'st) Server" where
  "applyEntry e s =
     (if Command e = [] then Inr s
      else if isConfigChangeCommand (Command e)
      then Inr (deliver e [] None
             (if pendingConfigChangeIndex s = lastApplied s then s\<lparr>pendingConfigChangeIndex := 0\<rparr> else s))
      else case sm_Apply (statemachine s) (sm (statemachine s)) (Command e) of
             Inl p \<Rightarrow> Inl (p, s)
           | Inr ((res, err), x) \<Rightarrow>
               Inr (deliver e res err (s\<lparr>statemachine := (statemachine s)\<lparr>sm := x\<rparr>\<rparr>)))"

definition advanceCommitIndex :: "('sm, 'st) Server \<Rightarrow> ('sm, 'st) fault + ('sm, 'st) Server" where
  "advanceCommitIndex s =
     (let s1 = advanceLeaderCommit s
      in if lastApplied s1 \<le> commitIndex s1
         then if length (raftLog s1) \<le> unat (lastApplied s1) then Inl (IndexOutOfRange, s1)
              else chain (applyEntry (raftLog s1 ! unat (lastApplied s1)) s1) (\<lambda>s2.
                Inr (s2\<lparr>lastApplied := lastApplied s2 + 1\<rparr>))
         else Inr s1)"

definition heartbeat :: "('sm, 'st) Server \<Rightarrow> nat list \<times> ('sm, 'st) Server" where
  "heartbeat s =
     (let (now, s1) = Now s
      in if heartbeatTimeout s1 < now
         then let (now', s2) = Now s1;
                  s3 = s2\<lparr>heartbeatTimeout := now' + heartbeatMs s2 * Millisecond\<rparr>
              in (appendEntries s3, s3)
         else ([], s1))"

section \<open>Adding a server\<close>

text \<open>
  \<^verbatim>\<open>AddServer\<close> up to the wait: \<open>None\<close> when the node is a member already, else the channel to
  wait on and the goroutines started.
\<close>

definition AddServer ::
  "(nat \<Rightarrow> nat \<Rightarrow> nat) \<Rightarrow> u64 \<Rightarrow> bytes \<Rightarrow> ('sm, 'st) Server
     \<Rightarrow> ('sm, 'st) fault + ((raft_error + (nat \<times> nat list) option) \<times> ('sm, 'st) Server)" where
  "AddServer grow i address s =
     (if i = 0 then Inr (Inl ErrInvalidServerId, s)
      else if role s \<noteq> leaderState then Inr (Inl ErrApplyToLeader, s)
      else if pendingConfigChangeIndex s \<noteq> 0 then Inr (Inl ErrConfigChangeInProgress, s)
      else if i \<in> set (map memberId (cluster s)) then Inr (Inr None, s)
      else let newMembers = cluster s @ [newMember i address]
      in case encodeConfigChange newMembers of
           Inl err \<Rightarrow> Inr (Inl (ErrEncode err), s)
         | Inr payload \<Rightarrow>
             (let ((ch, newIndex), s1) = appendLocked grow payload s
              in case getVotedFor s1 of
                   Inl p \<Rightarrow> Inl (p, s1)
                 | Inr selfVotedFor \<Rightarrow>
                     (let cl = mergeClusterConfig (cluster s1) newMembers (newIndex + 1) (selfId s1) selfVotedFor
                      in case resolveClusterIndex cl (selfId s1) of
                           Inl p \<Rightarrow> Inl (p, s1\<lparr>cluster := cl\<rparr>)
                         | Inr k \<Rightarrow>
                             chain (persist True 1
                               (s1\<lparr>cluster := cl, clusterIndex := k, pendingConfigChangeIndex := newIndex\<rparr>)) (\<lambda>s2.
                             Inr (Inr (Some (ch, appendEntries s2)), s2)))))"

end
