(* ===== verification/Append_Handler.thy ===== *)
theory Append_Handler
  imports Replication
begin

text \<open>
  The append handler against Raft's rule for a receiver: the loop over the entries, with its
  reallocation, truncation, assertions and configuration changes, computes \<open>mergeLog\<close>, never
  fails on a well-formed node, and what it leaves is on disk when the handler answers.
\<close>

section \<open>The receiver's rule\<close>

text \<open>
  Entries that match in index and term stay; at the first one that does not, the rest of the
  log is replaced by the rest of the request.
\<close>

fun mergeLog :: "Entry list \<Rightarrow> nat \<Rightarrow> Entry list \<Rightarrow> Entry list" where
  "mergeLog es k [] = es"
| "mergeLog es k (r # rs) =
     (if k < length es \<and> entryTerm (es ! k) = entryTerm r then mergeLog es (Suc k) rs
      else take k es @ map eraseResult (r # rs))"

fun newCount :: "Entry list \<Rightarrow> nat \<Rightarrow> Entry list \<Rightarrow> nat" where
  "newCount es k [] = 0"
| "newCount es k (r # rs) =
     (if k < length es \<and> entryTerm (es ! k) = entryTerm r then newCount es (Suc k) rs
      else Suc (length rs))"

text \<open>Does the request conflict with the log?\<close>

fun conflict :: "Entry list \<Rightarrow> nat \<Rightarrow> Entry list \<Rightarrow> bool" where
  "conflict es k [] = False"
| "conflict es k (r # rs) =
     (k < length es \<and> (entryTerm (es ! k) \<noteq> entryTerm r \<or> conflict es (Suc k) rs))"

lemma eraseResult_fields [simp]:
  "entryTerm (eraseResult e) = entryTerm e" "Command (eraseResult e) = Command e"
  "result (eraseResult e) = None" "eraseResult (eraseResult e) = eraseResult e"
  by (simp_all add: eraseResult_def)

lemma eraseResult_id: "result e = None \<Longrightarrow> eraseResult e = e"
  by (simp add: eraseResult_def)

lemma newCount_le: "newCount es k rs \<le> length rs"
  by (induction es k rs rule: newCount.induct) (auto intro: le_SucI)

lemma mergeLog_split:
  assumes "k \<le> length es"
  shows "\<exists>old. old = take (length old) es \<and> k \<le> length old \<and>
    mergeLog es k rs = (if newCount es k rs = 0 then es
      else old @ map eraseResult (drop (length rs - newCount es k rs) rs)) \<and>
    (newCount es k rs \<noteq> 0 \<longrightarrow> length old = k + (length rs - newCount es k rs))"
  using assms
proof (induction es k rs rule: mergeLog.induct)
  case (1 es k)
  then show ?case by (intro exI [of _ es]) simp
next
  case (2 es k r rs)
  show ?case
  proof (cases "k < length es \<and> entryTerm (es ! k) = entryTerm r")
    case True
    with 2 obtain old where "old = take (length old) es" "Suc k \<le> length old"
      "mergeLog es (Suc k) rs = (if newCount es (Suc k) rs = 0 then es
        else old @ map eraseResult (drop (length rs - newCount es (Suc k) rs) rs))"
      "newCount es (Suc k) rs \<noteq> 0 \<longrightarrow> length old = Suc k + (length rs - newCount es (Suc k) rs)"
      by auto
    with True newCount_le [of es "Suc k" rs] show ?thesis
      by (intro exI [of _ old]) (auto simp: Suc_diff_le)
  next
    case False
    with "2.prems" show ?thesis by (intro exI [of _ "take k es"]) (auto simp: min_def)
  qed
qed

lemma mergeLog_take: "k \<le> length es \<Longrightarrow> take k (mergeLog es k rs) = take k es"
proof (induction es k rs rule: mergeLog.induct)
  case (2 es k r rs)
  then show ?case
    by (auto simp: min_def) (metis Suc_leI nat_le_linear not_less_eq_eq take_all_iff take_take min.absorb1)
qed simp

lemma mergeLog_length: "k \<le> length es \<Longrightarrow> k + length rs \<le> length (mergeLog es k rs)"
  by (induction es k rs rule: mergeLog.induct) auto

lemma mergeLog_terms:
  "k \<le> length es \<Longrightarrow> j < length rs \<Longrightarrow> entryTerm (mergeLog es k rs ! (k + j)) = entryTerm (rs ! j)"
proof (induction es k rs arbitrary: j rule: mergeLog.induct)
  case (2 es k r rs)
  show ?case
  proof (cases "k < length es \<and> entryTerm (es ! k) = entryTerm r")
    case True
    show ?thesis
    proof (cases j)
      case 0
      have "take (Suc k) (mergeLog es (Suc k) rs) = take (Suc k) es"
        using True by (intro mergeLog_take) simp
      then have "mergeLog es (Suc k) rs ! k = es ! k"
        by (metis lessI nth_take)
      with True 0 show ?thesis by simp
    next
      case (Suc l)
      with True 2 have "entryTerm (mergeLog es (Suc k) rs ! (Suc k + l)) = entryTerm (rs ! l)"
        by (intro "2.IH") auto
      with True Suc show ?thesis by simp
    qed
  next
    case False
    with "2.prems" show ?thesis by (auto simp: nth_append min_def nth_Cons split: nat.splits)
  qed
qed simp

lemma mergeLog_no_conflict:
  "\<not> conflict es k rs \<Longrightarrow> k \<le> length es \<Longrightarrow> \<exists>ys. mergeLog es k rs = es @ ys"
  by (induction es k rs rule: mergeLog.induct) auto

lemma conflict_no_extension:
  "conflict es k rs \<Longrightarrow> mergeLog es k rs \<noteq> es @ ys"
proof (induction es k rs rule: mergeLog.induct)
  case (2 es k r rs)
  show ?case
  proof (cases "k < length es \<and> entryTerm (es ! k) = entryTerm r")
    case True
    with 2 show ?thesis by simp
  next
    case False
    with "2.prems" have k: "k < length es" "entryTerm (es ! k) \<noteq> entryTerm r" by auto
    then have "(take k es @ map eraseResult (r # rs)) ! k = eraseResult r" "(es @ ys) ! k = es ! k"
      by (simp_all add: nth_append)
    with k(2) have "(take k es @ map eraseResult (r # rs)) ! k \<noteq> (es @ ys) ! k"
      by (metis eraseResult_fields(1))
    then have "take k es @ map eraseResult (r # rs) \<noteq> es @ ys" by metis
    then show ?thesis unfolding mergeLog.simps if_not_P [OF False] .
  qed
qed simp

lemma mergeLog_set: "set (mergeLog es k rs) \<subseteq> set es \<union> set (map eraseResult rs)"
  by (induction es k rs rule: mergeLog.induct) (auto dest: in_set_takeD)

section \<open>One entry of the loop\<close>

text \<open>The part of the node's invariant that the loop needs and keeps.\<close>

definition loop_ok :: "('sm, 'st) Server \<Rightarrow> bool" where
  "loop_ok s \<longleftrightarrow> length (raftLog s) \<le> logCap s \<and> selfId s \<in> ids (baseCluster s) \<and>
     resolveClusterIndex (cluster s) (selfId s) = Inr (clusterIndex s) \<and>
     (\<forall>e \<in> set (raftLog s). wf_command (Command e))"

text \<open>The loop writes the log slice and the cluster only.\<close>

definition loop_frame :: "('sm, 'st) Server \<Rightarrow> ('sm, 'st) Server \<Rightarrow> bool" where
  "loop_frame s s' \<longleftrightarrow>
     s' = s\<lparr>raftLog := raftLog s', logCap := logCap s', cluster := cluster s', clusterIndex := clusterIndex s'\<rparr>"

lemma loop_frame_refl [simp]: "loop_frame s s"
  by (simp add: loop_frame_def)

lemma loop_frame_fields:
  assumes "loop_frame s s'"
  shows "currentTerm s' = currentTerm s" "selfId s' = selfId s" "baseCluster s' = baseCluster s"
    "storage s' = storage s" "role s' = role s" "commitIndex s' = commitIndex s"
    "lastApplied s' = lastApplied s" "heartbeatMs s' = heartbeatMs s" "Passive s' = Passive s"
    "statemachine s' = statemachine s" "delivered s' = delivered s" "nextChan s' = nextChan s"
    "pendingConfigChangeIndex s' = pendingConfigChangeIndex s" "electionTimeout s' = electionTimeout s"
    "clock s' = clock s"
proof -
  obtain es c cl k where "s' = s\<lparr>raftLog := es, logCap := c, cluster := cl, clusterIndex := k\<rparr>"
    using assms unfolding loop_frame_def by blast
  then show "currentTerm s' = currentTerm s" "selfId s' = selfId s" "baseCluster s' = baseCluster s"
    "storage s' = storage s" "role s' = role s" "commitIndex s' = commitIndex s"
    "lastApplied s' = lastApplied s" "heartbeatMs s' = heartbeatMs s" "Passive s' = Passive s"
    "statemachine s' = statemachine s" "delivered s' = delivered s" "nextChan s' = nextChan s"
    "pendingConfigChangeIndex s' = pendingConfigChangeIndex s" "electionTimeout s' = electionTimeout s"
    "clock s' = clock s"
    by simp_all
qed

lemma loop_frame_trans:
  assumes "loop_frame s s'" "loop_frame s' s''"
  shows "loop_frame s s''"
proof -
  have "s'' = s'\<lparr>raftLog := raftLog s'', logCap := logCap s'', cluster := cluster s'', clusterIndex := clusterIndex s''\<rparr>"
    using assms(2) by (simp add: loop_frame_def)
  also have "\<dots> = s\<lparr>raftLog := raftLog s'', logCap := logCap s'', cluster := cluster s'', clusterIndex := clusterIndex s''\<rparr>"
    by (subst assms(1) [unfolded loop_frame_def]) simp
  finally show ?thesis by (simp add: loop_frame_def)
qed

lemma reserveLog_ok:
  assumes "length (raftLog s) \<le> logCap s" "k \<le> length (raftLog s)" "k < T" "fits T"
  obtains c where "reserveLog (of_nat T) (of_nat k) s = Inr (s\<lparr>logCap := c\<rparr>)"
    "length (raftLog s) \<le> c" "k < c"
proof (cases "logCap s \<le> k")
  case True
  with assms have "length (raftLog s) = k" "logCap s = k" by auto
  moreover have "unat (of_nat T * 2 :: u64) = T * 2"
    using assms(4) unat_of_nat_64 [of "T * 2"] by (simp add: fits_def)
  moreover have "unat (of_nat k :: u64) = k"
    using assms(3,4) by (intro small_unat) (auto simp: fits_def small_def)
  ultimately show thesis using assms(3) that [of "T * 2"] by (simp add: reserveLog_def)
next
  case False
  moreover have "unat (of_nat k :: u64) = k"
    using assms(3,4) by (intro small_unat) (auto simp: fits_def small_def)
  ultimately show thesis using assms that [of "logCap s"] by (simp add: reserveLog_def)
qed

lemma truncateLog_ok:
  assumes "loop_ok s" "unat i = k" "k < length (raftLog s)" "entryTerm (raftLog s ! k) \<noteq> entryTerm e"
  obtains s' where "truncateLog i e v s = Inr s'" "loop_frame s s'" "loop_ok s'"
    "raftLog s' = take k (raftLog s)" "logCap s' = logCap s"
    "ids (cluster s') = ids (baseCluster s) \<union> logIds (take k (raftLog s))"
    "\<exists>ms. cluster s' = baseCluster s @ ms"
proof -
  let ?es = "take k (raftLog s)"
  have wf: "\<forall>x \<in> set ?es. wf_command (Command x)"
    using assms(1) by (auto simp: loop_ok_def dest: in_set_takeD)
  obtain cl where cl: "rebuildLoop 0 ?es (baseCluster s) (selfId s) v = Inr cl"
    using rebuildLoop_total [OF wf] by blast
  have ids: "ids cl = ids (baseCluster s) \<union> logIds ?es" by (rule rebuildLoop_ids [OF cl])
  moreover have "selfId s \<in> ids (baseCluster s)" using assms(1) by (simp add: loop_ok_def)
  ultimately obtain j where j: "resolveClusterIndex cl (selfId s) = Inr j"
    using resolve_total by blast
  let ?s' = "s\<lparr>raftLog := ?es, cluster := cl, clusterIndex := j\<rparr>"
  have "truncateLog i e v s = Inr ?s'"
    using assms(2-4) cl j by (simp add: truncateLog_def rebuildClusterFromLog_def)
  moreover have "loop_ok ?s'" using assms(1) j wf by (auto simp: loop_ok_def)
  ultimately show thesis using ids rebuildLoop_prefix [OF cl] that [of ?s'] by (simp add: loop_frame_def)
qed

lemma adoptConfig_ok:
  assumes "loop_ok s" "wf_command (Command e)"
  obtains s' ms where "adoptConfig i e v s = Inr s'" "loop_frame s s'" "loop_ok s'"
    "raftLog s' = raftLog s" "logCap s' = logCap s" "cluster s' = cluster s @ ms"
    "clusterIndex s' = clusterIndex s" "ids (cluster s') = ids (cluster s) \<union> commandIds (Command e)"
proof (cases "isConfigChangeCommand (Command e)")
  case False
  with assms(1) that [of s "[]"] show thesis by (simp add: adoptConfig_def commandIds_def)
next
  case True
  then obtain inc where inc: "decodeConfigChange (Command e) = Inr inc"
    using assms(2) by (auto simp: wf_command_def)
  let ?cl = "mergeClusterConfig (cluster s) inc (i + 1) (selfId s) v"
  have r: "resolveClusterIndex ?cl (selfId s) = Inr (clusterIndex s)"
    using assms(1) by (intro resolve_merge) (simp add: loop_ok_def)
  let ?s' = "s\<lparr>cluster := ?cl\<rparr>"
  have "adoptConfig i e v s = Inr (?s'\<lparr>clusterIndex := clusterIndex s\<rparr>)"
    using True inc r by (simp add: adoptConfig_def)
  moreover have "?s'\<lparr>clusterIndex := clusterIndex s\<rparr> = ?s'" by simp
  moreover have "ids ?cl = ids (cluster s) \<union> commandIds (Command e)"
    using True inc by (simp add: commandIds_def)
  moreover obtain ms where "?cl = cluster s @ ms" by (simp add: merge_eq)
  moreover have "loop_ok ?s'" using assms(1) r by (simp add: loop_ok_def)
  ultimately show thesis using that [of ?s' ms] by (simp add: loop_frame_def)
qed

definition oneEntry ::
  "(nat \<Rightarrow> nat \<Rightarrow> nat) \<Rightarrow> u64 \<Rightarrow> u64 \<Rightarrow> Entry \<Rightarrow> u64 \<Rightarrow> ('sm, 'st) Server
     \<Rightarrow> ('sm, 'st) fault + (nat \<times> ('sm, 'st) Server)" where
  "oneEntry grow newTotal i e v s =
     chain (reserveLog newTotal i s) (\<lambda>s1.
     chain (truncateLog i e v s1) (\<lambda>s2.
     chain (placeEntry grow i e s2) (\<lambda>(k, s3).
     chain (adoptConfig i e v s3) (\<lambda>s4. Inr (k, s4)))))"

lemma appendLoop_Cons:
  assumes "oneEntry grow newTotal i (eraseResult e0) v s = Inr (k, s')"
  shows "appendLoop grow newTotal i (e0 # es) v n s = appendLoop grow newTotal (i + 1) es v (n + k) s'"
  using assms unfolding oneEntry_def eraseResult_def
  by (auto simp: chain_Inr_iff Let_def)

text \<open>
  One iteration: the entry at \<open>k\<close> is kept, or everything from \<open>k\<close> on is replaced by it. The
  members of the cluster only grow, unless the log is truncated.
\<close>

lemma oneEntry_ok:
  assumes ok: "loop_ok s" and k: "k \<le> length (raftLog s)" "k < T" "fits T"
    and wf: "wf_command (Command e)"
    and keep: "keep = (k < length (raftLog s) \<and> entryTerm (raftLog s ! k) = entryTerm e)"
  obtains s' where "oneEntry grow (of_nat T) (of_nat k) e v s = Inr (if keep then 0 else 1, s')"
    "loop_frame s s'" "loop_ok s'"
    "raftLog s' = (if keep then raftLog s else take k (raftLog s) @ [e])"
    "ids (cluster s') = (if keep \<or> k = length (raftLog s) then ids (cluster s)
        else ids (baseCluster s) \<union> logIds (take k (raftLog s))) \<union> commandIds (Command e)"
    "keep \<or> k = length (raftLog s) \<longrightarrow>
       (\<exists>ms. cluster s' = cluster s @ ms) \<and> clusterIndex s' = clusterIndex s"
    "\<not> keep \<and> k \<noteq> length (raftLog s) \<longrightarrow> (\<exists>ms. cluster s' = baseCluster s @ ms)"
proof -
  have uk: "unat (of_nat k :: u64) = k"
    using k by (intro small_unat) (auto simp: fits_def small_def)
  have k1: "(of_nat (Suc k) :: u64) = of_nat k + 1" by simp
  obtain c where c: "reserveLog (of_nat T) (of_nat k) s = Inr (s\<lparr>logCap := c\<rparr>)"
    "length (raftLog s) \<le> c" "k < c"
    by (rule reserveLog_ok [OF _ k]) (use ok in \<open>auto simp: loop_ok_def\<close>)
  let ?s1 = "s\<lparr>logCap := c\<rparr>"
  have f1: "loop_frame s ?s1" by (simp add: loop_frame_def)
  have ok1: "loop_ok ?s1" using ok c(2) by (simp add: loop_ok_def)
  show thesis
  proof (cases keep)
    case True
    have "truncateLog (of_nat k) e v ?s1 = Inr ?s1"
      "placeEntry grow (of_nat k) e ?s1 = Inr (0, ?s1)"
      using True keep uk by (auto simp: truncateLog_def placeEntry_def)
    moreover obtain s' ms where "adoptConfig (of_nat k) e v ?s1 = Inr s'" "loop_frame ?s1 s'" "loop_ok s'"
      "raftLog s' = raftLog ?s1" "cluster s' = cluster ?s1 @ ms" "clusterIndex s' = clusterIndex ?s1"
      "ids (cluster s') = ids (cluster ?s1) \<union> commandIds (Command e)"
      by (rule adoptConfig_ok [OF ok1 wf])
    ultimately show thesis
      using True c(1) loop_frame_trans [OF f1] that [of s'] by (auto simp: oneEntry_def)
  next
    case False
    obtain s2 where s2: "truncateLog (of_nat k) e v ?s1 = Inr s2" "loop_frame ?s1 s2" "loop_ok s2"
      "raftLog s2 = take k (raftLog s)" "logCap s2 = c"
      "ids (cluster s2) = (if k = length (raftLog s) then ids (cluster s)
         else ids (baseCluster s) \<union> logIds (take k (raftLog s)))"
      "k = length (raftLog s) \<longrightarrow> cluster s2 = cluster s \<and> clusterIndex s2 = clusterIndex s"
      "k \<noteq> length (raftLog s) \<longrightarrow> (\<exists>ms. cluster s2 = baseCluster s @ ms)"
    proof (cases "k = length (raftLog s)")
      case True
      then show thesis using ok1 uk by (intro that [of ?s1]) (auto simp: truncateLog_def)
    next
      case F: False
      with False keep k have "k < length (raftLog ?s1)" "entryTerm (raftLog ?s1 ! k) \<noteq> entryTerm e"
        by auto
      then obtain s2 where "truncateLog (of_nat k) e v ?s1 = Inr s2" "loop_frame ?s1 s2" "loop_ok s2"
        "raftLog s2 = take k (raftLog ?s1)" "logCap s2 = logCap ?s1"
        "ids (cluster s2) = ids (baseCluster ?s1) \<union> logIds (take k (raftLog ?s1))"
        "\<exists>ms. cluster s2 = baseCluster ?s1 @ ms"
        by (rule truncateLog_ok [OF ok1 uk])
      with F show thesis by (intro that [of s2]) auto
    qed
    let ?s3 = "appendLog grow [e] s2"
    have place: "placeEntry grow (of_nat k) e s2 = Inr (1, ?s3)"
      using s2(4) k uk k1 by (simp add: placeEntry_def appendLog_def)
    have f3: "loop_frame s2 ?s3" by (simp add: loop_frame_def appendLog_def)
    have ok3: "loop_ok ?s3"
      using s2(3,4,5) k(1) c(3) wf by (auto simp: loop_ok_def appendLog_def appendCap_def)
    obtain s' ms where s': "adoptConfig (of_nat k) e v ?s3 = Inr s'" "loop_frame ?s3 s'" "loop_ok s'"
      "raftLog s' = raftLog ?s3" "cluster s' = cluster ?s3 @ ms" "clusterIndex s' = clusterIndex ?s3"
      "ids (cluster s') = ids (cluster ?s3) \<union> commandIds (Command e)"
      by (rule adoptConfig_ok [OF ok3 wf])
    have "loop_frame s s'"
      using f1 s2(2) f3 s'(2) by (blast intro: loop_frame_trans)
    moreover have "oneEntry grow (of_nat T) (of_nat k) e v s = Inr (1, s')"
      using c(1) s2(1) place s'(1) by (simp add: oneEntry_def)
    moreover have "ids (cluster s') = (if keep \<or> k = length (raftLog s) then ids (cluster s)
        else ids (baseCluster s) \<union> logIds (take k (raftLog s))) \<union> commandIds (Command e)"
      using False s2(6) s'(7) by (simp add: appendLog_def)
    moreover have "keep \<or> k = length (raftLog s) \<longrightarrow>
        (\<exists>ms. cluster s' = cluster s @ ms) \<and> clusterIndex s' = clusterIndex s"
      using False s2(7) s'(5,6) by (simp add: appendLog_def)
    moreover have "\<not> keep \<and> k \<noteq> length (raftLog s) \<longrightarrow> (\<exists>ms. cluster s' = baseCluster s @ ms)"
      using s2(8) s'(5) by (auto simp: appendLog_def)
    moreover have "raftLog s' = take k (raftLog s) @ [e]"
      using s2(4) s'(4) by (simp add: appendLog_def)
    ultimately show thesis
      using False s'(3) by (intro that [of s']) simp_all
  qed
qed

section \<open>The whole loop\<close>

text \<open>Entries that match in index and term carry the same command (log matching).\<close>

fun sameCommands :: "Entry list \<Rightarrow> nat \<Rightarrow> Entry list \<Rightarrow> bool" where
  "sameCommands es k [] = True"
| "sameCommands es k (r # rs) =
     (k < length es \<and> entryTerm (es ! k) = entryTerm r \<longrightarrow>
        Command (es ! k) = Command r \<and> sameCommands es (Suc k) rs)"

lemma mergeLog_step:
  "k \<le> length es \<Longrightarrow> \<not> (k < length es \<and> entryTerm (es ! k) = entryTerm r) \<Longrightarrow>
     mergeLog (take k es @ [eraseResult r]) (Suc k) rs = mergeLog es k (r # rs) \<and>
     Suc (newCount (take k es @ [eraseResult r]) (Suc k) rs) = newCount es k (r # rs) \<and>
     \<not> conflict (take k es @ [eraseResult r]) (Suc k) rs \<and>
     sameCommands (take k es @ [eraseResult r]) (Suc k) rs"
  by (cases rs) auto

text \<open>What the loop makes of a state, from index \<open>k\<close> and the entries \<open>rs\<close> on.\<close>

definition looped :: "('sm, 'st) Server \<Rightarrow> nat \<Rightarrow> Entry list \<Rightarrow> ('sm, 'st) Server \<Rightarrow> bool" where
  "looped s k rs t \<longleftrightarrow> loop_frame s t \<and> loop_ok t \<and> raftLog t = mergeLog (raftLog s) k rs \<and>
    (\<not> conflict (raftLog s) k rs \<longrightarrow> (\<exists>ms. cluster t = cluster s @ ms) \<and> clusterIndex t = clusterIndex s) \<and>
    (conflict (raftLog s) k rs \<longrightarrow> (\<exists>ms. cluster t = baseCluster s @ ms)) \<and>
    (ids (cluster s) = ids (baseCluster s) \<union> logIds (raftLog s) \<and> sameCommands (raftLog s) k rs \<longrightarrow>
       ids (cluster t) = ids (baseCluster s) \<union> logIds (raftLog t))"

lemma loopedD:
  assumes "looped s k rs t"
  shows "loop_frame s t" "loop_ok t" "raftLog t = mergeLog (raftLog s) k rs"
    "\<not> conflict (raftLog s) k rs \<Longrightarrow> (\<exists>ms. cluster t = cluster s @ ms) \<and> clusterIndex t = clusterIndex s"
    "conflict (raftLog s) k rs \<Longrightarrow> \<exists>ms. cluster t = baseCluster s @ ms"
    "ids (cluster s) = ids (baseCluster s) \<union> logIds (raftLog s) \<Longrightarrow> sameCommands (raftLog s) k rs \<Longrightarrow>
       ids (cluster t) = ids (baseCluster s) \<union> logIds (raftLog t)"
  using assms unfolding looped_def by blast+

text \<open>An entry that is there already, and one that is not.\<close>

lemma looped_keep:
  assumes "loop_frame s s1" "raftLog s1 = raftLog s" "ids (cluster s1) = ids (cluster s) \<union> commandIds (Command r)"
    "(\<exists>ms. cluster s1 = cluster s @ ms) \<and> clusterIndex s1 = clusterIndex s"
    "k < length (raftLog s)" "entryTerm (raftLog s ! k) = entryTerm r" "looped s1 (Suc k) rs t"
  shows "looped s k (r # rs) t"
proof -
  let ?es = "raftLog s"
  note l = loopedD [OF assms(7), unfolded assms(2)] and base = loop_frame_fields(3) [OF assms(1)]
  have m: "mergeLog ?es k (r # rs) = mergeLog ?es (Suc k) rs" "conflict ?es k (r # rs) = conflict ?es (Suc k) rs"
    "sameCommands ?es k (r # rs) \<Longrightarrow> Command (?es ! k) = Command r \<and> sameCommands ?es (Suc k) rs"
    using assms(5,6) by auto
  have "ids (cluster t) = ids (baseCluster s) \<union> logIds (raftLog t)"
    if a: "ids (cluster s) = ids (baseCluster s) \<union> logIds ?es" "sameCommands ?es k (r # rs)"
  proof -
    have "?es ! k \<in> set ?es" using assms(5) by simp
    then have "commandIds (Command r) \<subseteq> logIds ?es" using m(3) [OF a(2)] unfolding logIds_def by (metis UN_upper)
    then have "ids (cluster s1) = ids (baseCluster s1) \<union> logIds ?es"
      using a(1) unfolding assms(3) base by blast
    from l(6) [OF this] m(3) [OF a(2)] show ?thesis by (simp add: base)
  qed
  moreover have "loop_frame s t" using assms(1) l(1) by (rule loop_frame_trans)
  ultimately show ?thesis unfolding looped_def m(1,2)
    using l(2-5) assms(4) base by auto
qed

lemma looped_place:
  assumes "loop_frame s s1" "raftLog s1 = take k (raftLog s) @ [eraseResult r]" "k \<le> length (raftLog s)"
    "ids (cluster s1) = (if k = length (raftLog s) then ids (cluster s)
       else ids (baseCluster s) \<union> logIds (take k (raftLog s))) \<union> commandIds (Command r)"
    "k = length (raftLog s) \<longrightarrow> (\<exists>ms. cluster s1 = cluster s @ ms) \<and> clusterIndex s1 = clusterIndex s"
    "k \<noteq> length (raftLog s) \<longrightarrow> (\<exists>ms. cluster s1 = baseCluster s @ ms)"
    "\<not> (k < length (raftLog s) \<and> entryTerm (raftLog s ! k) = entryTerm r)" "looped s1 (Suc k) rs t"
  shows "looped s k (r # rs) t"
proof -
  let ?es = "raftLog s"
  note l = loopedD [OF assms(8)] and base = loop_frame_fields(3) [OF assms(1)]
    and m = mergeLog_step [OF assms(3,7), of rs]
  have c: "conflict ?es k (r # rs) = (k \<noteq> length ?es)" using assms(3,7) by auto
  have nc: "\<not> conflict (raftLog s1) (Suc k) rs" using m assms(2) by auto
  have "ids (cluster t) = ids (baseCluster s) \<union> logIds (raftLog t)"
    if a: "ids (cluster s) = ids (baseCluster s) \<union> logIds ?es"
  proof -
    have "logIds (raftLog s1) = logIds (take k ?es) \<union> commandIds (Command r)" by (simp add: assms(2))
    moreover have "ids (cluster s1) = ids (baseCluster s) \<union> logIds (take k ?es) \<union> commandIds (Command r)"
      using assms(4) a by (cases "k = length ?es") auto
    ultimately have "ids (cluster s1) = ids (baseCluster s1) \<union> logIds (raftLog s1)" unfolding base by blast
    moreover have "sameCommands (raftLog s1) (Suc k) rs" unfolding assms(2) using m by blast
    ultimately show ?thesis using l(6) by (simp add: base)
  qed
  moreover have "loop_frame s t" using assms(1) l(1) by (rule loop_frame_trans)
  moreover have "raftLog t = mergeLog ?es k (r # rs)" using l(3) assms(2) m by simp
  moreover obtain ms where ms: "cluster t = cluster s1 @ ms" "clusterIndex t = clusterIndex s1" using l(4) [OF nc] by blast
  moreover have "k \<noteq> length ?es \<longrightarrow> (\<exists>ms. cluster t = baseCluster s @ ms)"
    using assms(6) ms(1) by (metis append_assoc)
  moreover have "k = length ?es \<longrightarrow> (\<exists>ms. cluster t = cluster s @ ms) \<and> clusterIndex t = clusterIndex s"
    using assms(5) ms by (metis append_assoc)
  ultimately show ?thesis unfolding looped_def c using l(2) by blast
qed

lemma appendLoop_ok:
  assumes "loop_ok s" "k \<le> length (raftLog s)" "k + length rs \<le> T" "fits T"
    "\<forall>r \<in> set rs. wf_command (Command r)"
  shows "\<exists>t. appendLoop grow (of_nat T) (of_nat k) rs v n s = Inr (n + newCount (raftLog s) k rs, t) \<and> looped s k rs t"
  using assms
proof (induction rs arbitrary: s k n)
  case Nil
  then show ?case by (auto simp: looped_def intro!: exI [of _ s])
next
  case (Cons r rs)
  let ?e = "eraseResult r" and ?es = "raftLog s"
  define keep where "keep = (k < length ?es \<and> entryTerm (?es ! k) = entryTerm ?e)"
  have T: "k < T" and wf: "wf_command (Command ?e)" using Cons.prems by auto
  obtain s1 where s1: "oneEntry grow (of_nat T) (of_nat k) ?e v s = Inr (if keep then 0 else 1, s1)"
    "loop_frame s s1" "loop_ok s1" "raftLog s1 = (if keep then ?es else take k ?es @ [?e])"
    "ids (cluster s1) = (if keep \<or> k = length ?es then ids (cluster s)
       else ids (baseCluster s) \<union> logIds (take k ?es)) \<union> commandIds (Command ?e)"
    "keep \<or> k = length ?es \<longrightarrow>
       (\<exists>ms. cluster s1 = cluster s @ ms) \<and> clusterIndex s1 = clusterIndex s"
    "\<not> keep \<and> k \<noteq> length ?es \<longrightarrow> (\<exists>ms. cluster s1 = baseCluster s @ ms)"
    using Cons.prems(1,2) T Cons.prems(4) wf keep_def by (rule oneEntry_ok)
  have k1: "(of_nat k :: u64) + 1 = of_nat (Suc k)" by simp
  have loop: "appendLoop grow (of_nat T) (of_nat k) (r # rs) v n s
      = appendLoop grow (of_nat T) (of_nat (Suc k)) rs v (n + (if keep then 0 else 1)) s1"
    by (simp only: appendLoop_Cons [OF s1(1)] k1)
  have "Suc k \<le> length (raftLog s1)" using s1(4) Cons.prems(2) by (auto simp: keep_def)
  moreover have "Suc k + length rs \<le> T" "\<forall>r \<in> set rs. wf_command (Command r)"
    using Cons.prems by auto
  ultimately obtain t where t: "appendLoop grow (of_nat T) (of_nat (Suc k)) rs v (n + (if keep then 0 else 1)) s1
      = Inr (n + (if keep then 0 else 1) + newCount (raftLog s1) (Suc k) rs, t)" "looped s1 (Suc k) rs t"
    using Cons.IH [OF s1(3) _ _ Cons.prems(4)] by blast
  show ?case
  proof (cases keep)
    case True
    then have "looped s k (r # rs) t"
      using s1(4-6) by (intro looped_keep [OF s1(2) _ _ _ _ _ t(2)]) (simp_all add: keep_def)
    with True s1(4) loop t(1) show ?thesis by (auto simp: keep_def)
  next
    case False
    then have nk: "\<not> (k < length ?es \<and> entryTerm (?es ! k) = entryTerm r)" by (simp add: keep_def)
    have "looped s k (r # rs) t"
      using False s1(4-7) by (intro looped_place [OF s1(2) _ Cons.prems(2) _ _ _ nk t(2)]) simp_all
    with False s1(4) loop t(1) mergeLog_step [OF Cons.prems(2) nk, of rs] show ?thesis by auto
  qed
qed

section \<open>The handler\<close>

definition node_inv :: "('sm, MemStorage) Server \<Rightarrow> bool" where
  "node_inv s \<longleftrightarrow> node_ok s \<and> loop_ok s"

text \<open>A request whose entries can be persisted and decoded.\<close>

definition wf_request :: "AppendEntriesRequest \<Rightarrow> bool" where
  "wf_request req \<longleftrightarrow> (\<forall>e \<in> set (Entries req). entry_ok e \<and> wf_command (Command e)) \<and>
     fits (Suc (unat (PrevLogIndex req)) + length (Entries req))"

text \<open>
  The receiver's rule for the previous index: at index 0, the dummy entry, all logs agree;
  elsewhere the log holds an entry there, of the term that the request names.
\<close>

definition agreesBefore :: "AppendEntriesRequest \<Rightarrow> Entry list \<Rightarrow> bool" where
  "agreesBefore req es \<longleftrightarrow> (case unat (PrevLogIndex req) of
       0 \<Rightarrow> True
     | Suc k \<Rightarrow> map entryTerm (take 1 (drop (Suc k) es)) = [PrevLogTerm req])"

definition accepts :: "AppendEntriesRequest \<Rightarrow> ('sm, 'st) Server \<Rightarrow> bool" where
  "accepts req s \<longleftrightarrow> agreesBefore req (raftLog s) \<and>
     (currentTerm s < Term req \<or>
      currentTerm s = Term req \<and> (role s = followerState \<or> role s = candidateState))"

lemma validPreviousLog_agrees: "validPreviousLog req s = agreesBefore req (raftLog s)"
proof (cases "unat (PrevLogIndex req)")
  case 0
  then show ?thesis by (simp add: validPreviousLog_def agreesBefore_def unat_eq_0)
next
  case (Suc k)
  then have "PrevLogIndex req \<noteq> 0" by auto
  moreover have "(map entryTerm (take 1 (drop (Suc k) (raftLog s))) = [PrevLogTerm req])
      = (Suc k < length (raftLog s) \<and> entryTerm (raftLog s ! Suc k) = PrevLogTerm req)"
    by (cases "drop (Suc k) (raftLog s)") (auto simp: nth_via_drop dest: arg_cong [of _ _ length])
  ultimately show ?thesis using Suc by (simp add: validPreviousLog_def agreesBefore_def)
qed

lemma accepts_iff:
  "accepts req s \<longleftrightarrow> validPreviousLog req s \<and>
     (currentTerm s < Term req \<or>
      currentTerm s = Term req \<and> (role s = followerState \<or> role s = candidateState))"
  by (simp add: accepts_def validPreviousLog_agrees)

definition mergedLog :: "AppendEntriesRequest \<Rightarrow> ('sm, 'st) Server \<Rightarrow> Entry list" where
  "mergedLog req s = mergeLog (raftLog s) (Suc (unat (PrevLogIndex req))) (Entries req)"

definition conflicts :: "AppendEntriesRequest \<Rightarrow> ('sm, 'st) Server \<Rightarrow> bool" where
  "conflicts req s = conflict (raftLog s) (Suc (unat (PrevLogIndex req))) (Entries req)"

text \<open>
  A node can take more than that: what it only compares with its log may have any size. Only the
  entries that are new to it go to its storage.
\<close>

definition newEntries :: "AppendEntriesRequest \<Rightarrow> ('sm, 'st) Server \<Rightarrow> Entry list" where
  "newEntries req s = drop (length (Entries req)
     - newCount (raftLog s) (Suc (unat (PrevLogIndex req))) (Entries req)) (Entries req)"

definition takeable :: "AppendEntriesRequest \<Rightarrow> ('sm, 'st) Server \<Rightarrow> bool" where
  "takeable req s \<longleftrightarrow> (\<forall>e \<in> set (Entries req). wf_command (Command e)) \<and>
     (\<forall>e \<in> set (newEntries req s). entry_ok e) \<and>
     fits (Suc (unat (PrevLogIndex req)) + length (Entries req))"

lemma wf_takeable: "wf_request req \<Longrightarrow> takeable req s"
  by (auto simp: wf_request_def takeable_def newEntries_def dest: in_set_dropD)

lemma takeable_cong: "raftLog s' = raftLog s \<Longrightarrow> takeable req s' = takeable req s"
  by (simp add: takeable_def newEntries_def)

lemma durable_cong:
  "storage s' = storage s \<Longrightarrow> raftLog s' = raftLog s \<Longrightarrow> currentTerm s' = currentTerm s \<Longrightarrow>
     cluster s' = cluster s \<Longrightarrow> clusterIndex s' = clusterIndex s \<Longrightarrow> durable s' = durable s"
  by (simp add: durable_def getVotedFor_def)

lemma mergeLog_length_le:
  "k \<le> length es \<Longrightarrow> length (mergeLog es k rs) \<le> max (length es) (k + length rs)"
  by (induction es k rs rule: mergeLog.induct) (auto simp: max_def)

lemma mergeLog_nonempty: "es \<noteq> [] \<Longrightarrow> k \<noteq> 0 \<Longrightarrow> mergeLog es k rs \<noteq> []"
  by (induction es k rs rule: mergeLog.induct) auto

text \<open>The tail of the handler: what was merged is persisted before the answer.\<close>

lemma persist_merged:
  assumes ok: "node_ok s" "clusterIndex s' < length (cluster s')" "heartbeatMs s' = heartbeatMs s"
    and st: "storage s' = storage s" "raftLog s' = mergeLog (raftLog s) k rs"
    and k: "k \<le> length (raftLog s)" "k \<noteq> 0" "fits (k + length rs)"
      "\<forall>r \<in> set (drop (length rs - newCount (raftLog s) k rs) rs). entry_ok r"
  obtains m' where
    "persist (newCount (raftLog s) k rs \<noteq> 0) (int (newCount (raftLog s) k rs)) s'
       = Inr (s'\<lparr>storage := Some (memDevice m')\<rparr>)"
    "durable (s'\<lparr>storage := Some (memDevice m')\<rparr>)" "node_ok (s'\<lparr>storage := Some (memDevice m')\<rparr>)"
proof -
  let ?n = "newCount (raftLog s) k rs" and ?es = "raftLog s"
  have ld: "log_durable s" and fits: "fits (length ?es)" using ok(1) by (auto simp: node_ok_def)
  have v: "getVotedFor s' = Inr (ownVote s')"
    using ok(2) by (simp add: getVotedFor_def ownVote_def)
  have fits': "fits (length (raftLog s'))"
    using mergeLog_length_le [OF k(1), of rs] fits k(3) st(2) by (auto simp: fits_def)
  have ne: "raftLog s' \<noteq> []"
    using ok(1) k(2) by (simp add: st mergeLog_nonempty node_ok_def)
  obtain old where old: "old = take (length old) ?es"
    "mergeLog ?es k rs = (if ?n = 0 then ?es else old @ map eraseResult (drop (length rs - ?n) rs))"
    using mergeLog_split [OF k(1), of rs] by blast
  have "\<exists>m'. persist (?n \<noteq> 0) (int ?n) s' = Inr (s'\<lparr>storage := Some (memDevice m')\<rparr>) \<and>
    durable (s'\<lparr>storage := Some (memDevice m')\<rparr>)"
  proof (cases "?n = 0")
    case True
    then have "log_durable s'" using ld old(2) st by (simp add: log_durable_def)
    from persist_page_durable [OF this v fits', of 0] True show ?thesis by auto
  next
    case False
    let ?new = "map eraseResult (drop (length rs - ?n) rs)"
    have "logImage c old" if "logImage c ?es" for c
      using logImage_take [OF that, of "length old"] old(1) by simp
    then have 1: "log_durable (s'\<lparr>raftLog := old\<rparr>)"
      using ld st by (auto simp: log_durable_def)
    have 2: "raftLog s' = old @ ?new" using False old(2) st(2) by simp
    have 3: "\<forall>e \<in> set ?new. entry_ok e"
      using k(4) by (auto simp: entry_ok_def)
    have 4: "?n = length ?new" using newCount_le [of ?es k rs] by simp
    from persist_tail_durable [OF 1 v fits' 2 3 4] False show ?thesis by auto
  qed
  then obtain m' where m': "persist (?n \<noteq> 0) (int ?n) s' = Inr (s'\<lparr>storage := Some (memDevice m')\<rparr>)"
    "durable (s'\<lparr>storage := Some (memDevice m')\<rparr>)" by blast
  have "node_ok (s'\<lparr>storage := Some (memDevice m')\<rparr>)"
    using durable_log_durable [OF m'(2)] ok fits' ne by (auto simp: node_ok_def)
  with m' that show thesis by blast
qed

lemma loop_ok_adoptTerm:
  assumes "loop_ok s"
  shows "loop_ok (adoptTerm t s)"
proof -
  have "resolveFrom k (ms[i := (ms ! i)\<lparr>votedFor := 0\<rparr>]) j = resolveFrom k ms j" for k ms i j
  proof (induction ms arbitrary: k i)
    case (Cons m ms)
    then show ?case by (cases i) auto
  qed simp
  with assms show ?thesis
    by (auto simp: loop_ok_def adoptTerm_def resolveClusterIndex_def)
qed

lemma loop_ok_agree: "agree s s' \<Longrightarrow> loop_ok s' = loop_ok s"
  by (simp add: loop_ok_def agree_def)

lemma accepted_index:
  "validPreviousLog req s \<Longrightarrow> raftLog s \<noteq> [] \<Longrightarrow> Suc (unat (PrevLogIndex req)) \<le> length (raftLog s)"
  by (cases "raftLog s") (auto simp: validPreviousLog_def)

lemma next_word:
  "PrevLogIndex req + 1 = of_nat (Suc (unat (PrevLogIndex req)))"
    "PrevLogIndex req + 1 + of_nat (length (Entries req))
       = of_nat (Suc (unat (PrevLogIndex req)) + length (Entries req))"
  by simp_all

text \<open>The vote that a rebuilt cluster gives the node: that of its founding record.\<close>

definition baseVote :: "('sm, 'st) Server \<Rightarrow> u64" where
  "baseVote s = (case resolveClusterIndex (baseCluster s) (selfId s) of
     Inl _ \<Rightarrow> 0 | Inr b \<Rightarrow> votedFor (baseCluster s ! b))"

lemma rebuilt_vote:
  assumes "loop_ok s" "cluster s = baseCluster s @ ms"
  shows "ownVote s = baseVote s"
proof -
  obtain b where b: "resolveClusterIndex (baseCluster s) (selfId s) = Inr b"
    using assms(1) by (auto simp: loop_ok_def resolve_total)
  then have "resolveClusterIndex (cluster s) (selfId s) = Inr b"
    by (simp add: assms(2) resolveClusterIndex_def resolveFrom_append)
  with assms(1) have "clusterIndex s = b" by (simp add: loop_ok_def)
  with resolve_Inr [OF b] b assms(2) show ?thesis
    by (simp add: ownVote_def baseVote_def nth_append)
qed

lemma loop_ok_index: "loop_ok s \<Longrightarrow> clusterIndex s < length (cluster s)"
  by (auto simp: loop_ok_def dest: resolve_Inr)

text \<open>The accepting branch, from the state in which the vote is read to the answer.\<close>

lemma accept_branch:
  assumes inv: "node_ok s" "loop_ok s" and req: "takeable req s" "validPreviousLog req s"
  obtains s5 s7 where
    "appendLoop grow (PrevLogIndex req + 1 + of_nat (length (Entries req))) (PrevLogIndex req + 1)
       (Entries req) (ownVote s) 0 s
     = Inr (newCount (raftLog s) (Suc (unat (PrevLogIndex req))) (Entries req), s5)"
    "persist (newCount (raftLog s) (Suc (unat (PrevLogIndex req))) (Entries req) \<noteq> 0)
       (int (newCount (raftLog s) (Suc (unat (PrevLogIndex req))) (Entries req)))
       (if commitIndex s5 < LeaderCommit req
        then s5\<lparr>commitIndex := min (LeaderCommit req) (logLast (raftLog s5))\<rparr> else s5) = Inr s7"
    "node_ok s7" "loop_ok s7" "durable s7" "raftLog s7 = mergedLog req s"
    "currentTerm s7 = currentTerm s" "role s7 = role s" "lastApplied s7 = lastApplied s"
    "selfId s7 = selfId s" "baseCluster s7 = baseCluster s"
    "commitIndex s7 = (if commitIndex s < LeaderCommit req
       then min (LeaderCommit req) (logLast (mergedLog req s)) else commitIndex s)"
    "ownVote s7 = (if conflicts req s then baseVote s else ownVote s)"
    "ids (cluster s) = ids (baseCluster s) \<union> logIds (raftLog s) \<and>
       sameCommands (raftLog s) (Suc (unat (PrevLogIndex req))) (Entries req) \<longrightarrow>
       ids (cluster s7) = ids (baseCluster s) \<union> logIds (mergedLog req s)"
    "(\<not> conflicts req s \<and> (\<exists>ms. cluster s7 = cluster s @ ms)) \<or> (\<exists>ms. cluster s7 = baseCluster s @ ms)"
proof -
  let ?k = "Suc (unat (PrevLogIndex req))" and ?rs = "Entries req"
  let ?n = "newCount (raftLog s) ?k ?rs"
  have k: "?k \<le> length (raftLog s)"
    using accepted_index [OF req(2)] inv(1) by (simp add: node_ok_def)
  have r: "\<forall>r \<in> set ?rs. wf_command (Command r)" "\<forall>r \<in> set (drop (length ?rs - ?n) ?rs). entry_ok r"
    "fits (?k + length ?rs)"
    using req(1) by (simp_all add: takeable_def newEntries_def)
  obtain s5 where s5: "appendLoop grow (of_nat (?k + length ?rs)) (of_nat ?k) ?rs (ownVote s) 0 s = Inr (0 + ?n, s5)"
    "looped s ?k ?rs s5"
    using appendLoop_ok [OF inv(2) k le_refl r(3,1)] by blast
  note l = loopedD [OF s5(2)]
  note f = loop_frame_fields [OF l(1)]
  define s6 where "s6 = (if commitIndex s5 < LeaderCommit req
    then s5\<lparr>commitIndex := min (LeaderCommit req) (logLast (raftLog s5))\<rparr> else s5)"
  have g: "raftLog s6 = mergeLog (raftLog s) ?k ?rs" "storage s6 = storage s"
    "heartbeatMs s6 = heartbeatMs s" "cluster s6 = cluster s5" "clusterIndex s6 = clusterIndex s5"
    "logCap s6 = logCap s5" "selfId s6 = selfId s" "baseCluster s6 = baseCluster s"
    "currentTerm s6 = currentTerm s" "role s6 = role s" "lastApplied s6 = lastApplied s"
    "commitIndex s6 = (if commitIndex s < LeaderCommit req
       then min (LeaderCommit req) (logLast (mergedLog req s)) else commitIndex s)"
    using f l(3) by (simp_all add: s6_def mergedLog_def)
  have ok6: "loop_ok s6" using l(2,3) g f by (simp add: loop_ok_def)
  have k0: "?k \<noteq> 0" by simp
  obtain m' where p: "persist (?n \<noteq> 0) (int ?n) s6 = Inr (s6\<lparr>storage := Some (memDevice m')\<rparr>)"
    "durable (s6\<lparr>storage := Some (memDevice m')\<rparr>)" "node_ok (s6\<lparr>storage := Some (memDevice m')\<rparr>)"
    by (rule persist_merged [OF inv(1) loop_ok_index [OF ok6] g(3) g(2) g(1) k k0 r(3,2)])
  let ?s7 = "s6\<lparr>storage := Some (memDevice m')\<rparr>"
  have vote: "ownVote ?s7 = (if conflicts req s then baseVote s else ownVote s)"
  proof (cases "conflicts req s")
    case True
    then obtain ms where "cluster s6 = baseCluster s6 @ ms"
      using l(5) g by (auto simp: conflicts_def)
    from rebuilt_vote [OF ok6 this] have "ownVote s6 = baseVote s6" .
    moreover have "baseVote s6 = baseVote s"
      by (simp only: baseVote_def g)
    ultimately show ?thesis
      using True by (simp add: ownVote_def)
  next
    case False
    with l(4) g loop_ok_index [OF inv(2)] show ?thesis
      by (auto simp: conflicts_def ownVote_def nth_append)
  qed
  have "PrevLogIndex req + 1 = of_nat ?k"
    "PrevLogIndex req + 1 + of_nat (length ?rs) = of_nat (?k + length ?rs)"
    by (fact next_word)+
  with s5(1) have loop: "appendLoop grow (PrevLogIndex req + 1 + of_nat (length ?rs))
      (PrevLogIndex req + 1) ?rs (ownVote s) 0 s = Inr (?n, s5)"
    by (metis add_0)
  show thesis
  proof (rule that [OF loop, of ?s7])
    show "persist (?n \<noteq> 0) (int ?n) (if commitIndex s5 < LeaderCommit req
        then s5\<lparr>commitIndex := min (LeaderCommit req) (logLast (raftLog s5))\<rparr> else s5) = Inr ?s7"
      using p(1) by (simp only: s6_def)
    show "loop_ok ?s7" using ok6 by (simp add: loop_ok_def)
    show "ids (cluster s) = ids (baseCluster s) \<union> logIds (raftLog s) \<and> sameCommands (raftLog s) ?k ?rs \<longrightarrow>
        ids (cluster ?s7) = ids (baseCluster s) \<union> logIds (mergedLog req s)"
      using l(6) g by (simp add: l(3) mergedLog_def)
    show "(\<not> conflicts req s \<and> (\<exists>ms. cluster ?s7 = cluster s @ ms)) \<or> (\<exists>ms. cluster ?s7 = baseCluster s @ ms)"
      using l(4,5) g(4) by (auto simp: conflicts_def)
  qed (use p g vote in \<open>simp_all add: mergedLog_def\<close>)
qed

lemma accept_looped:
  assumes "node_inv s" "takeable req s" "validPreviousLog req s"
  obtains n s5 s7 where
    "appendLoop grow (PrevLogIndex req + 1 + of_nat (length (Entries req))) (PrevLogIndex req + 1)
       (Entries req) (ownVote s) 0 s = Inr (n, s5)"
    "looped s (Suc (unat (PrevLogIndex req))) (Entries req) s5"
    "persist (n \<noteq> 0) (int n) (if commitIndex s5 < LeaderCommit req
       then s5\<lparr>commitIndex := min (LeaderCommit req) (logLast (raftLog s5))\<rparr> else s5) = Inr s7"
proof -
  let ?k = "Suc (unat (PrevLogIndex req))" and ?rs = "Entries req"
  have ok: "node_ok s" "loop_ok s" using assms(1) by (simp_all add: node_inv_def)
  obtain n s5 s7 where a: "appendLoop grow (PrevLogIndex req + 1 + of_nat (length ?rs)) (PrevLogIndex req + 1)
       ?rs (ownVote s) 0 s = Inr (n, s5)"
    "persist (n \<noteq> 0) (int n) (if commitIndex s5 < LeaderCommit req
       then s5\<lparr>commitIndex := min (LeaderCommit req) (logLast (raftLog s5))\<rparr> else s5) = Inr s7"
    by (rule accept_branch [OF ok assms(2,3), where grow = grow])
  have k: "?k \<le> length (raftLog s)" using accepted_index [OF assms(3)] ok(1) by (simp add: node_ok_def)
  have r: "\<forall>r \<in> set ?rs. wf_command (Command r)" "fits (?k + length ?rs)"
    using assms(2) by (simp_all add: takeable_def)
  obtain t where t: "appendLoop grow (of_nat (?k + length ?rs)) (of_nat ?k) ?rs (ownVote s) 0 s
       = Inr (0 + newCount (raftLog s) ?k ?rs, t)" "looped s ?k ?rs t"
    using appendLoop_ok [OF ok(2) k le_refl r(2,1)] by blast
  have "s5 = t" using a(1) t(1) by (simp add: next_word ac_simps)
  with t(2) have "looped s ?k ?rs s5" by simp
  with a show thesis by (intro that)
qed

text \<open>The state in which the handler decides: the term adopted, a candidate stepped down.\<close>

definition stepDown :: "AppendEntriesRequest \<Rightarrow> ('sm, 'st) Server \<Rightarrow> ('sm, 'st) Server" where
  "stepDown req s =
     (if Term req = currentTerm s \<and> role s = candidateState then s\<lparr>role := followerState\<rparr> else s)"

lemma stepDown_fields [simp]:
  "currentTerm (stepDown req s) = currentTerm s" "raftLog (stepDown req s) = raftLog s"
  "cluster (stepDown req s) = cluster s" "clusterIndex (stepDown req s) = clusterIndex s"
  "storage (stepDown req s) = storage s" "heartbeatMs (stepDown req s) = heartbeatMs s"
  "logCap (stepDown req s) = logCap s" "selfId (stepDown req s) = selfId s"
  "baseCluster (stepDown req s) = baseCluster s" "commitIndex (stepDown req s) = commitIndex s"
  "lastApplied (stepDown req s) = lastApplied s"
  by (simp_all add: stepDown_def)

lemma node_inv_cong:
  assumes "storage s' = storage s" "raftLog s' = raftLog s" "logCap s' = logCap s"
    "cluster s' = cluster s" "clusterIndex s' = clusterIndex s" "heartbeatMs s' = heartbeatMs s"
    "selfId s' = selfId s" "baseCluster s' = baseCluster s"
  shows "node_inv s' = node_inv s"
  using assms by (simp add: node_inv_def node_ok_def loop_ok_def log_durable_def)

lemma cong_fields:
  "cluster s' = cluster s \<Longrightarrow> clusterIndex s' = clusterIndex s \<Longrightarrow> ownVote s' = ownVote s"
  "baseCluster s' = baseCluster s \<Longrightarrow> selfId s' = selfId s \<Longrightarrow> baseVote s' = baseVote s"
  "raftLog s' = raftLog s \<Longrightarrow> validPreviousLog req s' = validPreviousLog req s"
  "raftLog s' = raftLog s \<Longrightarrow> mergedLog req s' = mergedLog req s"
  "raftLog s' = raftLog s \<Longrightarrow> conflicts req s' = conflicts req s"
  by (simp_all add: ownVote_def baseVote_def validPreviousLog_def mergedLog_def conflicts_def
      cong: sum.case_cong)

lemma memberIds_vote [simp]:
  "map memberId (ms[i := (ms ! i)\<lparr>votedFor := v\<rparr>]) = map memberId ms"
proof (cases "i < length ms")
  case True
  then show ?thesis by (intro nth_equalityI) (simp_all add: nth_list_update)
next
  case False
  then show ?thesis by (simp add: list_update_beyond)
qed

lemma ids_vote [simp]: "ids (ms[i := (ms ! i)\<lparr>votedFor := v\<rparr>]) = ids ms"
proof -
  have "set (map memberId (ms[i := (ms ! i)\<lparr>votedFor := v\<rparr>])) = set (map memberId ms)"
    by (simp only: memberIds_vote)
  then show ?thesis by (simp add: ids_def del: memberIds_vote)
qed

text \<open>
  From the request to the decision, and to the reset of the timeout: the state in which the
  handler answers, or takes the entries.
\<close>

definition prepared :: "AppendEntriesRequest \<Rightarrow> ('sm, MemStorage) Server \<Rightarrow> ('sm, MemStorage) Server \<Rightarrow> bool" where
  "prepared req s w \<longleftrightarrow> node_inv w \<and> raftLog w = raftLog s \<and> baseCluster w = baseCluster s \<and> selfId w = selfId s \<and>
     currentTerm w = max (currentTerm s) (Term req) \<and> commitIndex w = commitIndex s \<and> lastApplied w = lastApplied s \<and>
     cluster w = cluster (adoptTerm (Term req) s) \<and> clusterIndex w = clusterIndex s \<and>
     role w = (if currentTerm s < Term req \<or> Term req = currentTerm s \<and> role s = candidateState
       then followerState else role s) \<and>
     (currentTerm s < Term req \<or> durable s \<longrightarrow> durable w)"

lemma preparedD:
  assumes "prepared req s w"
  shows "node_inv w" "raftLog w = raftLog s" "baseCluster w = baseCluster s" "selfId w = selfId s"
    "currentTerm w = max (currentTerm s) (Term req)" "commitIndex w = commitIndex s" "lastApplied w = lastApplied s"
    "cluster w = cluster (adoptTerm (Term req) s)" "clusterIndex w = clusterIndex s"
    "role w = (if currentTerm s < Term req \<or> Term req = currentTerm s \<and> role s = candidateState
       then followerState else role s)"
    "currentTerm s < Term req \<or> durable s \<longrightarrow> durable w"
  using assms unfolding prepared_def by blast+

lemma prepared_members:
  assumes "prepared req s w" "node_inv s"
  shows "map memberId (cluster w) = map memberId (cluster s)" "ids (cluster w) = ids (cluster s)"
    "ownVote w = (if currentTerm s < Term req then 0 else ownVote s)"
    "validPreviousLog req w = validPreviousLog req s" "mergedLog req w = mergedLog req s"
    "conflicts req w = conflicts req s" "baseVote w = baseVote s"
proof -
  note d = preparedD [OF assms(1)]
  show "map memberId (cluster w) = map memberId (cluster s)" "ids (cluster w) = ids (cluster s)"
    unfolding d(8) by (simp_all add: adoptTerm_def)
  show "ownVote w = (if currentTerm s < Term req then 0 else ownVote s)"
    using d(8,9) assms(2) ownVote_adoptTerm [of s "Term req"]
    by (simp add: ownVote_def adoptTerm_def node_inv_def node_ok_def)
  show "validPreviousLog req w = validPreviousLog req s" "mergedLog req w = mergedLog req s"
    "conflicts req w = conflicts req s" "baseVote w = baseVote s"
    by (rule cong_fields(3) [OF d(2)] cong_fields(4) [OF d(2)] cong_fields(5) [OF d(2)] cong_fields(2) [OF d(3,4)])+
qed

lemma append_decision:
  assumes "node_inv s"
  obtains s1 where "updateTerm req s = Inr (currentTerm s < Term req, s1)" "prepared req s (stepDown req s1)"
proof -
  have ok: "node_ok s" "loop_ok s" using assms by (auto simp: node_inv_def)
  obtain s1 where u: "updateTerm req s = Inr (currentTerm s < Term req, s1)" "node_ok s1"
    "agree (adoptTerm (Term req) s) s1" "currentTerm s < Term req \<longrightarrow> durable s1"
    "\<not> currentTerm s < Term req \<longrightarrow> s1 = s"
    using ok(1) by (rule updateTerm_ok)
  have "loop_ok s1" using loop_ok_adoptTerm [OF ok(2)] loop_ok_agree [OF u(3)] by blast
  with u(2) have "node_inv (stepDown req s1)"
    by (subst node_inv_cong [of "stepDown req s1" s1]) (simp_all add: node_inv_def)
  moreover have a: "currentTerm s1 = max (currentTerm s) (Term req)" "raftLog s1 = raftLog s"
    "commitIndex s1 = commitIndex s" "lastApplied s1 = lastApplied s" "selfId s1 = selfId s"
    "baseCluster s1 = baseCluster s" "role s1 = role (adoptTerm (Term req) s)"
    "cluster s1 = cluster (adoptTerm (Term req) s)" "clusterIndex s1 = clusterIndex s"
    using u(3) by (simp_all add: agree_def)
  moreover have "role (stepDown req s1) = (if currentTerm s < Term req \<or> Term req = currentTerm s \<and> role s = candidateState
       then followerState else role s)"
    using a(1,7) by (auto simp: stepDown_def adoptTerm_def max_def)
  moreover have "currentTerm s < Term req \<or> durable s \<longrightarrow> durable (stepDown req s1)"
    using u(4,5) durable_cong [of "stepDown req s1" s1] by auto
  ultimately have "prepared req s (stepDown req s1)" by (simp add: prepared_def)
  with u(1) show thesis by (rule that)
qed

lemma prepared_reset:
  assumes "prepared req s w"
  obtains w' where "resetElectionTimeout w = Inr w'" "prepared req s (w'\<lparr>Passive := False\<rparr>)"
proof -
  note d = preparedD [OF assms]
  have "0 < heartbeatMs w" using d(1) by (simp add: node_inv_def node_ok_def)
  then obtain w' where w': "resetElectionTimeout w = Inr w'" "agree w w'" "storage w' = storage w"
    by (rule resetElectionTimeout_ok)
  let ?v = "w'\<lparr>Passive := False\<rparr>"
  have a: "storage ?v = storage w" "raftLog ?v = raftLog w" "logCap ?v = logCap w" "cluster ?v = cluster w"
    "clusterIndex ?v = clusterIndex w" "heartbeatMs ?v = heartbeatMs w" "selfId ?v = selfId w"
    "baseCluster ?v = baseCluster w" "currentTerm ?v = currentTerm w" "commitIndex ?v = commitIndex w"
    "lastApplied ?v = lastApplied w" "role ?v = role w"
    using w'(2,3) by (simp_all add: agree_def)
  have "prepared req s ?v"
    unfolding prepared_def node_inv_cong [OF a(1-8)] durable_cong [OF a(1,2,9,4,5)] a
    by (intro conjI d)
  with w'(1) show thesis by (rule that)
qed

text \<open>The ways through the handler, from the decision on.\<close>

lemma append_refuses:
  assumes "updateTerm req s = Inr (b, s1)"
    "role (stepDown req s1) \<noteq> followerState \<or> Term req < currentTerm s1"
  shows "HandleAppendEntriesRequest grow req s
    = Inr (\<lparr>Term = currentTerm s1, Success = False\<rparr>, stepDown req s1)"
proof -
  note eq = HandleAppendEntriesRequest_def [of grow req s, unfolded assms(1) chain_simps prod.case Let_def,
    folded stepDown_def]
  show ?thesis
    unfolding eq using assms(2) by simp
qed

lemma append_resets:
  assumes "updateTerm req s = Inr (b, s1)"
    "role (stepDown req s1) = followerState" "\<not> Term req < currentTerm s1"
    "resetElectionTimeout (stepDown req s1) = Inr s3"
  shows "\<not> validPreviousLog req (s3\<lparr>Passive := False\<rparr>) \<Longrightarrow> HandleAppendEntriesRequest grow req s
      = Inr (\<lparr>Term = currentTerm s1, Success = False\<rparr>, s3\<lparr>Passive := False\<rparr>)"
    "validPreviousLog req (s3\<lparr>Passive := False\<rparr>) \<Longrightarrow> getVotedFor (s3\<lparr>Passive := False\<rparr>) = Inr v \<Longrightarrow>
      appendLoop grow (PrevLogIndex req + 1 + of_nat (length (Entries req))) (PrevLogIndex req + 1)
        (Entries req) v 0 (s3\<lparr>Passive := False\<rparr>) = Inr (n, s5) \<Longrightarrow>
      persist (n \<noteq> 0) (int n) (if commitIndex s5 < LeaderCommit req
        then s5\<lparr>commitIndex := min (LeaderCommit req) (logLast (raftLog s5))\<rparr> else s5) = Inr s7 \<Longrightarrow>
      HandleAppendEntriesRequest grow req s = Inr (\<lparr>Term = currentTerm s1, Success = True\<rparr>, s7)"
    "validPreviousLog req (s3\<lparr>Passive := False\<rparr>) \<Longrightarrow> getVotedFor (s3\<lparr>Passive := False\<rparr>) = Inr v \<Longrightarrow>
      HandleAppendEntriesRequest grow req s = Inr (rsp, s7) \<Longrightarrow>
      \<exists>n s5. appendLoop grow (PrevLogIndex req + 1 + of_nat (length (Entries req))) (PrevLogIndex req + 1)
          (Entries req) v 0 (s3\<lparr>Passive := False\<rparr>) = Inr (n, s5) \<and>
        persist (n \<noteq> 0) (int n) (if commitIndex s5 < LeaderCommit req
          then s5\<lparr>commitIndex := min (LeaderCommit req) (logLast (raftLog s5))\<rparr> else s5) = Inr s7"
proof -
  note eq = HandleAppendEntriesRequest_def [of grow req s, unfolded assms(1) chain_simps prod.case Let_def,
    folded stepDown_def]
  show "\<not> validPreviousLog req (s3\<lparr>Passive := False\<rparr>) \<Longrightarrow> HandleAppendEntriesRequest grow req s
      = Inr (\<lparr>Term = currentTerm s1, Success = False\<rparr>, s3\<lparr>Passive := False\<rparr>)"
    unfolding eq using assms(2-4) by simp
  show "validPreviousLog req (s3\<lparr>Passive := False\<rparr>) \<Longrightarrow> getVotedFor (s3\<lparr>Passive := False\<rparr>) = Inr v \<Longrightarrow>
      appendLoop grow (PrevLogIndex req + 1 + of_nat (length (Entries req))) (PrevLogIndex req + 1)
        (Entries req) v 0 (s3\<lparr>Passive := False\<rparr>) = Inr (n, s5) \<Longrightarrow>
      persist (n \<noteq> 0) (int n) (if commitIndex s5 < LeaderCommit req
        then s5\<lparr>commitIndex := min (LeaderCommit req) (logLast (raftLog s5))\<rparr> else s5) = Inr s7 \<Longrightarrow>
      HandleAppendEntriesRequest grow req s = Inr (\<lparr>Term = currentTerm s1, Success = True\<rparr>, s7)"
    unfolding eq using assms(2-4) by (simp cong: if_cong)
  show "validPreviousLog req (s3\<lparr>Passive := False\<rparr>) \<Longrightarrow> getVotedFor (s3\<lparr>Passive := False\<rparr>) = Inr v \<Longrightarrow>
      HandleAppendEntriesRequest grow req s = Inr (rsp, s7) \<Longrightarrow>
      \<exists>n s5. appendLoop grow (PrevLogIndex req + 1 + of_nat (length (Entries req))) (PrevLogIndex req + 1)
          (Entries req) v 0 (s3\<lparr>Passive := False\<rparr>) = Inr (n, s5) \<and>
        persist (n \<noteq> 0) (int n) (if commitIndex s5 < LeaderCommit req
          then s5\<lparr>commitIndex := min (LeaderCommit req) (logLast (raftLog s5))\<rparr> else s5) = Inr s7"
    unfolding eq using assms(2-4) by (auto simp: chain_Inr_iff cong: if_cong split del: if_split)
qed

lemma decision:
  assumes "r = (if t < T \<or> T = t \<and> q = candidateState then followerState else q)" "u = max t (T :: u64)"
  shows "(r = followerState \<and> \<not> T < u) = (t < T \<or> t = T \<and> (q = followerState \<or> q = candidateState))"
  using assms by (cases t T rule: linorder_cases) auto

lemma append_prepared:
  assumes "node_inv s"
  obtains w where "prepared req s w"
    "\<not> accepts req s \<Longrightarrow> HandleAppendEntriesRequest grow req s
       = Inr (\<lparr>Term = max (currentTerm s) (Term req), Success = False\<rparr>, w)"
    "\<And>n s5 t. accepts req s \<Longrightarrow>
       appendLoop grow (PrevLogIndex req + 1 + of_nat (length (Entries req))) (PrevLogIndex req + 1)
         (Entries req) (ownVote w) 0 w = Inr (n, s5) \<Longrightarrow>
       persist (n \<noteq> 0) (int n) (if commitIndex s5 < LeaderCommit req
         then s5\<lparr>commitIndex := min (LeaderCommit req) (logLast (raftLog s5))\<rparr> else s5) = Inr t \<Longrightarrow>
       HandleAppendEntriesRequest grow req s = Inr (\<lparr>Term = max (currentTerm s) (Term req), Success = True\<rparr>, t)"
    "\<And>rsp t. accepts req s \<Longrightarrow> HandleAppendEntriesRequest grow req s = Inr (rsp, t) \<Longrightarrow>
       \<exists>n s5. appendLoop grow (PrevLogIndex req + 1 + of_nat (length (Entries req))) (PrevLogIndex req + 1)
           (Entries req) (ownVote w) 0 w = Inr (n, s5) \<and>
         persist (n \<noteq> 0) (int n) (if commitIndex s5 < LeaderCommit req
           then s5\<lparr>commitIndex := min (LeaderCommit req) (logLast (raftLog s5))\<rparr> else s5) = Inr t"
proof -
  obtain s1 where u: "updateTerm req s = Inr (currentTerm s < Term req, s1)" "prepared req s (stepDown req s1)"
    using assms by (rule append_decision)
  note d = preparedD [OF u(2)]
  have t1: "currentTerm s1 = max (currentTerm s) (Term req)" using d(5) by simp
  note dec = decision [OF d(10) t1]
  show thesis
  proof (cases "role (stepDown req s1) = followerState \<and> \<not> Term req < currentTerm s1")
    case False
    then have "\<not> accepts req s" using dec by (simp only: accepts_iff) blast
    moreover have "role (stepDown req s1) \<noteq> followerState \<or> Term req < currentTerm s1" using False by blast
    ultimately show thesis using append_refuses [OF u(1), of grow] t1 by (intro that [OF u(2)]) simp_all
  next
    case True
    obtain s3 where s3: "resetElectionTimeout (stepDown req s1) = Inr s3" "prepared req s (s3\<lparr>Passive := False\<rparr>)"
      by (rule prepared_reset [OF u(2)])
    let ?w = "s3\<lparr>Passive := False\<rparr>"
    note r = append_resets [OF u(1) conjunct1 [OF True] conjunct2 [OF True] s3(1), where grow = grow, unfolded t1]
    have acc: "accepts req s = validPreviousLog req ?w"
      using True dec prepared_members(4) [OF s3(2) assms] by (simp only: accepts_iff) blast
    have "node_ok ?w" using preparedD(1) [OF s3(2)] by (simp add: node_inv_def)
    note v = getVotedFor_ok [OF this]
    show thesis
      by (rule that [OF s3(2)]) (use acc r(1) r(2) [OF _ v] r(3) [OF _ v] in blast)+
  qed
qed

text \<open>What the handler does on a node that satisfies the invariant, in one statement.\<close>

lemma HandleAppendEntriesRequest_takes:
  assumes "node_inv s" "accepts req s \<longrightarrow> takeable req s"
  obtains s' where
    "HandleAppendEntriesRequest grow req s
       = Inr (\<lparr>Term = max (currentTerm s) (Term req), Success = accepts req s\<rparr>, s')"
    "node_inv s'" "currentTerm s' = max (currentTerm s) (Term req)"
    "raftLog s' = (if accepts req s then mergedLog req s else raftLog s)"
    "commitIndex s' = (if accepts req s \<and> commitIndex s < LeaderCommit req
       then min (LeaderCommit req) (logLast (mergedLog req s)) else commitIndex s)"
    "ownVote s' = (if accepts req s \<and> conflicts req s then baseVote s
       else if currentTerm s < Term req then 0 else ownVote s)"
    "role s' = (if currentTerm s < Term req \<or> Term req = currentTerm s \<and> role s = candidateState
       then followerState else role s)"
    "lastApplied s' = lastApplied s" "selfId s' = selfId s" "baseCluster s' = baseCluster s"
    "accepts req s \<or> currentTerm s < Term req \<or> durable s \<longrightarrow> durable s'"
    "ids (cluster s) = ids (baseCluster s) \<union> logIds (raftLog s) \<and>
       (accepts req s \<longrightarrow> sameCommands (raftLog s) (Suc (unat (PrevLogIndex req))) (Entries req)) \<longrightarrow>
       ids (cluster s') = ids (baseCluster s) \<union> logIds (raftLog s')"
    "(\<exists>ms. map memberId (cluster s') = map memberId (cluster s) @ ms) \<or>
       (\<exists>ms. cluster s' = baseCluster s @ ms)"
    "accepts req s \<and> conflicts req s \<longrightarrow> (\<exists>ms. cluster s' = baseCluster s @ ms)"
proof -
  obtain w where w: "prepared req s w" "\<not> accepts req s \<Longrightarrow> HandleAppendEntriesRequest grow req s
       = Inr (\<lparr>Term = max (currentTerm s) (Term req), Success = False\<rparr>, w)"
    and go: "\<And>n s5 t. accepts req s \<Longrightarrow>
       appendLoop grow (PrevLogIndex req + 1 + of_nat (length (Entries req))) (PrevLogIndex req + 1)
         (Entries req) (ownVote w) 0 w = Inr (n, s5) \<Longrightarrow>
       persist (n \<noteq> 0) (int n) (if commitIndex s5 < LeaderCommit req
         then s5\<lparr>commitIndex := min (LeaderCommit req) (logLast (raftLog s5))\<rparr> else s5) = Inr t \<Longrightarrow>
       HandleAppendEntriesRequest grow req s = Inr (\<lparr>Term = max (currentTerm s) (Term req), Success = True\<rparr>, t)"
    using append_prepared [OF assms(1), of req grow] by metis
  note d = preparedD [OF w(1)] and c = prepared_members [OF w(1) assms(1)]
  show thesis
  proof (cases "accepts req s")
    case False
    show thesis
    proof (rule that [of w], goal_cases)
      case 13
      show ?case using c(1) by (intro disjI1 exI [of _ "[]"]) simp
    qed (use False w(2) d c(2,3) in simp_all)
  next
    case True
    then have v: "validPreviousLog req w" using c(4) by (simp add: accepts_iff)
    have ok: "node_ok w" "loop_ok w" using d(1) by (simp_all add: node_inv_def)
    have tk: "takeable req w" using True assms(2) takeable_cong [OF d(2)] by blast
    obtain s5 t where t: "appendLoop grow (PrevLogIndex req + 1 + of_nat (length (Entries req))) (PrevLogIndex req + 1)
       (Entries req) (ownVote w) 0 w = Inr (newCount (raftLog w) (Suc (unat (PrevLogIndex req))) (Entries req), s5)"
      "persist (newCount (raftLog w) (Suc (unat (PrevLogIndex req))) (Entries req) \<noteq> 0)
         (int (newCount (raftLog w) (Suc (unat (PrevLogIndex req))) (Entries req)))
         (if commitIndex s5 < LeaderCommit req
          then s5\<lparr>commitIndex := min (LeaderCommit req) (logLast (raftLog s5))\<rparr> else s5) = Inr t"
      and k: "node_ok t" "loop_ok t" "durable t" "raftLog t = mergedLog req w" "currentTerm t = currentTerm w"
      "role t = role w" "lastApplied t = lastApplied w" "selfId t = selfId w" "baseCluster t = baseCluster w"
      "commitIndex t = (if commitIndex w < LeaderCommit req
         then min (LeaderCommit req) (logLast (mergedLog req w)) else commitIndex w)"
      "ownVote t = (if conflicts req w then baseVote w else ownVote w)"
      "ids (cluster w) = ids (baseCluster w) \<union> logIds (raftLog w) \<and>
         sameCommands (raftLog w) (Suc (unat (PrevLogIndex req))) (Entries req) \<longrightarrow>
         ids (cluster t) = ids (baseCluster w) \<union> logIds (mergedLog req w)"
      "(\<not> conflicts req w \<and> (\<exists>ms. cluster t = cluster w @ ms)) \<or> (\<exists>ms. cluster t = baseCluster w @ ms)"
      by (rule accept_branch [OF ok tk v])
    show thesis
    proof (rule that [of t], goal_cases)
      case 1
      show ?case using go [OF True t] True by simp
    next
      case 12
      show ?case using k(12) True by (simp add: k(4) d(2,3) c(2,5))
    next
      case 13
      show ?case using k(13) c(1) by (auto simp: d(3))
    next
      case 14
      show ?case using k(13) by (auto simp: d(3) c(6))
    qed (use True k(1-11) d c in \<open>simp_all add: node_inv_def\<close>)
  qed
qed

lemma HandleAppendEntriesRequest_ok:
  assumes "node_inv s" "wf_request req"
  obtains s' where
    "HandleAppendEntriesRequest grow req s
       = Inr (\<lparr>Term = max (currentTerm s) (Term req), Success = accepts req s\<rparr>, s')"
    "node_inv s'" "currentTerm s' = max (currentTerm s) (Term req)"
    "raftLog s' = (if accepts req s then mergedLog req s else raftLog s)"
    "commitIndex s' = (if accepts req s \<and> commitIndex s < LeaderCommit req
       then min (LeaderCommit req) (logLast (mergedLog req s)) else commitIndex s)"
    "ownVote s' = (if accepts req s \<and> conflicts req s then baseVote s
       else if currentTerm s < Term req then 0 else ownVote s)"
    "role s' = (if currentTerm s < Term req \<or> Term req = currentTerm s \<and> role s = candidateState
       then followerState else role s)"
    "lastApplied s' = lastApplied s" "selfId s' = selfId s" "baseCluster s' = baseCluster s"
    "accepts req s \<or> currentTerm s < Term req \<or> durable s \<longrightarrow> durable s'"
    "ids (cluster s) = ids (baseCluster s) \<union> logIds (raftLog s) \<and>
       (accepts req s \<longrightarrow> sameCommands (raftLog s) (Suc (unat (PrevLogIndex req))) (Entries req)) \<longrightarrow>
       ids (cluster s') = ids (baseCluster s) \<union> logIds (raftLog s')"
    "(\<exists>ms. map memberId (cluster s') = map memberId (cluster s) @ ms) \<or>
       (\<exists>ms. cluster s' = baseCluster s @ ms)"
    "accepts req s \<and> conflicts req s \<longrightarrow> (\<exists>ms. cluster s' = baseCluster s @ ms)"
  using assms(1) by (rule HandleAppendEntriesRequest_takes) (use wf_takeable [OF assms(2)] in blast, rule that)

text \<open>
  And if the handler returns at all, then the node could take the request: a config change that
  does not decode, or a new entry that does not fit its slot, is a panic.
\<close>

lemma appendLoop_decodes:
  "appendLoop grow T i rs v n s = Inr r \<Longrightarrow> \<forall>e \<in> set rs. wf_command (Command e)"
proof (induction rs arbitrary: i n s)
  case (Cons e rs)
  then obtain s3 s4 k where "adoptConfig i (e\<lparr>result := None\<rparr>) v s3 = Inr s4" "appendLoop grow T (i + 1) rs v (n + k) s4 = Inr r"
    by (auto simp: Let_def chain_Inr_iff)
  moreover from this(1) have "wf_command (Command e)"
    by (auto simp: adoptConfig_def wf_command_def split: if_splits sum.splits)
  ultimately show ?case using Cons.IH by auto
qed simp

lemma returned_takeable:
  assumes "node_inv s" "HandleAppendEntriesRequest grow req s = Inr (rsp, t)"
    "unat (PrevLogIndex req) < length (raftLog s) \<longrightarrow> fits (Suc (unat (PrevLogIndex req)) + length (Entries req))"
  shows "accepts req s \<longrightarrow> takeable req s"
proof
  assume acc: "accepts req s"
  let ?k = "Suc (unat (PrevLogIndex req))" and ?rs = "Entries req"
  obtain w n s5 where w: "prepared req s w" and loop: "appendLoop grow (of_nat (?k + length ?rs)) (of_nat ?k) ?rs (ownVote w) 0 w = Inr (n, s5)"
    and p: "persist (n \<noteq> 0) (int n) (if commitIndex s5 < LeaderCommit req
      then s5\<lparr>commitIndex := min (LeaderCommit req) (logLast (raftLog s5))\<rparr> else s5) = Inr t"
    using append_prepared [OF assms(1), of req grow] acc assms(2) unfolding next_word(2) unfolding next_word(1) by metis
  note d = preparedD [OF w]
  have ok: "node_ok w" "loop_ok w" using d(1) by (simp_all add: node_inv_def)
  have k: "?k \<le> length (raftLog w)"
    using acc accepted_index prepared_members(4) [OF w assms(1)] ok(1) by (auto simp: accepts_iff node_ok_def)
  with assms(3) d(2) have fit: "fits (?k + length ?rs)" by simp
  have wf: "\<forall>e \<in> set ?rs. wf_command (Command e)" by (rule appendLoop_decodes [OF loop])
  let ?n = "newCount (raftLog w) ?k ?rs" and ?new = "newEntries req w"
  have l: "n = ?n" "raftLog s5 = mergeLog (raftLog w) ?k ?rs"
    using appendLoop_ok [OF ok(2) k le_refl fit wf, of grow "ownVote w" 0] loop loopedD(3) by fastforce+
  have "\<forall>e \<in> set ?new. entry_ok e"
  proof (cases "?n = 0")
    case False
    obtain old where "mergeLog (raftLog w) ?k ?rs = old @ map eraseResult ?new"
      using mergeLog_split [OF k, of ?rs] False by (auto simp: newEntries_def)
    moreover have "length ?new = ?n" using newCount_le [of "raftLog w" ?k ?rs] by (simp add: newEntries_def)
    moreover from p False l(1) have "persist True (int n) (if commitIndex s5 < LeaderCommit req
      then s5\<lparr>commitIndex := min (LeaderCommit req) (logLast (raftLog s5))\<rparr> else s5) = Inr t" by simp
    ultimately have "\<forall>e \<in> set (map eraseResult ?new). entry_ok e"
      using False l by (elim persist_fit [where es = old]) simp_all
    then show ?thesis by (simp add: entry_ok_def)
  qed (simp add: newEntries_def)
  with wf fit have "takeable req w" by (simp add: takeable_def)
  then show "takeable req s" using takeable_cong [OF d(2)] by blast
qed

section \<open>Properties\<close>

lemma node_inv_demo:
  assumes "durable (demo es t v m)" "es \<noteq> []" "fits (length es)" "\<forall>e \<in> set es. wf_command (Command e)"
  shows "node_inv (demo es t v m)"
proof -
  have "resolveClusterIndex (cluster (demo es t v m)) 1 = Inr 0"
    by (simp add: demo_def threeNodes_def resolveClusterIndex_def)
  with assms durable_log_durable [OF assms(1)] show ?thesis
    by (simp add: node_inv_def node_ok_def loop_ok_def) (simp add: demo_def)
qed

text \<open>
  C7: The append handler is Raft's receiver. On a node that satisfies the invariant and for
  every well-formed request the handler returns: no index, assertion or write in it fails. It
  accepts exactly if the term is current, the node is no leader of that term, and its log
  agrees with the request at the previous index; then its log is the merged log, its commit
  index is raised to the leader's as far as the log goes, and term, vote and log are on disk
  when the answer is given; otherwise log and commit index stay. The invariant is kept.
\<close>

theorem append_handler:
  assumes "node_inv s" "wf_request req"
  shows "\<exists>s'. HandleAppendEntriesRequest grow req s
      = Inr (\<lparr>Term = max (currentTerm s) (Term req), Success = accepts req s\<rparr>, s') \<and>
    node_inv s' \<and> currentTerm s' = max (currentTerm s) (Term req) \<and>
    raftLog s' = (if accepts req s then mergedLog req s else raftLog s) \<and>
    commitIndex s' = (if accepts req s \<and> commitIndex s < LeaderCommit req
      then min (LeaderCommit req) (of_nat (length (mergedLog req s)) - 1) else commitIndex s) \<and>
    (accepts req s \<or> currentTerm s < Term req \<or> durable s \<longrightarrow> durable s')"
  using HandleAppendEntriesRequest_ok [OF assms] unfolding logLast_def by metis

theorem append_handler_witness:
  "\<exists>m s'. durable (demo demoLog 3 2 m) \<and>
    HandleAppendEntriesRequest (\<lambda>_ n. n)
      \<lparr>Term = 4, LeaderId = 2, PrevLogIndex = 0, PrevLogTerm = 0,
       Entries = [\<lparr>Command = [5], entryTerm = 4, result = Some 1\<rparr>], LeaderCommit = 9\<rparr>
      (demo demoLog 3 2 m) = Inr (\<lparr>Term = 4, Success = True\<rparr>, s') \<and>
    raftLog s' = [dummyEntry, \<lparr>Command = [5], entryTerm = 4, result = None\<rparr>] \<and> commitIndex s' = 1"
proof -
  obtain m where d: "durable (demo demoLog 3 2 m)" by (rule demo_persisted)
  let ?req = "\<lparr>Term = 4, LeaderId = 2, PrevLogIndex = 0, PrevLogTerm = 0,
       Entries = [\<lparr>Command = [5], entryTerm = 4, result = Some 1\<rparr>], LeaderCommit = 9\<rparr> :: AppendEntriesRequest"
  have "node_inv (demo demoLog 3 2 m)"
    by (rule node_inv_demo [OF d]) simp_all
  moreover have "wf_request ?req"
    by (simp add: wf_request_def entry_ok_def wf_command_def isConfigChangeCommand_def configChangeMarker_def)
  moreover have "accepts ?req (demo demoLog 3 2 m)"
    by (simp add: accepts_iff validPreviousLog_def)
  moreover have "mergedLog ?req (demo demoLog 3 2 m)
      = [dummyEntry, \<lparr>Command = [5], entryTerm = 4, result = None\<rparr>]"
    by (simp add: mergedLog_def demoLog_def eraseResult_def)
  ultimately show ?thesis
    using append_handler [of "demo demoLog 3 2 m" ?req "\<lambda>_ n. n"] d
    by (auto simp: logLast_def)
qed

lemma mergeLog_present:
  "k + length rs \<le> length es \<Longrightarrow> \<forall>j < length rs. entryTerm (es ! (k + j)) = entryTerm (rs ! j) \<Longrightarrow>
     mergeLog es k rs = es"
proof (induction es k rs rule: mergeLog.induct)
  case (2 es k r rs)
  have "entryTerm (es ! k) = entryTerm r" using "2.prems"(2) by force
  moreover have "\<forall>j < length rs. entryTerm (es ! (Suc k + j)) = entryTerm (rs ! j)"
    using "2.prems"(2) by force
  ultimately show ?case using "2.IH" "2.prems"(1) by simp
qed simp

text \<open>A request and the prefixes of it, which an older, slower message carries.\<close>

definition shortened :: "nat \<Rightarrow> AppendEntriesRequest \<Rightarrow> AppendEntriesRequest" where
  "shortened n req = req\<lparr>Entries := take n (Entries req)\<rparr>"

lemma wf_shortened: "wf_request req \<Longrightarrow> wf_request (shortened n req)"
  by (auto simp: wf_request_def shortened_def fits_def dest: in_set_takeD)

lemma merged_terms:
  assumes "node_inv s" "validPreviousLog req s"
  shows "take (Suc (unat (PrevLogIndex req))) (mergedLog req s) = take (Suc (unat (PrevLogIndex req))) (raftLog s)"
    "Suc (unat (PrevLogIndex req)) + length (Entries req) \<le> length (mergedLog req s)"
    "j < length (Entries req) \<Longrightarrow>
       entryTerm (mergedLog req s ! (Suc (unat (PrevLogIndex req)) + j)) = entryTerm (Entries req ! j)"
    "\<not> conflicts req s \<Longrightarrow> \<exists>ys. mergedLog req s = raftLog s @ ys"
proof -
  have k: "Suc (unat (PrevLogIndex req)) \<le> length (raftLog s)"
    using accepted_index [OF assms(2)] assms(1) by (simp add: node_inv_def node_ok_def)
  note m = mergeLog_take [OF k] mergeLog_length [OF k] mergeLog_terms [OF k] mergeLog_no_conflict [OF _ k]
  show "take (Suc (unat (PrevLogIndex req))) (mergedLog req s) = take (Suc (unat (PrevLogIndex req))) (raftLog s)"
    "Suc (unat (PrevLogIndex req)) + length (Entries req) \<le> length (mergedLog req s)"
    "j < length (Entries req) \<Longrightarrow>
       entryTerm (mergedLog req s ! (Suc (unat (PrevLogIndex req)) + j)) = entryTerm (Entries req ! j)"
    "\<not> conflicts req s \<Longrightarrow> \<exists>ys. mergedLog req s = raftLog s @ ys"
    unfolding mergedLog_def conflicts_def by (fact m)+
qed

text \<open>
  What a success answer promises the leader: the follower holds, behind the previous index,
  an entry of the right term for every entry of the request; up to the previous index its log
  is what it was; and unless an entry conflicted, nothing was removed.
\<close>

theorem success_means_stored:
  assumes "node_inv s" "wf_request req" "HandleAppendEntriesRequest grow req s = Inr (rsp, s')"
    and "Success rsp"
  shows "Suc (unat (PrevLogIndex req)) + length (Entries req) \<le> length (raftLog s') \<and>
    (\<forall>j < length (Entries req).
       entryTerm (raftLog s' ! (Suc (unat (PrevLogIndex req)) + j)) = entryTerm (Entries req ! j)) \<and>
    take (Suc (unat (PrevLogIndex req))) (raftLog s') = take (Suc (unat (PrevLogIndex req))) (raftLog s) \<and>
    (conflicts req s \<or> (\<exists>ys. raftLog s' = raftLog s @ ys))"
proof -
  obtain t where t: "HandleAppendEntriesRequest grow req s
      = Inr (\<lparr>Term = max (currentTerm s) (Term req), Success = accepts req s\<rparr>, t)"
    "raftLog t = (if accepts req s then mergedLog req s else raftLog s)"
    by (rule HandleAppendEntriesRequest_ok [OF assms(1,2)])
  with assms(3,4) have e: "s' = t" "accepts req s" by auto
  then have v: "validPreviousLog req s" by (simp add: accepts_iff)
  from merged_terms [OF assms(1) v] show ?thesis unfolding e(1) t(2) if_P [OF e(2)] by blast
qed

theorem success_means_stored_witness:
  "\<exists>m s'. HandleAppendEntriesRequest (\<lambda>_ n. n)
      \<lparr>Term = 4, LeaderId = 2, PrevLogIndex = 1, PrevLogTerm = 3,
       Entries = [\<lparr>Command = [5], entryTerm = 4, result = Some 1\<rparr>], LeaderCommit = 0\<rparr>
      (demo demoLog 3 2 m) = Inr (\<lparr>Term = 4, Success = True\<rparr>, s') \<and>
    3 \<le> length (raftLog s') \<and> entryTerm (raftLog s' ! 2) = 4"
proof -
  obtain m where d: "durable (demo demoLog 3 2 m)" by (rule demo_persisted)
  let ?s = "demo demoLog 3 2 m"
  let ?req = "\<lparr>Term = 4, LeaderId = 2, PrevLogIndex = 1, PrevLogTerm = 3,
       Entries = [\<lparr>Command = [5], entryTerm = 4, result = Some 1\<rparr>], LeaderCommit = 0\<rparr> :: AppendEntriesRequest"
  have inv: "node_inv ?s" by (rule node_inv_demo [OF d]) simp_all
  have wf: "wf_request ?req"
    by (simp add: wf_request_def entry_ok_def wf_command_def isConfigChangeCommand_def
        configChangeMarker_def fits_def)
  have acc: "accepts ?req ?s" by (simp add: accepts_iff validPreviousLog_def demoLog_def)
  obtain s' where s': "HandleAppendEntriesRequest (\<lambda>_ n. n) ?req ?s
      = Inr (\<lparr>Term = max (currentTerm ?s) (Term ?req), Success = accepts ?req ?s\<rparr>, s')"
    by (rule HandleAppendEntriesRequest_ok [OF inv wf])
  from success_means_stored [OF inv wf s'] acc
  have "3 \<le> length (raftLog s')" "entryTerm (raftLog s' ! 2) = 4" by (simp_all add: numeral_2_eq_2)
  with s' acc show ?thesis by auto
qed

text \<open>
  Redelivery and reordering do no harm: after a request was accepted, handling it again, or
  an older copy of it that carries only its first \<open>n\<close> entries, is accepted and leaves the log
  as it is; in particular it truncates nothing.
\<close>

theorem redelivery_keeps_log:
  assumes "node_inv s" "wf_request req" "HandleAppendEntriesRequest grow req s = Inr (rsp, s1)"
    and "Success rsp"
  shows "\<exists>s2. HandleAppendEntriesRequest grow (shortened n req) s1
      = Inr (\<lparr>Term = Term req, Success = True\<rparr>, s2) \<and> raftLog s2 = raftLog s1"
proof -
  obtain t where t: "HandleAppendEntriesRequest grow req s
      = Inr (\<lparr>Term = max (currentTerm s) (Term req), Success = accepts req s\<rparr>, t)" "node_inv t"
    "currentTerm t = max (currentTerm s) (Term req)"
    "raftLog t = (if accepts req s then mergedLog req s else raftLog s)"
    "role t = (if currentTerm s < Term req \<or> Term req = currentTerm s \<and> role s = candidateState
       then followerState else role s)"
    by (rule HandleAppendEntriesRequest_ok [OF assms(1,2)])
  with assms(3,4) have e: "s1 = t" and acc: "accepts req s" by auto
  then have v: "validPreviousLog req s" by (simp add: accepts_iff)
  have T: "currentTerm t = Term req" and R: "role t = followerState"
    using acc t(3,5) by (auto simp: accepts_iff max_def)
  note m = merged_terms [OF assms(1) v]
  have log: "raftLog t = mergedLog req s" using t(4) acc by simp
  let ?k = "unat (PrevLogIndex req)"
  have "?k < length (raftLog s)"
    using accepted_index [OF v] assms(1) by (simp add: node_inv_def node_ok_def)
  then have "mergedLog req s ! ?k = raftLog s ! ?k"
    using m(1) by (metis lessI nth_take)
  then have v': "validPreviousLog (shortened n req) t"
    using v m(2) log by (auto simp: validPreviousLog_def shortened_def)
  have acc': "accepts (shortened n req) t"
    using v' T R by (simp add: accepts_iff) (simp add: shortened_def)
  have "mergedLog (shortened n req) t = raftLog t"
    unfolding mergedLog_def log using m(2,3)
    by (intro mergeLog_present) (auto simp: shortened_def mergedLog_def)
  moreover obtain s2 where "HandleAppendEntriesRequest grow (shortened n req) t
      = Inr (\<lparr>Term = max (currentTerm t) (Term (shortened n req)), Success = accepts (shortened n req) t\<rparr>, s2)"
    "raftLog s2 = (if accepts (shortened n req) t then mergedLog (shortened n req) t else raftLog t)"
    by (rule HandleAppendEntriesRequest_ok [OF t(2) wf_shortened [OF assms(2)]])
  moreover have "Term (shortened n req) = Term req" by (simp add: shortened_def)
  ultimately show ?thesis using acc' T e by auto
qed

theorem redelivery_keeps_log_witness:
  "\<exists>m s1 s2. HandleAppendEntriesRequest (\<lambda>_ n. n)
      \<lparr>Term = 4, LeaderId = 2, PrevLogIndex = 0, PrevLogTerm = 0,
       Entries = [\<lparr>Command = [5], entryTerm = 4, result = Some 1\<rparr>], LeaderCommit = 9\<rparr>
      (demo demoLog 3 2 m) = Inr (\<lparr>Term = 4, Success = True\<rparr>, s1) \<and>
    HandleAppendEntriesRequest (\<lambda>_ n. n)
      \<lparr>Term = 4, LeaderId = 2, PrevLogIndex = 0, PrevLogTerm = 0, Entries = [], LeaderCommit = 9\<rparr> s1
      = Inr (\<lparr>Term = 4, Success = True\<rparr>, s2) \<and> raftLog s2 = raftLog s1"
proof -
  obtain m where d: "durable (demo demoLog 3 2 m)" by (rule demo_persisted)
  let ?s = "demo demoLog 3 2 m"
  let ?req = "\<lparr>Term = 4, LeaderId = 2, PrevLogIndex = 0, PrevLogTerm = 0,
       Entries = [\<lparr>Command = [5], entryTerm = 4, result = Some 1\<rparr>], LeaderCommit = 9\<rparr> :: AppendEntriesRequest"
  have inv: "node_inv ?s" by (rule node_inv_demo [OF d]) simp_all
  have wf: "wf_request ?req"
    by (simp add: wf_request_def entry_ok_def wf_command_def isConfigChangeCommand_def configChangeMarker_def)
  have acc: "accepts ?req ?s" by (simp add: accepts_iff validPreviousLog_def)
  obtain s1 where s1: "HandleAppendEntriesRequest (\<lambda>_ n. n) ?req ?s
      = Inr (\<lparr>Term = max (currentTerm ?s) (Term ?req), Success = accepts ?req ?s\<rparr>, s1)"
    by (rule HandleAppendEntriesRequest_ok [OF inv wf])
  from redelivery_keeps_log [OF inv wf s1, of 0] acc
  obtain s2 where "HandleAppendEntriesRequest (\<lambda>_ n. n) (shortened 0 ?req) s1
      = Inr (\<lparr>Term = 4, Success = True\<rparr>, s2)" "raftLog s2 = raftLog s1" by auto
  with s1 acc show ?thesis by (auto simp: shortened_def)
qed

text \<open>
  C17: Membership follows the log: if the cluster of a node consists of its founding members
  and those of the config changes in its log, the same holds after the handler, through
  appended and truncated config changes alike, as long as entries that match in index and term
  carry the same command.
\<close>

theorem membership_follows_log:
  assumes "node_inv s" "wf_request req" "HandleAppendEntriesRequest grow req s = Inr (rsp, s')"
    and "ids (cluster s) = ids (baseCluster s) \<union> logIds (raftLog s)"
    and "sameCommands (raftLog s) (Suc (unat (PrevLogIndex req))) (Entries req)"
  shows "ids (cluster s') = ids (baseCluster s') \<union> logIds (raftLog s')"
proof -
  obtain t where t: "HandleAppendEntriesRequest grow req s
      = Inr (\<lparr>Term = max (currentTerm s) (Term req), Success = accepts req s\<rparr>, t)"
    "baseCluster t = baseCluster s"
    "ids (cluster s) = ids (baseCluster s) \<union> logIds (raftLog s) \<and>
       (accepts req s \<longrightarrow> sameCommands (raftLog s) (Suc (unat (PrevLogIndex req))) (Entries req)) \<longrightarrow>
       ids (cluster t) = ids (baseCluster s) \<union> logIds (raftLog t)"
    by (rule HandleAppendEntriesRequest_ok [OF assms(1,2)])
  with assms(3) have "s' = t" by simp
  with t(2,3) assms(4,5) show ?thesis by simp
qed

text \<open>A config change that adds member 4 to the example cluster.\<close>

lemma add_fourth:
  obtains b where "encodeConfigChange (threeNodes @ [newMember 4 []]) = Inr b"
    "length b \<le> 112" "wf_command b" "commandIds b = {1, 2, 3, 4}"
proof -
  let ?ms = "threeNodes @ [newMember 4 []]"
  have e: "encodeConfigChange ?ms
      = Inr ([configChangeMarker, of_nat (length ?ms)] @ concat (map encodeMember ?ms))"
    by (subst encodeConfigChange_Inr) (simp add: byte_simps threeNodes_def)
  then obtain b where b: "encodeConfigChange ?ms = Inr b" by blast
  have d: "decodeConfigChange b = Inr (map memberView ?ms)" by (rule decode_encodeConfigChange [OF b])
  have "commandIds b = ids ?ms"
    unfolding commandIds_def d by (simp add: encoded_isConfigChange [OF b] del: map_append)
  also have "\<dots> = {1, 2, 3, 4}" by auto
  finally have "commandIds b = {1, 2, 3, 4}" .
  moreover have "length b \<le> 112" by (rule encoded_length [OF b])
  moreover have "wf_command b" using d by (simp add: wf_command_def)
  ultimately show thesis using b that by blast
qed

theorem membership_follows_log_witness:
  "\<exists>m b s'. encodeConfigChange (threeNodes @ [newMember 4 []]) = Inr b \<and>
    HandleAppendEntriesRequest (\<lambda>_ n. n)
      \<lparr>Term = 4, LeaderId = 2, PrevLogIndex = 1, PrevLogTerm = 3,
       Entries = [\<lparr>Command = b, entryTerm = 4, result = None\<rparr>], LeaderCommit = 0\<rparr>
      (demo demoLog 3 2 m) = Inr (\<lparr>Term = 4, Success = True\<rparr>, s') \<and>
    ids (cluster s') = {1, 2, 3, 4}"
proof -
  obtain m where d: "durable (demo demoLog 3 2 m)" by (rule demo_persisted)
  obtain b where b: "encodeConfigChange (threeNodes @ [newMember 4 []]) = Inr b"
    "length b \<le> 112" "wf_command b" "commandIds b = {1, 2, 3, 4}" by (rule add_fourth)
  let ?s = "demo demoLog 3 2 m"
  let ?req = "\<lparr>Term = 4, LeaderId = 2, PrevLogIndex = 1, PrevLogTerm = 3,
       Entries = [\<lparr>Command = b, entryTerm = 4, result = None\<rparr>], LeaderCommit = 0\<rparr> :: AppendEntriesRequest"
  have inv: "node_inv ?s" by (rule node_inv_demo [OF d]) simp_all
  have wf: "wf_request ?req" using b(2,3) by (simp add: wf_request_def entry_ok_def fits_def)
  have acc: "accepts ?req ?s" by (simp add: accepts_iff validPreviousLog_def demoLog_def)
  have none: "logIds demoLog = {}"
    by (simp add: demoLog_def commandIds_def isConfigChangeCommand_def configChangeMarker_def)
  have three: "ids (cluster ?s) = {1, 2, 3}" by (auto simp: demo_def threeNodes_def)
  obtain s' where s': "HandleAppendEntriesRequest (\<lambda>_ n. n) ?req ?s
      = Inr (\<lparr>Term = max (currentTerm ?s) (Term ?req), Success = accepts ?req ?s\<rparr>, s')"
    "raftLog s' = (if accepts ?req ?s then mergedLog ?req ?s else raftLog ?s)"
    "baseCluster s' = baseCluster ?s"
    by (rule HandleAppendEntriesRequest_ok [OF inv wf])
  have "mergedLog ?req ?s = demoLog @ [\<lparr>Command = b, entryTerm = 4, result = None\<rparr>]"
    by (simp add: mergedLog_def eraseResult_def)
  then have ids: "logIds (raftLog s') = {1, 2, 3, 4}" using s'(2) acc b(4) none by simp
  have "ids (cluster s') = ids (baseCluster s') \<union> logIds (raftLog s')"
    by (rule membership_follows_log [OF inv wf s'(1)]) (use none three in \<open>simp_all\<close>)
  with ids s'(3) have "ids (cluster s') = {1, 2, 3, 4}" by auto
  with s'(1) acc b(1) show ?thesis by auto
qed

text \<open>
  C22: A truncation loses the vote. When an accepted request of the current term conflicts with
  the log, the cluster is rebuilt from the founding members, whose records hold no vote: a
  founding member that has voted in this term has no vote afterwards, and the vote handler
  grants any candidate with an up-to-date log a second vote in the same term.
\<close>

theorem truncation_drops_vote:
  assumes "node_inv s" "wf_request req" "accepts req s" "conflicts req s"
    and "list_all (\<lambda>c. votedFor c = 0) (baseCluster s)"
  shows "\<exists>rsp s'. HandleAppendEntriesRequest grow req s = Inr (rsp, s') \<and> ownVote s' = 0 \<and>
    (\<forall>vreq. Term vreq = Term req \<longrightarrow> upToDate vreq s' \<longrightarrow>
       (\<exists>s''. HandleRequestVoteRequest vreq s' = Inr (\<lparr>Term = Term req, VoteGranted = True\<rparr>, s'')))"
proof -
  obtain s' where s': "HandleAppendEntriesRequest grow req s
      = Inr (\<lparr>Term = max (currentTerm s) (Term req), Success = accepts req s\<rparr>, s')" "node_inv s'"
    "currentTerm s' = max (currentTerm s) (Term req)"
    "ownVote s' = (if accepts req s \<and> conflicts req s then baseVote s
       else if currentTerm s < Term req then 0 else ownVote s)"
    by (rule HandleAppendEntriesRequest_ok [OF assms(1,2)])
  have T: "currentTerm s' = Term req" using s'(3) assms(3) by (auto simp: accepts_iff max_def)
  have "selfId s \<in> ids (baseCluster s)" using assms(1) by (simp add: node_inv_def loop_ok_def)
  then obtain b where b: "resolveClusterIndex (baseCluster s) (selfId s) = Inr b"
    by (auto simp: resolve_total)
  then have "b < length (baseCluster s)" using resolve_Inr by blast
  then have v: "ownVote s' = 0"
    using s'(4) assms(3-5) b by (auto simp: baseVote_def list_all_length)
  have "\<exists>s''. HandleRequestVoteRequest vreq s' = Inr (\<lparr>Term = Term req, VoteGranted = True\<rparr>, s'')"
    if "Term vreq = Term req" "upToDate vreq s'" for vreq
  proof -
    have ok: "node_ok s'" using s'(2) by (simp add: node_inv_def)
    have g: "grantable vreq s'" using that v T by (simp add: grantable_def)
    obtain s'' where "HandleRequestVoteRequest vreq s'
        = Inr (\<lparr>Term = max (currentTerm s') (Term vreq), VoteGranted = grantable vreq s'\<rparr>, s'')"
      by (rule HandleRequestVoteRequest_ok [OF ok])
    with g that(1) T show ?thesis by simp
  qed
  with s'(1) v show ?thesis by blast
qed

theorem truncation_drops_vote_witness:
  "\<exists>m rsp s' s''. durable (demo demoLog 4 2 m) \<and> ownVote (demo demoLog 4 2 m) = 2 \<and>
    HandleAppendEntriesRequest (\<lambda>_ n. n)
      \<lparr>Term = 4, LeaderId = 2, PrevLogIndex = 0, PrevLogTerm = 0,
       Entries = [\<lparr>Command = [5], entryTerm = 4, result = None\<rparr>], LeaderCommit = 0\<rparr>
      (demo demoLog 4 2 m) = Inr (rsp, s') \<and>
    HandleRequestVoteRequest \<lparr>Term = 4, CandidateId = 3, LastLogIndex = 1, LastLogTerm = 5\<rparr> s'
      = Inr (\<lparr>Term = 4, VoteGranted = True\<rparr>, s'')"
proof -
  obtain m where d: "durable (demo demoLog 4 2 m)" by (rule demo_persisted)
  let ?s = "demo demoLog 4 2 m"
  let ?req = "\<lparr>Term = 4, LeaderId = 2, PrevLogIndex = 0, PrevLogTerm = 0,
       Entries = [\<lparr>Command = [5], entryTerm = 4, result = None\<rparr>], LeaderCommit = 0\<rparr> :: AppendEntriesRequest"
  let ?vreq = "\<lparr>Term = 4, CandidateId = 3, LastLogIndex = 1, LastLogTerm = 5\<rparr> :: RequestVoteRequest"
  have inv: "node_inv ?s" by (rule node_inv_demo [OF d]) simp_all
  have wf: "wf_request ?req"
    by (simp add: wf_request_def entry_ok_def wf_command_def isConfigChangeCommand_def configChangeMarker_def)
  have acc: "accepts ?req ?s" by (simp add: accepts_iff validPreviousLog_def)
  have con: "conflicts ?req ?s" by (simp add: conflicts_def demoLog_def)
  have base: "list_all (\<lambda>c. votedFor c = 0) (baseCluster ?s)" by (simp add: threeNodes_def)
  obtain s' where s': "HandleAppendEntriesRequest (\<lambda>_ n. n) ?req ?s
      = Inr (\<lparr>Term = max (currentTerm ?s) (Term ?req), Success = accepts ?req ?s\<rparr>, s')"
    "raftLog s' = (if accepts ?req ?s then mergedLog ?req ?s else raftLog ?s)"
    by (rule HandleAppendEntriesRequest_ok [OF inv wf])
  have "raftLog s' = [dummyEntry, \<lparr>Command = [5], entryTerm = 4, result = None\<rparr>]"
    using s'(2) acc by (simp add: mergedLog_def demoLog_def eraseResult_def)
  then have up: "upToDate ?vreq s'" by (simp add: upToDate_def lastTerm_def)
  from truncation_drops_vote [OF inv wf acc con base, of "\<lambda>_ n. n"] s'(1)
  have "\<forall>vreq. Term vreq = Term ?req \<longrightarrow> upToDate vreq s' \<longrightarrow>
       (\<exists>s''. HandleRequestVoteRequest vreq s' = Inr (\<lparr>Term = Term ?req, VoteGranted = True\<rparr>, s''))"
    by auto
  with up obtain s'' where "HandleRequestVoteRequest ?vreq s' = Inr (\<lparr>Term = 4, VoteGranted = True\<rparr>, s'')"
    by (metis RPCMessage.select_convs(1))
  with s'(1) d show ?thesis by (auto simp del: RPCMessage.select_convs)
qed

end
