(* ===== verification/Leader.thy ===== *)
theory Leader
  imports Append_Handler
begin

text \<open>
  The leader's side of replication: the request built for a member, the response taken, and
  one round of the two with the follower's handler in between. Rounds keep the logs matching
  and, repeated, bring the follower's log to the leader's.
\<close>

section \<open>The request\<close>

lemma buildAppendEntries_ok:
  assumes "node_ok s" "i < length (cluster s)"
    and "unat (nextIndex (cluster s ! i)) = Suc p" "p < length (raftLog s)"
  shows "buildAppendEntries i s = Inr (Address (cluster s ! i),
    \<lparr>Term = currentTerm s, LeaderId = memberId (cluster s ! clusterIndex s),
     PrevLogIndex = of_nat p, PrevLogTerm = entryTerm (raftLog s ! p),
     Entries = take MAX_APPEND_ENTRIES_BATCH (drop (Suc p) (raftLog s)),
     LeaderCommit = commitIndex s\<rparr>)"
proof -
  let ?n = "nextIndex (cluster s ! i)"
  have ne: "raftLog s \<noteq> []" and f: "fits (length (raftLog s))" and ci: "clusterIndex s < length (cluster s)"
    using assms(1) by (auto simp: node_ok_def)
  have "?n = of_nat (Suc p)" using assms(3) by (metis of_nat_unat ucast_id)
  then have prev: "?n - 1 = of_nat p" by simp
  have "small p" using f assms(4) by (auto simp: fits_def small_def)
  then have up: "unat (of_nat p :: u64) = p" by simp
  have rest: "(if ?n \<le> logLast (raftLog s) then drop (unat ?n) (raftLog s) else []) = drop (Suc p) (raftLog s)"
    using ne f assms(3) by (auto simp: word_le_nat_alt)
  have batch: "(if MAX_APPEND_ENTRIES_BATCH < length es then take MAX_APPEND_ENTRIES_BATCH es else es)
      = take MAX_APPEND_ENTRIES_BATCH es" for es :: "Entry list"
    by simp
  show ?thesis
    unfolding buildAppendEntries_def Let_def prev up rest batch
    using assms(2,4) ci by simp
qed

section \<open>The response\<close>

lemma handleAppendResponse_current:
  assumes "node_ok s" "i < length (cluster s)" "Term rsp = currentTerm s" "Term req = currentTerm s"
  shows "handleAppendResponse i req rsp s = Inr (s\<lparr>cluster := (cluster s)[i :=
    (if Success rsp
     then (cluster s ! i)\<lparr>nextIndex := max (PrevLogIndex req + of_nat (length (Entries req)) + 1) 1,
            matchIndex := max (PrevLogIndex req + of_nat (length (Entries req)) + 1) 1 - 1\<rparr>
     else (cluster s ! i)\<lparr>nextIndex := max (nextIndex (cluster s ! i) - 1) 1\<rparr>)]\<rparr>)"
  using assms by (simp add: handleAppendResponse_def updateTerm_def Let_def)

section \<open>Matching logs\<close>

text \<open>
  The Log Matching property of two logs: entries of the same index and term carry the same
  command, and so do all entries before them. The channels of waiting clients do not count.
\<close>

definition same_upto :: "nat \<Rightarrow> Entry list \<Rightarrow> Entry list \<Rightarrow> bool" where
  "same_upto n es fs \<longleftrightarrow> map eraseResult (take n es) = map eraseResult (take n fs)"

definition log_matching :: "Entry list \<Rightarrow> Entry list \<Rightarrow> bool" where
  "log_matching es fs \<longleftrightarrow> same_upto 1 es fs \<and>
     (\<forall>k. k < length es \<longrightarrow> k < length fs \<longrightarrow> entryTerm (es ! k) = entryTerm (fs ! k) \<longrightarrow>
        same_upto (Suc k) es fs)"

lemma same_upto_0 [simp]: "same_upto 0 es fs"
  by (simp add: same_upto_def)

lemma same_upto_mono: "same_upto n es fs \<Longrightarrow> m \<le> n \<Longrightarrow> same_upto m es fs"
  unfolding same_upto_def by (metis min.absorb1 take_map take_take)

lemma mergeLog_kept_or_cut:
  "k \<le> length fs \<Longrightarrow> mergeLog fs k rs = fs \<or> length (mergeLog fs k rs) = k + length rs"
  by (induction fs k rs rule: mergeLog.induct) (auto simp: min_def)

lemma merge_same_upto:
  assumes "log_matching es fs" "k \<le> length fs" "same_upto k es fs" "k + n \<le> length es"
  shows "same_upto (k + n) es (mergeLog fs k (take n (drop k es)))"
  using assms
proof (induction n arbitrary: k)
  case 0
  then show ?case by simp
next
  case (Suc n)
  have k: "k < length es" using Suc.prems(4) by simp
  then have rs: "take (Suc n) (drop k es) = es ! k # take n (drop (Suc k) es)"
    by (metis Cons_nth_drop_Suc take_Suc_Cons)
  show ?case
  proof (cases "k < length fs \<and> entryTerm (fs ! k) = entryTerm (es ! k)")
    case True
    then have "same_upto (Suc k) es fs" using Suc.prems(1) k by (simp add: log_matching_def)
    with Suc.IH [of "Suc k"] Suc.prems True show ?thesis by (simp add: rs)
  next
    case False
    have "map eraseResult (take (k + Suc n) es)
        = map eraseResult (take k es) @ map eraseResult (take (Suc n) (drop k es))"
      by (metis map_append take_add)
    also have "map eraseResult (take k es) = map eraseResult (take k fs)"
      using Suc.prems(3) by (simp add: same_upto_def)
    finally have "map eraseResult (take (k + Suc n) es)
        = map eraseResult (take k fs @ map eraseResult (take (Suc n) (drop k es)))"
      by (simp add: comp_def)
    moreover have "mergeLog fs k (take (Suc n) (drop k es))
        = take k fs @ map eraseResult (take (Suc n) (drop k es))"
      unfolding rs mergeLog.simps if_not_P [OF False] ..
    moreover have "length (take k fs @ map eraseResult (take (Suc n) (drop k es))) = k + Suc n"
      using Suc.prems(2,4) by simp
    ultimately show ?thesis by (simp add: same_upto_def)
  qed
qed

lemma log_matching_prefix:
  assumes "same_upto n es fs" "length fs = n" "n \<noteq> 0"
  shows "log_matching es fs"
  unfolding log_matching_def
  using same_upto_mono [OF assms(1)] assms(2,3) by (auto simp: Suc_le_eq)

lemma merge_log_matching:
  assumes "log_matching es fs" "k \<le> length fs" "same_upto k es fs" "k + n \<le> length es" "k \<noteq> 0"
  shows "log_matching es (mergeLog fs k (take n (drop k es)))"
proof -
  have "mergeLog fs k (take n (drop k es)) = fs \<or>
      length (mergeLog fs k (take n (drop k es))) = k + n"
    using mergeLog_kept_or_cut [OF assms(2), of "take n (drop k es)"] assms(4) by simp
  then show ?thesis
    using assms(1,5) log_matching_prefix [OF merge_same_upto [OF assms(1-4)]] by auto
qed

section \<open>One round\<close>

definition exchange ::
  "(nat \<Rightarrow> nat \<Rightarrow> nat) \<Rightarrow> nat \<Rightarrow> ('sm, 'st) Server \<times> ('sm, 'st) Server
     \<Rightarrow> ('sm, 'st) fault + (('sm, 'st) Server \<times> ('sm, 'st) Server)" where
  "exchange grow i = (\<lambda>(l, f).
     chain (buildAppendEntries i l) (\<lambda>(_, req).
     chain (HandleAppendEntriesRequest grow req f) (\<lambda>(rsp, f').
     chain (handleAppendResponse i req rsp l) (\<lambda>l'. Inr (l', f')))))"

text \<open>What a round needs of leader and follower, and keeps.\<close>

definition round_inv :: "nat \<Rightarrow> ('sm, MemStorage) Server \<Rightarrow> ('sm, MemStorage) Server \<Rightarrow> bool" where
  "round_inv i l f \<longleftrightarrow> node_ok l \<and> i < length (cluster l) \<and>
     nextIndex (cluster l ! i) \<noteq> 0 \<and> unat (nextIndex (cluster l ! i)) \<le> length (raftLog l) \<and>
     (\<forall>e \<in> set (raftLog l). entry_ok e \<and> wf_command (Command e)) \<and>
     node_inv f \<and> log_matching (raftLog l) (raftLog f) \<and>
     (currentTerm f < currentTerm l \<or>
      currentTerm f = currentTerm l \<and> (role f = followerState \<or> role f = candidateState))"

definition nextOf :: "nat \<Rightarrow> ('sm, 'st) Server \<Rightarrow> nat" where
  "nextOf i l = unat (nextIndex (cluster l ! i))"


lemma length_batch: "length (take m (drop k es)) = min m (length es - k)"
  by simp

text \<open>
  One round: the follower accepts, and then matches the leader's log up to the new match
  index; or it refuses, and the next index goes down by one. At next index 1 it accepts.
\<close>

lemma exchange_ok:
  assumes inv: "round_inv i l f" and p: "nextOf i l = Suc p"
  obtains l' f' where "exchange grow i (l, f) = Inr (l', f')" "round_inv i l' f'"
    "raftLog l' = raftLog l"
    "(validPreviousLog \<lparr>Term = currentTerm l, LeaderId = memberId (cluster l ! clusterIndex l),
         PrevLogIndex = of_nat p, PrevLogTerm = entryTerm (raftLog l ! p),
         Entries = [], LeaderCommit = 0\<rparr> f \<and>
       nextOf i l' = Suc p + min MAX_APPEND_ENTRIES_BATCH (length (raftLog l) - Suc p) \<and>
       unat (matchIndex (cluster l' ! i)) = nextOf i l' - 1 \<and>
       same_upto (nextOf i l') (raftLog l) (raftLog f')) \<or>
     (\<not> validPreviousLog \<lparr>Term = currentTerm l, LeaderId = memberId (cluster l ! clusterIndex l),
         PrevLogIndex = of_nat p, PrevLogTerm = entryTerm (raftLog l ! p),
         Entries = [], LeaderCommit = 0\<rparr> f \<and> p \<noteq> 0 \<and> nextOf i l' = p \<and> raftLog f' = raftLog f \<and>
       matchIndex (cluster l' ! i) = matchIndex (cluster l ! i))"
proof -
  let ?es = "raftLog l" and ?fs = "raftLog f"
  let ?n = "min MAX_APPEND_ENTRIES_BATCH (length ?es - Suc p)"
  define req where "req = \<lparr>Term = currentTerm l, LeaderId = memberId (cluster l ! clusterIndex l),
     PrevLogIndex = of_nat p, PrevLogTerm = entryTerm (?es ! p),
     Entries = take MAX_APPEND_ENTRIES_BATCH (drop (Suc p) ?es), LeaderCommit = commitIndex l\<rparr>"
  have l: "node_ok l" "i < length (cluster l)" "p < length ?es" "fits (length ?es)"
    "\<forall>e \<in> set ?es. entry_ok e \<and> wf_command (Command e)"
    using inv p by (auto simp: round_inv_def nextOf_def node_ok_def)
  have f: "node_inv f" "log_matching ?es ?fs" "?fs \<noteq> []"
    using inv by (auto simp: round_inv_def node_inv_def node_ok_def)
  have t: "currentTerm f < currentTerm l \<or>
      currentTerm f = currentTerm l \<and> (role f = followerState \<or> role f = candidateState)"
    using inv by (simp add: round_inv_def)
  have sm: "small p" "unat (of_nat p :: u64) = p"
    using l(3,4) by (auto simp: fits_def small_def intro: small_unat)
  have build: "buildAppendEntries i l = Inr (Address (cluster l ! i), req)"
    unfolding req_def by (rule buildAppendEntries_ok [OF l(1,2) _ l(3)]) (use p in \<open>simp add: nextOf_def\<close>)
  have wf: "wf_request req"
    using l(3-5) sm by (auto simp: wf_request_def req_def fits_def dest!: in_set_takeD in_set_dropD)
  obtain f' where f': "HandleAppendEntriesRequest grow req f
      = Inr (\<lparr>Term = max (currentTerm f) (Term req), Success = accepts req f\<rparr>, f')" "node_inv f'"
    "currentTerm f' = max (currentTerm f) (Term req)"
    "raftLog f' = (if accepts req f then mergedLog req f else raftLog f)"
    "role f' = (if currentTerm f < Term req \<or> Term req = currentTerm f \<and> role f = candidateState
       then followerState else role f)"
    by (rule HandleAppendEntriesRequest_ok [OF f(1) wf])
  have T: "Term req = currentTerm l" by (simp add: req_def)
  have m: "max (currentTerm f) (Term req) = currentTerm l" using t T by (auto simp: max_def)
  have R: "currentTerm f' = currentTerm l \<and> role f' = followerState"
    using f'(3,5) m t T by auto
  have acc: "accepts req f = validPreviousLog req f" using t T by (auto simp: accepts_iff)
  have vp: "validPreviousLog req f = validPreviousLog \<lparr>Term = currentTerm l,
      LeaderId = memberId (cluster l ! clusterIndex l), PrevLogIndex = of_nat p,
      PrevLogTerm = entryTerm (?es ! p), Entries = [], LeaderCommit = 0\<rparr> f"
    by (simp add: validPreviousLog_def req_def)
  let ?rsp = "\<lparr>Term = currentTerm l, Success = accepts req f\<rparr> :: AppendEntriesResponse"
  let ?m = "if accepts req f
     then (cluster l ! i)\<lparr>nextIndex := max (PrevLogIndex req + of_nat (length (Entries req)) + 1) 1,
            matchIndex := max (PrevLogIndex req + of_nat (length (Entries req)) + 1) 1 - 1\<rparr>
     else (cluster l ! i)\<lparr>nextIndex := max (nextIndex (cluster l ! i) - 1) 1\<rparr>"
  let ?l' = "l\<lparr>cluster := (cluster l)[i := ?m]\<rparr>"
  have resp: "handleAppendResponse i req ?rsp l = Inr ?l'"
    by (subst handleAppendResponse_current [OF l(1,2)]) (simp_all add: T)
  have ex: "exchange grow i (l, f) = Inr (?l', f')"
    using build f'(1) resp m by (simp add: exchange_def)
  have at_i: "cluster ?l' ! i = ?m" using l(2) by simp
  have okl: "node_ok ?l'" using l(1) by (simp add: node_ok_def log_durable_def)
  show thesis
  proof (cases "validPreviousLog req f")
    case True
    have nx: "unat (max (PrevLogIndex req + of_nat (length (Entries req)) + 1) 1) = Suc p + ?n"
    proof -
      have "PrevLogIndex req + of_nat (length (Entries req)) + 1 = (of_nat (Suc p + ?n) :: u64)"
        by (simp add: req_def min.commute)
      moreover have "small (Suc p + ?n)" using l(3,4) by (simp add: fits_def small_def)
      moreover have "(1 :: u64) \<le> of_nat (Suc p + ?n)"
        using calculation(2) by (simp add: word_le_nat_alt del: of_nat_Suc of_nat_add)
      ultimately show ?thesis by (simp add: max_absorb1 del: of_nat_Suc of_nat_add)
    qed
    have kf: "Suc p \<le> length ?fs"
      using accepted_index [OF True f(3)] sm by (simp add: req_def)
    have up: "same_upto (Suc p) ?es ?fs"
    proof (cases "p = 0")
      case True
      then show ?thesis using f(2) by (simp add: log_matching_def)
    next
      case False
      then have "(of_nat p :: u64) \<noteq> 0" using sm by (metis unat_0)
      with True sm have "entryTerm (?fs ! p) = entryTerm (?es ! p)" "p < length ?fs"
        by (auto simp: validPreviousLog_def req_def)
      with f(2) l(3) show ?thesis by (simp add: log_matching_def)
    qed
    have ml: "raftLog f' = mergeLog ?fs (Suc p) (take ?n (drop (Suc p) ?es))"
    proof -
      have "take MAX_APPEND_ENTRIES_BATCH (drop (Suc p) ?es) = take ?n (drop (Suc p) ?es)"
        by (rule nth_equalityI) auto
      then show ?thesis using f'(4) acc True sm by (simp add: mergedLog_def req_def)
    qed
    have bound: "Suc p + ?n \<le> length ?es" using l(3) by simp
    have su: "same_upto (Suc p + ?n) ?es (raftLog f')"
      unfolding ml by (rule merge_same_upto [OF f(2) kf up bound])
    have lm: "log_matching ?es (raftLog f')"
      unfolding ml by (rule merge_log_matching [OF f(2) kf up bound]) simp
    have nxt: "nextOf i ?l' = Suc p + ?n"
      using at_i acc True nx by (simp add: nextOf_def)
    then have "nextIndex (cluster ?l' ! i) \<noteq> 0" by (metis Zero_not_Suc add_Suc nextOf_def unat_0)
    with okl l nxt bound f'(2) lm R have inv': "round_inv i ?l' f'"
      unfolding round_inv_def nextOf_def [symmetric] by simp
    have "matchIndex (cluster ?l' ! i) = nextIndex (cluster ?l' ! i) - 1"
      using at_i acc True by simp
    then have "unat (matchIndex (cluster ?l' ! i)) = nextOf i ?l' - 1"
      using unat_sub_one [OF \<open>nextIndex (cluster ?l' ! i) \<noteq> 0\<close>] by (metis nextOf_def)
    with ex inv' nxt su True vp show thesis by (intro that [of ?l' f']) auto
  next
    case False
    then have p0: "p \<noteq> 0" by (cases p) (auto simp: validPreviousLog_def req_def)
    have "nextIndex (cluster l ! i) = of_nat (Suc p)"
      using p by (metis nextOf_def of_nat_unat ucast_id)
    then have "max (nextIndex (cluster l ! i) - 1) 1 = of_nat p"
      using p0 sm by (simp add: max_absorb1 word_le_nat_alt)
    then have nxt: "nextOf i ?l' = p"
      using at_i acc False sm by (simp add: nextOf_def)
    then have "nextIndex (cluster ?l' ! i) \<noteq> 0" using p0 by (metis nextOf_def unat_0)
    moreover have "raftLog f' = ?fs" using f'(4) acc False by simp
    ultimately have "round_inv i ?l' f'"
      using okl l nxt f'(2) f(2) R unfolding round_inv_def nextOf_def [symmetric] by simp
    moreover have "matchIndex (cluster ?l' ! i) = matchIndex (cluster l ! i)"
      using at_i acc False by simp
    ultimately show thesis
      using ex nxt p0 False vp \<open>raftLog f' = ?fs\<close> by (intro that [of ?l' f']) auto
  qed
qed

lemma exchange_agreed:
  assumes inv: "round_inv i l f" and p: "nextOf i l = Suc p"
    and agreed: "same_upto (nextOf i l) (raftLog l) (raftLog f)"
  obtains l' f' where "exchange grow i (l, f) = Inr (l', f')" "round_inv i l' f'"
    "raftLog l' = raftLog l"
    "nextOf i l' = Suc p + min MAX_APPEND_ENTRIES_BATCH (length (raftLog l) - Suc p)"
    "unat (matchIndex (cluster l' ! i)) = nextOf i l' - 1"
    "same_upto (nextOf i l') (raftLog l) (raftLog f')"
proof -
  let ?probe = "\<lparr>Term = currentTerm l, LeaderId = memberId (cluster l ! clusterIndex l),
         PrevLogIndex = of_nat p, PrevLogTerm = entryTerm (raftLog l ! p),
         Entries = [], LeaderCommit = 0\<rparr> :: AppendEntriesRequest"
  have l: "p < length (raftLog l)" "fits (length (raftLog l))"
    using inv p by (auto simp: round_inv_def nextOf_def node_ok_def)
  then have sm: "unat (of_nat p :: u64) = p" by (auto simp: fits_def small_def intro: small_unat)
  have m: "map eraseResult (take (Suc p) (raftLog l)) = map eraseResult (take (Suc p) (raftLog f))"
    using agreed p by (simp add: same_upto_def)
  then have len: "p < length (raftLog f)"
    using l(1) by (metis Suc_le_eq length_map length_take min.absorb2 min.cobounded1)
  have "map eraseResult (take (Suc p) (raftLog l)) ! p = map eraseResult (take (Suc p) (raftLog f)) ! p"
    by (simp only: m)
  then have "eraseResult (raftLog l ! p) = eraseResult (raftLog f ! p)"
    using l(1) len by simp
  then have "entryTerm (raftLog f ! p) = entryTerm (raftLog l ! p)" by (metis eraseResult_fields(1))
  with len sm have v: "validPreviousLog ?probe f" by (simp add: validPreviousLog_def)
  obtain l' f' where x: "exchange grow i (l, f) = Inr (l', f')" "round_inv i l' f'"
    "raftLog l' = raftLog l"
    "(validPreviousLog ?probe f \<and>
       nextOf i l' = Suc p + min MAX_APPEND_ENTRIES_BATCH (length (raftLog l) - Suc p) \<and>
       unat (matchIndex (cluster l' ! i)) = nextOf i l' - 1 \<and>
       same_upto (nextOf i l') (raftLog l) (raftLog f')) \<or>
     (\<not> validPreviousLog ?probe f \<and> p \<noteq> 0 \<and> nextOf i l' = p \<and> raftLog f' = raftLog f \<and>
       matchIndex (cluster l' ! i) = matchIndex (cluster l ! i))"
    by (rule exchange_ok [OF inv p])
  with v that show thesis by blast
qed

section \<open>Rounds\<close>

fun rounds ::
  "(nat \<Rightarrow> nat \<Rightarrow> nat) \<Rightarrow> nat \<Rightarrow> nat \<Rightarrow> ('sm, 'st) Server \<times> ('sm, 'st) Server
     \<Rightarrow> ('sm, 'st) fault + (('sm, 'st) Server \<times> ('sm, 'st) Server)" where
  "rounds grow i 0 lf = Inr lf"
| "rounds grow i (Suc n) lf = chain (exchange grow i lf) (rounds grow i n)"

definition caught_up :: "nat \<Rightarrow> ('sm, 'st) Server \<Rightarrow> ('sm, 'st) Server \<Rightarrow> bool" where
  "caught_up i l f \<longleftrightarrow> unat (matchIndex (cluster l ! i)) = length (raftLog l) - 1 \<and>
     same_upto (length (raftLog l)) (raftLog l) (raftLog f)"

lemma rounds_forward:
  assumes "round_inv i l f" "same_upto (nextOf i l) (raftLog l) (raftLog f)"
    "length (raftLog l) - nextOf i l \<le> n"
  shows "\<exists>k l' f'. k \<le> Suc n \<and> rounds grow i k (l, f) = Inr (l', f') \<and> round_inv i l' f' \<and>
    raftLog l' = raftLog l \<and> caught_up i l' f'"
  using assms
proof (induction n arbitrary: l f)
  case 0
  obtain p where p: "nextOf i l = Suc p"
    using "0.prems"(1) by (cases "nextOf i l") (auto simp: round_inv_def nextOf_def unat_eq_0)
  have le: "nextOf i l \<le> length (raftLog l)" using "0.prems"(1) by (simp add: round_inv_def nextOf_def)
  obtain l' f' where x: "exchange grow i (l, f) = Inr (l', f')" "round_inv i l' f'"
    "raftLog l' = raftLog l"
    "nextOf i l' = Suc p + min MAX_APPEND_ENTRIES_BATCH (length (raftLog l) - Suc p)"
    "unat (matchIndex (cluster l' ! i)) = nextOf i l' - 1"
    "same_upto (nextOf i l') (raftLog l) (raftLog f')"
    by (rule exchange_agreed [OF "0.prems"(1) p "0.prems"(2)])
  have "nextOf i l' = length (raftLog l)" using x(4) p le "0.prems"(3) by simp
  with x show ?case
    by (intro exI [of _ 1] exI [of _ l'] exI [of _ f']) (simp add: caught_up_def)
next
  case (Suc n)
  obtain p where p: "nextOf i l = Suc p"
    using Suc.prems(1) by (cases "nextOf i l") (auto simp: round_inv_def nextOf_def unat_eq_0)
  have le: "nextOf i l \<le> length (raftLog l)" using Suc.prems(1) by (simp add: round_inv_def nextOf_def)
  obtain l' f' where x: "exchange grow i (l, f) = Inr (l', f')" "round_inv i l' f'"
    "raftLog l' = raftLog l"
    "nextOf i l' = Suc p + min MAX_APPEND_ENTRIES_BATCH (length (raftLog l) - Suc p)"
    "unat (matchIndex (cluster l' ! i)) = nextOf i l' - 1"
    "same_upto (nextOf i l') (raftLog l) (raftLog f')"
    by (rule exchange_agreed [OF Suc.prems(1) p Suc.prems(2)])
  show ?case
  proof (cases "nextOf i l' = length (raftLog l)")
    case True
    with x show ?thesis
      by (intro exI [of _ 1] exI [of _ l'] exI [of _ f']) (simp add: caught_up_def)
  next
    case False
    then have "length (raftLog l') - nextOf i l' \<le> n" using x(3,4) p le Suc.prems(3) by simp
    moreover have "same_upto (nextOf i l') (raftLog l') (raftLog f')" using x(3,6) by simp
    ultimately obtain k l2 f2 where "k \<le> Suc n" "rounds grow i k (l', f') = Inr (l2, f2)"
      "round_inv i l2 f2" "raftLog l2 = raftLog l'" "caught_up i l2 f2"
      using Suc.IH [OF x(2)] by metis
    with x(1,3) show ?thesis
      by (intro exI [of _ "Suc k"] exI [of _ l2] exI [of _ f2]) simp
  qed
qed

lemma rounds_converge:
  assumes "round_inv i l f" "nextOf i l = Suc p"
  shows "\<exists>k l' f'. k \<le> p + Suc (length (raftLog l)) \<and> rounds grow i k (l, f) = Inr (l', f') \<and>
    round_inv i l' f' \<and> raftLog l' = raftLog l \<and> caught_up i l' f'"
  using assms
proof (induction p arbitrary: l f)
  case 0
  then have "same_upto (nextOf i l) (raftLog l) (raftLog f)"
    by (simp add: round_inv_def log_matching_def)
  with "0.prems" rounds_forward [of i l f "length (raftLog l)" grow] show ?case by simp
next
  case (Suc p)
  obtain l' f' where x: "exchange grow i (l, f) = Inr (l', f')" "round_inv i l' f'"
    "raftLog l' = raftLog l"
    "(nextOf i l' = Suc (Suc p) + min MAX_APPEND_ENTRIES_BATCH (length (raftLog l) - Suc (Suc p)) \<and>
       unat (matchIndex (cluster l' ! i)) = nextOf i l' - 1 \<and>
       same_upto (nextOf i l') (raftLog l) (raftLog f')) \<or>
     (nextOf i l' = Suc p \<and> raftLog f' = raftLog f)"
    by (rule exchange_ok [OF Suc.prems]) blast
  have "\<exists>k l2 f2. k \<le> p + Suc (length (raftLog l)) \<and> rounds grow i k (l', f') = Inr (l2, f2) \<and>
    round_inv i l2 f2 \<and> raftLog l2 = raftLog l' \<and> caught_up i l2 f2"
    using x(4)
  proof (elim disjE conjE)
    assume "nextOf i l' = Suc p"
    with Suc.IH [OF x(2)] x(3) show ?thesis by simp
  next
    assume s: "nextOf i l' = Suc (Suc p) + min MAX_APPEND_ENTRIES_BATCH (length (raftLog l) - Suc (Suc p))"
      "same_upto (nextOf i l') (raftLog l) (raftLog f')"
    then have "same_upto (nextOf i l') (raftLog l') (raftLog f')"
      "length (raftLog l') - nextOf i l' \<le> length (raftLog l)"
      using x(3) by simp_all
    from rounds_forward [OF x(2) this, of grow] show ?thesis
      by (meson le_trans le_add2)
  qed
  then obtain k l2 f2 where "k \<le> p + Suc (length (raftLog l))" "rounds grow i k (l', f') = Inr (l2, f2)"
    "round_inv i l2 f2" "raftLog l2 = raftLog l'" "caught_up i l2 f2" by blast
  with x(1,3) show ?case by (intro exI [of _ "Suc k"] exI [of _ l2] exI [of _ f2]) simp
qed

text \<open>An example: a leader with one entry of its term, a follower with an empty log.\<close>

lemma round_inv_demo:
  obtains m where "durable (demo demoLog 3 1 m)" "round_inv 1
    (demo demoLog 3 1 m\<lparr>cluster := map (\<lambda>c. c\<lparr>nextIndex := 2\<rparr>) threeNodes, role := leaderState\<rparr>)
    (demo [dummyEntry] 3 1 blankDisk\<lparr>selfId := 2, clusterIndex := 1\<rparr>)"
proof -
  obtain m where d: "durable (demo demoLog 3 1 m)" by (rule demo_persisted)
  let ?l = "demo demoLog 3 1 m\<lparr>cluster := map (\<lambda>c. c\<lparr>nextIndex := 2\<rparr>) threeNodes, role := leaderState\<rparr>"
  let ?f = "demo [dummyEntry] 3 1 blankDisk\<lparr>selfId := 2, clusterIndex := 1\<rparr>"
  have l: "node_ok ?l"
    using durable_log_durable [OF d] by (simp add: node_ok_def log_durable_def threeNodes_def)
  have "resolveClusterIndex (cluster ?f) 2 = Inr 1"
    by (simp add: demo_def threeNodes_def resolveClusterIndex_def)
  moreover have "length (raftLog ?f) \<le> logCap ?f" by (simp add: demo_def)
  ultimately have f: "node_inv ?f"
    using node_ok_demo [of 3 1]
    by (simp add: node_inv_def node_ok_def loop_ok_def log_durable_def wf_command_def
        isConfigChangeCommand_def)
  have lm: "log_matching (raftLog ?l) (raftLog ?f)"
    by (rule log_matching_prefix [where n = 1]) (simp_all add: same_upto_def)
  have "round_inv 1 ?l ?f"
    unfolding round_inv_def using l f lm by (auto simp: threeNodes_def)
  with d that show thesis by blast
qed

text \<open>
  C11: Replication converges. A leader and a follower whose logs satisfy Log Matching, with the
  leader's next index for the follower anywhere in its log, exchange requests and responses:
  no round fails, and within as many rounds as the next index plus the length of the leader's
  log the follower's log agrees with the leader's whole log, the leader knows it (its match
  index is its last index), and the leader's log has not changed.
\<close>

theorem replication_converges:
  assumes "round_inv i l f"
  shows "\<exists>k l' f'. k \<le> unat (nextIndex (cluster l ! i)) + length (raftLog l) \<and>
    rounds grow i k (l, f) = Inr (l', f') \<and> round_inv i l' f' \<and> raftLog l' = raftLog l \<and>
    unat (matchIndex (cluster l' ! i)) = length (raftLog l) - 1 \<and>
    map eraseResult (take (length (raftLog l)) (raftLog f')) = map eraseResult (raftLog l)"
proof -
  obtain p where p: "nextOf i l = Suc p"
    using assms by (cases "nextOf i l") (auto simp: round_inv_def nextOf_def unat_eq_0)
  obtain k l' f' where k: "k \<le> p + Suc (length (raftLog l))" "rounds grow i k (l, f) = Inr (l', f')"
    "round_inv i l' f'" "raftLog l' = raftLog l" "caught_up i l' f'"
    using rounds_converge [OF assms p] by blast
  then have "map eraseResult (take (length (raftLog l)) (raftLog f')) = map eraseResult (raftLog l)"
    by (simp add: caught_up_def same_upto_def)
  with k p show ?thesis
    by (intro exI [of _ k] exI [of _ l'] exI [of _ f']) (simp add: caught_up_def nextOf_def)
qed

theorem replication_converges_witness:
  "\<exists>m k l' f'. durable (demo demoLog 3 1 m) \<and> k \<le> 4 \<and>
    rounds (\<lambda>_ n. n) 1 k
      (demo demoLog 3 1 m\<lparr>cluster := map (\<lambda>c. c\<lparr>nextIndex := 2\<rparr>) threeNodes, role := leaderState\<rparr>,
       demo [dummyEntry] 3 1 blankDisk\<lparr>selfId := 2, clusterIndex := 1\<rparr>) = Inr (l', f') \<and>
    unat (matchIndex (cluster l' ! 1)) = 1 \<and>
    map eraseResult (take 2 (raftLog f')) = [dummyEntry, \<lparr>Command = [1], entryTerm = 3, result = None\<rparr>]"
proof -
  let ?l = "\<lambda>m. demo demoLog 3 1 m\<lparr>cluster := map (\<lambda>c. c\<lparr>nextIndex := 2\<rparr>) threeNodes, role := leaderState\<rparr>"
  let ?f = "demo [dummyEntry] 3 1 blankDisk\<lparr>selfId := 2, clusterIndex := 1\<rparr>"
  obtain m where d: "durable (demo demoLog 3 1 m)" and inv: "round_inv 1 (?l m) ?f"
    by (rule round_inv_demo)
  from replication_converges [OF inv, of "\<lambda>_ n. n"] obtain k l' f' where
    k: "k \<le> unat (nextIndex (cluster (?l m) ! 1)) + length (raftLog (?l m))"
    "rounds (\<lambda>_ n. n) 1 k (?l m, ?f) = Inr (l', f')"
    "unat (matchIndex (cluster l' ! 1)) = length (raftLog (?l m)) - 1"
    "map eraseResult (take (length (raftLog (?l m))) (raftLog f')) = map eraseResult (raftLog (?l m))"
    by blast
  have "k \<le> 4" using k(1) by (simp add: threeNodes_def)
  moreover have "unat (matchIndex (cluster l' ! 1)) = 1" using k(3) by simp
  moreover have "map eraseResult (take 2 (raftLog f'))
      = [dummyEntry, \<lparr>Command = [1], entryTerm = 3, result = None\<rparr>]" using k(4) by simp
  ultimately show ?thesis using d k(2) by (intro exI conjI)
qed

text \<open>
  Rounds preserve Log Matching: whatever a round does, next index lowered or entries taken
  over, the two logs still satisfy it, the leader's log is unchanged, and the leader's match
  index never claims more of the follower's log than agrees with its own.
\<close>

theorem round_keeps_log_matching:
  assumes "round_inv i l f"
    and "same_upto (Suc (unat (matchIndex (cluster l ! i)))) (raftLog l) (raftLog f)"
  shows "\<exists>l' f'. exchange grow i (l, f) = Inr (l', f') \<and> raftLog l' = raftLog l \<and>
    log_matching (raftLog l') (raftLog f') \<and>
    same_upto (Suc (unat (matchIndex (cluster l' ! i)))) (raftLog l') (raftLog f')"
proof -
  obtain p where p: "nextOf i l = Suc p"
    using assms(1) by (cases "nextOf i l") (auto simp: round_inv_def nextOf_def unat_eq_0)
  obtain l' f' where x: "exchange grow i (l, f) = Inr (l', f')" "round_inv i l' f'"
    "raftLog l' = raftLog l"
    "(unat (matchIndex (cluster l' ! i)) = nextOf i l' - 1 \<and>
       same_upto (nextOf i l') (raftLog l) (raftLog f')) \<or>
     (raftLog f' = raftLog f \<and> matchIndex (cluster l' ! i) = matchIndex (cluster l ! i))"
    by (rule exchange_ok [OF assms(1) p, where grow = grow]) blast
  have "nextOf i l' \<noteq> 0" using x(2) by (simp add: round_inv_def nextOf_def unat_eq_0)
  then have "same_upto (Suc (unat (matchIndex (cluster l' ! i)))) (raftLog l') (raftLog f')"
    using x(3,4) assms(2) by auto
  moreover have "log_matching (raftLog l') (raftLog f')" using x(2) by (simp add: round_inv_def)
  ultimately show ?thesis using x(1,3) by blast
qed

theorem round_keeps_log_matching_witness:
  "\<exists>m l' f'. exchange (\<lambda>_ n. n) 1
      (demo demoLog 3 1 m\<lparr>cluster := map (\<lambda>c. c\<lparr>nextIndex := 2\<rparr>) threeNodes, role := leaderState\<rparr>,
       demo [dummyEntry] 3 1 blankDisk\<lparr>selfId := 2, clusterIndex := 1\<rparr>) = Inr (l', f') \<and>
    log_matching (raftLog l') (raftLog f')"
proof -
  obtain m where inv: "round_inv 1
      (demo demoLog 3 1 m\<lparr>cluster := map (\<lambda>c. c\<lparr>nextIndex := 2\<rparr>) threeNodes, role := leaderState\<rparr>)
      (demo [dummyEntry] 3 1 blankDisk\<lparr>selfId := 2, clusterIndex := 1\<rparr>)"
    by (rule round_inv_demo)
  have "matchIndex (cluster (demo demoLog 3 1 m\<lparr>cluster := map (\<lambda>c. c\<lparr>nextIndex := 2\<rparr>) threeNodes,
      role := leaderState\<rparr>) ! 1) = 0"
    by (simp add: threeNodes_def newMember_def)
  with round_keeps_log_matching [OF inv, of "\<lambda>_ n. n"] show ?thesis
    by (auto simp: same_upto_def simp del: One_nat_def)
qed

end
