(* ===== verification/Commit.thy ===== *)
theory Commit
  imports Leader
begin

text \<open>
  Commitment and application (\<^verbatim>\<open>advanceCommitIndex\<close>): the commit index of a leader is the
  greatest index that a majority acknowledges, what it covers is in a majority of the logs,
  and the state machine is the fold of the applied prefix of the log.
\<close>

section \<open>Counting acknowledgements\<close>

text \<open>The members that count for index \<open>i\<close>: the leader itself and those whose match index reaches it.\<close>

definition acks :: "u64 \<Rightarrow> nat \<Rightarrow> ClusterMember list \<Rightarrow> nat" where
  "acks i ci ms = card {k. k < length ms \<and> (i \<le> matchIndex (ms ! k) \<or> k = ci)}"

definition ackList :: "u64 \<Rightarrow> nat \<Rightarrow> nat \<Rightarrow> ClusterMember list \<Rightarrow> nat" where
  "ackList i ci j ms = length (filter (\<lambda>(k, m). i \<le> matchIndex m \<or> k = ci) (enumerate j ms))"

lemma countMatches_eq: "countMatches ci i j q ms = q - ackList i ci j ms"
  by (induction ms arbitrary: j q) (auto simp: ackList_def)

lemma ackList_eq: "ackList i ci 0 ms = acks i ci ms"
proof -
  have "length (filter (\<lambda>(k, m). i \<le> matchIndex m \<or> k = ci) (enumerate 0 ms))
      = card {x. x < length (enumerate 0 ms) \<and>
          (\<lambda>(k, m). i \<le> matchIndex m \<or> k = ci) (enumerate 0 ms ! x)}"
    by (rule length_filter_conv_card)
  also have "{x. x < length (enumerate 0 ms) \<and>
        (\<lambda>(k, m). i \<le> matchIndex m \<or> k = ci) (enumerate 0 ms ! x)}
      = {k. k < length ms \<and> (i \<le> matchIndex (ms ! k) \<or> k = ci)}"
    by (auto simp: nth_enumerate_eq)
  finally show ?thesis by (simp only: ackList_def acks_def)
qed

definition acked :: "('sm, 'st) Server \<Rightarrow> nat \<Rightarrow> bool" where
  "acked s i \<longleftrightarrow> majority (length (cluster s)) \<le> acks (of_nat i) (clusterIndex s) (cluster s)"

lemma countMatches_acked:
  "countMatches (clusterIndex s) (of_nat i) 0 (length (cluster s) div 2 + 1) (cluster s) = 0 \<longleftrightarrow> acked s i"
  by (simp add: countMatches_eq ackList_eq acked_def majority_def)

lemma scanCommit_Some:
  "scanCommit (cluster s) (clusterIndex s) n c = Some i \<Longrightarrow>
     c < i \<and> i \<le> n \<and> acked s i \<and> (\<forall>j. i < j \<longrightarrow> j \<le> n \<longrightarrow> \<not> acked s j)"
proof (induction n)
  case (Suc n)
  show ?case
  proof (cases "acked s (Suc n)")
    case True
    with Suc.prems show ?thesis
      unfolding scanCommit.simps countMatches_acked by (simp split: if_splits)
  next
    case False
    with Suc.prems have "scanCommit (cluster s) (clusterIndex s) n c = Some i"
      unfolding scanCommit.simps countMatches_acked by (simp split: if_splits)
    from Suc.IH [OF this] False show ?thesis by (metis le_Suc_eq)
  qed
qed simp

lemma scanCommit_None:
  "scanCommit (cluster s) (clusterIndex s) n c = None \<Longrightarrow> c < j \<Longrightarrow> j \<le> n \<Longrightarrow> \<not> acked s j"
proof (induction n)
  case (Suc n)
  show ?case
  proof (cases "c < Suc n")
    case True
    with Suc.prems(1) have n: "\<not> acked s (Suc n)" "scanCommit (cluster s) (clusterIndex s) n c = None"
      unfolding scanCommit.simps countMatches_acked by (simp_all split: if_splits)
    with Suc.IH [OF n(2) Suc.prems(2)] Suc.prems(3) show ?thesis by (metis le_Suc_eq)
  next
    case False
    with Suc.prems(2,3) show ?thesis by simp
  qed
qed simp

section \<open>The leader's commit index\<close>

lemma advanceLeaderCommit_frame:
  "\<exists>c. advanceLeaderCommit s = s\<lparr>commitIndex := c\<rparr>"
proof (cases "role s = leaderState")
  case True
  then show ?thesis
    by (cases "scanCommit (cluster s) (clusterIndex s) (unat (logLast (raftLog s))) (unat (commitIndex s))")
      (auto simp: advanceLeaderCommit_def intro: exI [of _ "commitIndex s"])
next
  case False
  then show ?thesis
    by (auto simp: advanceLeaderCommit_def intro: exI [of _ "commitIndex s"])
qed

lemma advanceLeaderCommit_ok:
  assumes "raftLog s \<noteq> []" "fits (length (raftLog s))"
  shows "\<exists>c. advanceLeaderCommit s = s\<lparr>commitIndex := c\<rparr> \<and> commitIndex s \<le> c \<and>
    (if role s = leaderState \<and> (\<exists>j. unat (commitIndex s) < j \<and> j < length (raftLog s) \<and> acked s j)
     then unat (commitIndex s) < unat c \<and> unat c < length (raftLog s) \<and> acked s (unat c) \<and>
       (\<forall>j. unat c < j \<and> j < length (raftLog s) \<longrightarrow> \<not> acked s j)
     else c = commitIndex s)"
proof (cases "role s = leaderState")
  case True
  have last: "unat (logLast (raftLog s)) = length (raftLog s) - 1" using assms by simp
  let ?r = "scanCommit (cluster s) (clusterIndex s) (length (raftLog s) - 1) (unat (commitIndex s))"
  show ?thesis
  proof (cases ?r)
    case None
    have "\<not> acked s j" if "unat (commitIndex s) < j" "j < length (raftLog s)" for j
      using scanCommit_None [OF None that(1)] that(2) by simp
    with True None last show ?thesis
      by (intro exI [of _ "commitIndex s"]) (auto simp: advanceLeaderCommit_def)
  next
    case (Some i)
    have i: "unat (commitIndex s) < i" "i < length (raftLog s)" "acked s i"
      "\<And>j. i < j \<Longrightarrow> j < length (raftLog s) \<Longrightarrow> \<not> acked s j"
      using scanCommit_Some [OF Some] assms(1) by (auto simp: Suc_le_eq less_Suc_eq_le)
    have u: "unat (of_nat i :: u64) = i"
      using i(2) assms(2) by (intro small_unat) (simp add: fits_def small_def)
    have "advanceLeaderCommit s = s\<lparr>commitIndex := of_nat i\<rparr>"
      using True Some last by (simp add: advanceLeaderCommit_def)
    moreover have "commitIndex s \<le> of_nat i" using i(1) u by (simp add: word_le_nat_alt)
    ultimately show ?thesis
      using True i u by (intro exI [of _ "of_nat i"]) auto
  qed
next
  case False
  then show ?thesis
    by (intro exI [of _ "commitIndex s"]) (simp add: advanceLeaderCommit_def)
qed

text \<open>
  C13: The leader's commit index moves to the greatest index of its log, above the present one,
  that a majority of the members acknowledges (the leader itself counts); when there is none,
  and on a node that is no leader, it stays. Nothing else changes, and it never goes back.
\<close>

theorem leader_commit_greatest:
  assumes "raftLog s \<noteq> []" "fits (length (raftLog s))"
  shows "\<exists>c. advanceLeaderCommit s = s\<lparr>commitIndex := c\<rparr> \<and> commitIndex s \<le> c \<and>
    (if role s = leaderState \<and> (\<exists>j. unat (commitIndex s) < j \<and> j < length (raftLog s) \<and> acked s j)
     then unat (commitIndex s) < unat c \<and> unat c < length (raftLog s) \<and> acked s (unat c) \<and>
       (\<forall>j. unat c < j \<and> j < length (raftLog s) \<longrightarrow> \<not> acked s j)
     else c = commitIndex s)"
  using assms by (rule advanceLeaderCommit_ok)

text \<open>The example leader with given match indices, over a log of three entries.\<close>

definition leading :: "u64 list \<Rightarrow> (unit, MemStorage) Server" where
  "leading xs = demo (demoLog @ [\<lparr>Command = [2], entryTerm = 3, result = None\<rparr>]) 3 1 blankDisk
     \<lparr>role := leaderState, cluster := map (\<lambda>(m, x). m\<lparr>matchIndex := x\<rparr>) (zip threeNodes xs)\<rparr>"

lemma leading_fields [simp]:
  "raftLog (leading xs) = demoLog @ [\<lparr>Command = [2], entryTerm = 3, result = None\<rparr>]"
  "role (leading xs) = leaderState" "commitIndex (leading xs) = 0" "clusterIndex (leading xs) = 0"
  "cluster (leading xs) = map (\<lambda>(m, x). m\<lparr>matchIndex := x\<rparr>) (zip threeNodes xs)"
  by (simp_all add: leading_def)

lemma acked_leading:
  "acked (leading [a, b, c]) i \<longleftrightarrow> of_nat i \<le> b \<or> of_nat i \<le> c"
proof -
  have "acks (of_nat i) 0 (cluster (leading [a, b, c])) =
      ackList (of_nat i) 0 0 (cluster (leading [a, b, c]))" by (simp only: ackList_eq)
  also have "\<dots> = 1 + (if of_nat i \<le> b then 1 else 0) + (if of_nat i \<le> c then 1 else 0)"
    by (simp add: ackList_def threeNodes_def)
  finally show ?thesis by (simp add: acked_def majority_def threeNodes_def)
qed

lemma commit_exact:
  assumes "raftLog s \<noteq> []" "fits (length (raftLog s))" "role s = leaderState"
    and "unat (commitIndex s) < i" "i < length (raftLog s)" "acked s i"
    and "\<forall>j. i < j \<longrightarrow> j < length (raftLog s) \<longrightarrow> \<not> acked s j"
  shows "commitIndex (advanceLeaderCommit s) = of_nat i" "unat (of_nat i :: u64) = i"
proof -
  obtain j where "scanCommit (cluster s) (clusterIndex s) (length (raftLog s) - 1)
      (unat (commitIndex s)) = Some j"
    using scanCommit_None [OF _ assms(4)] assms(5,6) by fastforce
  moreover from scanCommit_Some [OF this] have "j = i"
    using assms(1,4-7) by (metis Suc_pred diff_Suc_1 less_Suc_eq_le length_greater_0_conv linorder_neqE_nat)
  ultimately show "commitIndex (advanceLeaderCommit s) = of_nat i"
    using assms(1-3) by (simp add: advanceLeaderCommit_def)
  show "unat (of_nat i :: u64) = i"
    using assms(2,5) by (intro small_unat) (simp add: fits_def small_def)
qed

lemma acked_leading_010: "j < 3 \<Longrightarrow> acked (leading [0, 1, 0]) j \<longleftrightarrow> j \<le> 1"
  by (auto simp: acked_leading word_le_nat_alt unat_of_nat_64)

lemma leading_commits: "commitIndex (advanceLeaderCommit (leading [0, 1, 0])) = 1"
  using commit_exact(1) [of "leading [0, 1, 0]" 1] by (simp add: acked_leading_010 fits_def)

theorem leader_commit_greatest_witness:
  "\<exists>c. advanceLeaderCommit (leading [0, 1, 0]) = leading [0, 1, 0]\<lparr>commitIndex := c\<rparr> \<and> unat c = 1"
proof -
  let ?s = "leading [0, 1, 0]"
  have f: "raftLog ?s \<noteq> []" "fits (length (raftLog ?s))" by (simp_all add: fits_def)
  note a = acked_leading_010
  from leader_commit_greatest [OF f] obtain c where c: "advanceLeaderCommit ?s = ?s\<lparr>commitIndex := c\<rparr>"
    "if role ?s = leaderState \<and> (\<exists>j. unat (commitIndex ?s) < j \<and> j < length (raftLog ?s) \<and> acked ?s j)
     then unat (commitIndex ?s) < unat c \<and> unat c < length (raftLog ?s) \<and> acked ?s (unat c) \<and>
       (\<forall>j. unat c < j \<and> j < length (raftLog ?s) \<longrightarrow> \<not> acked ?s j)
     else c = commitIndex ?s" by blast
  have "\<exists>j. unat (commitIndex ?s) < j \<and> j < length (raftLog ?s) \<and> acked ?s j"
    using a [of 1] by (intro exI [of _ 1]) simp
  with c(2) have "unat (commitIndex ?s) < unat c \<and> unat c < length (raftLog ?s) \<and> acked ?s (unat c)"
    by simp
  with a [of "unat c"] have "unat c = 1" by simp
  with c(1) show ?thesis by blast
qed

text \<open>
  A committed entry is in a majority of the logs. When the leader's match indices are
  sound (each member's log agrees with the leader's up to its match index, which
  \<^verbatim>\<open>appendEntries\<close> rounds preserve), an index that the leader commits is one up to which the
  logs of a majority of the members, the leader's included, agree with the leader's log.
\<close>

theorem committed_on_majority:
  assumes "raftLog s \<noteq> []" "fits (length (raftLog s))" "role s = leaderState"
    and "clusterIndex s < length (cluster s)" "logs (clusterIndex s) = raftLog s"
    and "\<forall>k < length (cluster s). k \<noteq> clusterIndex s \<longrightarrow>
      same_upto (Suc (unat (matchIndex (cluster s ! k)))) (raftLog s) (logs k)"
    and "commitIndex (advanceLeaderCommit s) \<noteq> commitIndex s"
  shows "majority (length (cluster s)) \<le> card {k. k < length (cluster s) \<and>
    same_upto (Suc (unat (commitIndex (advanceLeaderCommit s)))) (raftLog s) (logs k)}"
proof -
  let ?c = "commitIndex (advanceLeaderCommit s)"
  obtain i where i: "scanCommit (cluster s) (clusterIndex s) (length (raftLog s) - 1)
      (unat (commitIndex s)) = Some i" "?c = of_nat i"
    using assms(1-3,7)
    by (cases "scanCommit (cluster s) (clusterIndex s) (length (raftLog s) - 1) (unat (commitIndex s))")
      (auto simp: advanceLeaderCommit_def)
  have a: "acked s i" "i < length (raftLog s)"
    using scanCommit_Some [OF i(1)] assms(1) by (auto simp: less_Suc_eq_le Suc_le_eq)
  have u: "unat ?c = i"
    unfolding i(2) using a(2) assms(2) by (intro small_unat) (simp add: fits_def small_def)
  have "majority (length (cluster s)) \<le> card {k. k < length (cluster s) \<and>
      (of_nat i \<le> matchIndex (cluster s ! k) \<or> k = clusterIndex s)}"
    using a(1) by (simp add: acked_def acks_def)
  also have "\<dots> \<le> card {k. k < length (cluster s) \<and> same_upto (Suc (unat ?c)) (raftLog s) (logs k)}"
  proof (rule card_mono)
    show "finite {k. k < length (cluster s) \<and> same_upto (Suc (unat ?c)) (raftLog s) (logs k)}"
      by simp
    have "same_upto (Suc (unat ?c)) (raftLog s) (logs k)"
      if k: "k < length (cluster s)" "of_nat i \<le> matchIndex (cluster s ! k) \<or> k = clusterIndex s" for k
    proof (cases "k = clusterIndex s")
      case True
      with assms(5) show ?thesis by (simp add: same_upto_def)
    next
      case False
      with k have "of_nat i \<le> matchIndex (cluster s ! k)" by blast
      then have "unat (of_nat i :: u64) \<le> unat (matchIndex (cluster s ! k))"
        by (simp only: word_le_nat_alt)
      then have "Suc (unat ?c) \<le> Suc (unat (matchIndex (cluster s ! k)))" by (simp add: i(2))
      with False k(1) assms(6) show ?thesis by (blast intro: same_upto_mono)
    qed
    then show "{k. k < length (cluster s) \<and> (of_nat i \<le> matchIndex (cluster s ! k) \<or> k = clusterIndex s)}
        \<subseteq> {k. k < length (cluster s) \<and> same_upto (Suc (unat ?c)) (raftLog s) (logs k)}" by blast
  qed
  finally show ?thesis .
qed

theorem committed_on_majority_witness:
  "\<exists>logs :: nat \<Rightarrow> Entry list. logs 0 = raftLog (leading [0, 1, 0]) \<and> logs 1 = demoLog \<and> logs 2 = [dummyEntry] \<and>
    2 \<le> card {k. k < 3 \<and> same_upto 2 (raftLog (leading [0, 1, 0])) (logs k)}"
proof -
  let ?s = "leading [0, 1, 0]"
  let ?logs = "\<lambda>k :: nat. if k = 0 then raftLog ?s else if k = 1 then demoLog else [dummyEntry]"
  have "\<forall>k < length (cluster ?s). k \<noteq> clusterIndex ?s \<longrightarrow>
      same_upto (Suc (unat (matchIndex (cluster ?s ! k)))) (raftLog ?s) (?logs k)"
    by (auto simp: same_upto_def threeNodes_def less_Suc_eq numeral_2_eq_2)
  moreover have "commitIndex (advanceLeaderCommit ?s) \<noteq> commitIndex ?s"
    by (simp add: leading_commits)
  ultimately have "majority (length (cluster ?s)) \<le> card {k. k < length (cluster ?s) \<and>
      same_upto (Suc (unat (commitIndex (advanceLeaderCommit ?s)))) (raftLog ?s) (?logs k)}"
    by (intro committed_on_majority) (simp_all add: threeNodes_def fits_def)
  moreover have "length (cluster ?s) = 3" "majority 3 = 2"
    "Suc (unat (commitIndex (advanceLeaderCommit ?s))) = 2"
    by (simp_all add: threeNodes_def majority_def leading_commits)
  ultimately have "2 \<le> card {k. k < 3 \<and> same_upto 2 (raftLog ?s) (?logs k)}"
    by (simp only:)
  then show ?thesis by (intro exI [of _ ?logs] conjI) simp_all
qed

text \<open>
  Entries of earlier terms are committed by counting. Raft commits by counting only entries
  of the leader's own term; \<^verbatim>\<open>advanceCommitIndex\<close> does not look at the entry: a leader whose
  majority acknowledges exactly up to an entry of an earlier term commits that entry.
\<close>

theorem commits_earlier_term:
  assumes "raftLog s \<noteq> []" "fits (length (raftLog s))" "role s = leaderState"
    and "unat (commitIndex s) < i" "i < length (raftLog s)" "acked s i"
    and "\<forall>j. i < j \<longrightarrow> j < length (raftLog s) \<longrightarrow> \<not> acked s j"
    and "entryTerm (raftLog s ! i) < currentTerm s"
  shows "unat (commitIndex (advanceLeaderCommit s)) = i \<and>
    entryTerm (raftLog s ! unat (commitIndex (advanceLeaderCommit s))) < currentTerm s"
  using commit_exact [OF assms(1-7)] assms(8) by simp

theorem commits_earlier_term_witness:
  "unat (commitIndex (advanceLeaderCommit (leading [0, 1, 0]\<lparr>currentTerm := 5\<rparr>))) = 1"
proof -
  let ?s = "leading [0, 1, 0]\<lparr>currentTerm := 5\<rparr>"
  have ack: "acked ?s j = acked (leading [0, 1, 0]) j" for j by (simp add: acked_def)
  have a: "acked ?s j \<longleftrightarrow> j \<le> 1" if "j < 3" for j
    using that unfolding ack by (rule acked_leading_010)
  have "\<forall>j. 1 < j \<longrightarrow> j < length (raftLog ?s) \<longrightarrow> \<not> acked ?s j" using a by simp
  moreover have "acked ?s 1" using a [of 1] by simp
  ultimately show ?thesis
    using commits_earlier_term [of ?s 1] by (simp add: fits_def demoLog_def)
qed

text \<open>
  C23: A stale response commits. The response handler of \<^verbatim>\<open>appendEntries\<close> compares the response's
  term with that of its request: a success from an earlier term, in which the follower had the
  entries, raises the match index of a leader of a later term, whatever the follower's log is
  by now; if one acknowledgement was missing, the next \<^verbatim>\<open>advanceCommitIndex\<close> commits up to it.
\<close>

theorem stale_append_response_counts:
  assumes "fits (length (raftLog s))" "i < length (cluster s)" "i \<noteq> clusterIndex s" "role s = leaderState"
    and "Term req < currentTerm s" "Term rsp = Term req" "Success rsp"
    and "unat (PrevLogIndex req) + length (Entries req) = n" "n < length (raftLog s)"
    and "unat (commitIndex s) < n" "unat (matchIndex (cluster s ! i)) < n"
    and "acks (of_nat n) (clusterIndex s) (cluster s) + 1 = majority (length (cluster s))"
  shows "\<exists>s1. handleAppendResponse i req rsp s = Inr s1 \<and>
    n \<le> unat (commitIndex (advanceLeaderCommit s1))"
proof -
  let ?next = "max (PrevLogIndex req + of_nat (length (Entries req)) + 1) 1"
  let ?m = "(cluster s ! i)\<lparr>nextIndex := ?next, matchIndex := ?next - 1\<rparr>"
  let ?s1 = "s\<lparr>cluster := (cluster s)[i := ?m]\<rparr>"
  have f: "raftLog s \<noteq> []" "fits (length (raftLog s))" using assms(1,9) by auto
  have sm: "unat (of_nat n :: u64) = n" "small (Suc n)"
    using f(2) assms(9) by (auto simp: fits_def small_def intro: small_unat)
  have "PrevLogIndex req = of_nat (unat (PrevLogIndex req))" by simp
  then have "PrevLogIndex req + of_nat (length (Entries req)) + 1 = of_nat (Suc n)"
    using assms(8) by (metis of_nat_add of_nat_Suc add.commute)
  moreover have "(1 :: u64) \<le> of_nat (Suc n)"
    using sm(2) by (simp only: word_le_nat_alt small_unat unat_1)
  ultimately have "?next = of_nat (Suc n)" by (simp only: max_absorb1)
  then have mi: "matchIndex ?m = of_nat n" by simp
  have "\<not> currentTerm s < Term rsp" using assms(5,6) by (metis order.asym)
  then have u: "updateTerm rsp s = Inr (False, s)" by (simp add: updateTerm_def)
  have "handleAppendResponse i req rsp s = Inr ?s1"
    using u assms(2,6,7) by (simp add: handleAppendResponse_def Let_def)
  moreover have "n \<le> unat (commitIndex (advanceLeaderCommit ?s1))"
  proof -
    have old: "\<not> of_nat n \<le> matchIndex (cluster s ! i)"
      using assms(11) sm(1) by (simp add: word_le_nat_alt)
    have "{k. k < length (cluster ?s1) \<and> (of_nat n \<le> matchIndex (cluster ?s1 ! k) \<or> k = clusterIndex s)}
        = insert i {k. k < length (cluster s) \<and> (of_nat n \<le> matchIndex (cluster s ! k) \<or> k = clusterIndex s)}"
      using assms(2) mi by (auto simp: nth_list_update)
    then have "acks (of_nat n) (clusterIndex s) (cluster ?s1) = acks (of_nat n) (clusterIndex s) (cluster s) + 1"
      using old assms(3) by (simp add: acks_def)
    then have ack: "acked ?s1 n" using assms(12) by (simp add: acked_def)
    obtain j where j: "scanCommit (cluster ?s1) (clusterIndex ?s1) (length (raftLog ?s1) - 1)
        (unat (commitIndex ?s1)) = Some j"
      using scanCommit_None [of ?s1 "length (raftLog s) - 1" "unat (commitIndex s)" n] ack assms(9,10)
      by fastforce
    have "n \<le> j" "j < length (raftLog s)"
      using scanCommit_Some [OF j] ack assms(9) f(1) by (auto simp: not_less [symmetric] Suc_le_eq)
    moreover from this have "unat (of_nat j :: u64) = j"
      using f(2) by (intro small_unat) (simp add: fits_def small_def)
    ultimately show ?thesis using j f assms(4) by (simp add: advanceLeaderCommit_def)
  qed
  ultimately show ?thesis by blast
qed

theorem stale_append_response_counts_witness:
  "\<exists>s1. handleAppendResponse 1 \<lparr>Term = 2, LeaderId = 1, PrevLogIndex = 0, PrevLogTerm = 0,
      Entries = [\<lparr>Command = [1], entryTerm = 2, result = None\<rparr>], LeaderCommit = 0\<rparr>
      \<lparr>Term = 2, Success = True\<rparr> (leading [0, 0, 0]) = Inr s1 \<and>
    1 \<le> unat (commitIndex (advanceLeaderCommit s1))"
proof -
  let ?s = "leading [0, 0, 0]"
  let ?req = "\<lparr>Term = 2, LeaderId = 1, PrevLogIndex = 0, PrevLogTerm = 0,
      Entries = [\<lparr>Command = [1], entryTerm = 2, result = None\<rparr>], LeaderCommit = 0\<rparr> :: AppendEntriesRequest"
  have "acks 1 0 (cluster ?s) = ackList 1 0 0 (cluster ?s)" by (simp only: ackList_eq)
  also have "\<dots> = 1" by (simp add: ackList_def threeNodes_def)
  finally have a: "acks (of_nat 1) (clusterIndex ?s) (cluster ?s) + 1 = majority (length (cluster ?s))"
    by (simp add: majority_def threeNodes_def)
  have t: "currentTerm ?s = 3" by (simp add: leading_def)
  show ?thesis
    by (rule stale_append_response_counts [OF _ _ _ _ _ _ _ _ _ _ _ a])
      (simp_all add: t threeNodes_def fits_def newMember_def)
qed

end
