(* ===== verification/Application.thy ===== *)
theory Application
  imports Commit
begin

text \<open>
  The client's side: \<^verbatim>\<open>Apply\<close> appends the client's commands, the main loop applies committed
  entries one at a time and sends the results back. The state machine is a parameter of the
  server; its contract is the locale \<open>state_machine\<close>.
\<close>

section \<open>The contract of a state machine\<close>

text \<open>
  What the server relies on: the commands a client submits are not empty, are not taken for
  config changes, fit a log entry, and are applied without a panic.
\<close>

locale state_machine =
  fixes apply_cmd :: "'sm \<Rightarrow> bytes \<Rightarrow> panic + ((bytes \<times> string option) \<times> 'sm)"
    and submitted :: "bytes \<Rightarrow> bool"
  assumes total: "submitted c \<Longrightarrow> \<exists>r y. apply_cmd x c = Inr (r, y)"
    and client: "submitted c \<Longrightarrow> c \<noteq> [] \<and> \<not> isConfigChangeCommand c"
    and short: "submitted c \<Longrightarrow> length c \<le> ENTRY_SIZE - ENTRY_HEADER"

text \<open>The fold over the commands of a log: no-ops and config changes do not reach the machine.\<close>

fun applyLog ::
  "('sm \<Rightarrow> bytes \<Rightarrow> panic + ((bytes \<times> string option) \<times> 'sm)) \<Rightarrow> 'sm \<Rightarrow> Entry list \<Rightarrow> panic + 'sm" where
  "applyLog f x [] = Inr x"
| "applyLog f x (e # es) =
     (if Command e = [] \<or> isConfigChangeCommand (Command e) then applyLog f x es
      else chain (f x (Command e)) (\<lambda>(_, y). applyLog f y es))"

text \<open>The answers to a sequence of client commands.\<close>

fun answers ::
  "('sm \<Rightarrow> bytes \<Rightarrow> panic + ((bytes \<times> string option) \<times> 'sm)) \<Rightarrow> 'sm \<Rightarrow> bytes list
     \<Rightarrow> panic + (ApplyResult list \<times> 'sm)" where
  "answers f x [] = Inr ([], x)"
| "answers f x (c # cs) =
     chain (f x c) (\<lambda>((res, err), y). chain (answers f y cs) (\<lambda>(rs, z).
       Inr (\<lparr>Result = res, Error = err\<rparr> # rs, z)))"

text \<open>
  What comes of any sequence of commands: a no-op is never answered, a config change is answered
  with nothing and does not reach the machine, every other command is answered by the machine.
\<close>

fun outcomes ::
  "('sm \<Rightarrow> bytes \<Rightarrow> panic + ((bytes \<times> string option) \<times> 'sm)) \<Rightarrow> 'sm \<Rightarrow> bytes list
     \<Rightarrow> panic + (ApplyResult option list \<times> 'sm)" where
  "outcomes f x [] = Inr ([], x)"
| "outcomes f x (c # cs) =
     (if c = [] then chain (outcomes f x cs) (\<lambda>(rs, z). Inr (None # rs, z))
      else if isConfigChangeCommand c
      then chain (outcomes f x cs) (\<lambda>(rs, z). Inr (Some \<lparr>Result = [], Error = None\<rparr> # rs, z))
      else chain (f x c) (\<lambda>((res, err), y). chain (outcomes f y cs) (\<lambda>(rs, z).
        Inr (Some \<lparr>Result = res, Error = err\<rparr> # rs, z))))"

lemma outcomes_answers:
  assumes "\<forall>c \<in> set cs. c \<noteq> [] \<and> \<not> isConfigChangeCommand c" "answers f x cs = Inr (rs, y)"
  shows "outcomes f x cs = Inr (map Some rs, y)"
  using assms
proof (induction cs arbitrary: x rs)
  case (Cons c cs)
  then obtain res err z rs' where a: "f x c = Inr ((res, err), z)" "answers f z cs = Inr (rs', y)"
    "rs = \<lparr>Result = res, Error = err\<rparr> # rs'" by (auto simp: chain_Inr_iff)
  with Cons.IH [OF _ a(2)] Cons.prems(1) show ?case by simp
qed simp

context state_machine
begin

lemma applyLog_total:
  "\<forall>e \<in> set es. Command e = [] \<or> isConfigChangeCommand (Command e) \<or> submitted (Command e) \<Longrightarrow>
     \<exists>y. applyLog apply_cmd x es = Inr y"
proof (induction es arbitrary: x)
  case (Cons e es)
  show ?case
  proof (cases "Command e = [] \<or> isConfigChangeCommand (Command e)")
    case True
    with Cons show ?thesis by simp
  next
    case False
    with Cons.prems have "submitted (Command e)" by simp
    then obtain r y where "apply_cmd x (Command e) = Inr (r, y)" using total by blast
    with False Cons show ?thesis by auto
  qed
qed simp

lemma answers_total:
  "\<forall>c \<in> set cs. submitted c \<Longrightarrow> \<exists>rs y. answers apply_cmd x cs = Inr (rs, y) \<and> length rs = length cs"
proof (induction cs arbitrary: x)
  case (Cons c cs)
  then obtain res err y where "apply_cmd x c = Inr ((res, err), y)"
    using total [of c x] by auto
  moreover obtain rs z where "answers apply_cmd y cs = Inr (rs, z)" "length rs = length cs"
    using Cons.IH [of y] Cons.prems by (meson list.set_intros(2))
  ultimately show ?case by simp
qed simp

lemma submitted_entries:
  assumes "\<forall>c \<in> set cs. submitted c"
  shows "\<forall>c \<in> set cs. c \<noteq> [] \<and> \<not> isConfigChangeCommand c \<and> length c \<le> 112"
  using assms client short by auto

end

interpretation noop: state_machine "sm_Apply noopStateMachine"
  "\<lambda>c. c \<noteq> [] \<and> \<not> isConfigChangeCommand c \<and> length c \<le> 112"
  by unfold_locales (auto simp: noopStateMachine_def)

lemma applyLog_append: "applyLog f x (es @ es') = chain (applyLog f x es) (\<lambda>y. applyLog f y es')"
proof (induction es arbitrary: x)
  case (Cons e es)
  then show ?case by (cases "f x (Command e)") auto
qed simp

lemma applyLog_commands: "map Command es = map Command es' \<Longrightarrow> applyLog f x es = applyLog f x es'"
proof (induction es arbitrary: x es')
  case (Cons e es)
  then obtain e' es2 where es': "es' = e' # es2" "Command e' = Command e" "map Command es = map Command es2"
    by (cases es') auto
  show ?case unfolding es'(1) applyLog.simps es'(2) Cons.IH [OF es'(3)] ..
qed simp

section \<open>One step of application\<close>

lemma advance_idle:
  assumes "raftLog s \<noteq> []" "fits (length (raftLog s))" "advanceLeaderCommit s = s\<lparr>commitIndex := c\<rparr>"
    "\<not> lastApplied s \<le> c"
  shows "advanceCommitIndex s = Inr (s\<lparr>commitIndex := c\<rparr>)"
  using assms by (simp add: advanceCommitIndex_def)

lemma advance_step:
  assumes "advanceLeaderCommit s = s\<lparr>commitIndex := c\<rparr>" "lastApplied s \<le> c"
    "unat (lastApplied s) < length (raftLog s)"
    "applyEntry (raftLog s ! unat (lastApplied s)) (s\<lparr>commitIndex := c\<rparr>) = Inr s2"
  shows "advanceCommitIndex s = Inr (s2\<lparr>lastApplied := lastApplied s2 + 1\<rparr>)"
  using assms by (simp add: advanceCommitIndex_def not_le [symmetric])

text \<open>What one application changes.\<close>

lemma applyEntry_frame:
  assumes "applyEntry e s = Inr s'"
  shows "raftLog s' = raftLog s" "lastApplied s' = lastApplied s" "commitIndex s' = commitIndex s"
    "role s' = role s" "cluster s' = cluster s" "clusterIndex s' = clusterIndex s"
    "currentTerm s' = currentTerm s" "storage s' = storage s" "heartbeatMs s' = heartbeatMs s"
    "sm_Apply (statemachine s') = sm_Apply (statemachine s)" "logCap s' = logCap s"
    "selfId s' = selfId s" "baseCluster s' = baseCluster s" "nextChan s' = nextChan s"
    "applyLog (sm_Apply (statemachine s)) (sm (statemachine s)) [e] = Inr (sm (statemachine s'))"
  using assms
  by (auto simp: applyEntry_def deliver_def split: if_splits option.splits sum.splits)

definition applied_ok :: "'sm \<Rightarrow> ('sm, 'st) Server \<Rightarrow> bool" where
  "applied_ok x0 s \<longleftrightarrow> raftLog s \<noteq> [] \<and> fits (length (raftLog s)) \<and>
     applyLog (sm_Apply (statemachine s)) x0 (take (unat (lastApplied s)) (raftLog s))
       = Inr (sm (statemachine s)) \<and> unat (lastApplied s) \<le> length (raftLog s)"

lemma advance_applied_ok:
  assumes "applied_ok x0 s" "advanceCommitIndex s = Inr s'"
  shows "applied_ok x0 s' \<and> raftLog s' = raftLog s \<and>
    sm_Apply (statemachine s') = sm_Apply (statemachine s) \<and> commitIndex s \<le> commitIndex s' \<and>
    (lastApplied s' = lastApplied s \<or> lastApplied s' = lastApplied s + 1 \<and> lastApplied s \<le> commitIndex s')"
proof -
  have ne: "raftLog s \<noteq> []" and f: "fits (length (raftLog s))"
    using assms(1) by (auto simp: applied_ok_def)
  obtain c where c: "advanceLeaderCommit s = s\<lparr>commitIndex := c\<rparr>" "commitIndex s \<le> c"
    using advanceLeaderCommit_ok [OF ne f] by blast
  show ?thesis
  proof (cases "lastApplied s \<le> c")
    case False
    with assms(2) advance_idle [OF ne f c(1)] have "s' = s\<lparr>commitIndex := c\<rparr>" by simp
    with assms(1) c(2) show ?thesis by (simp add: applied_ok_def)
  next
    case True
    let ?e = "raftLog s ! unat (lastApplied s)"
    obtain s2 where s2: "applyEntry ?e (s\<lparr>commitIndex := c\<rparr>) = Inr s2"
      "s' = s2\<lparr>lastApplied := lastApplied s2 + 1\<rparr>" "unat (lastApplied s) < length (raftLog s)"
      using assms(2) c(1) True
      by (auto simp: advanceCommitIndex_def chain_Inr_iff Let_def split: if_splits)
    note fr = applyEntry_frame [OF s2(1)]
    have "unat (lastApplied s + 1) = Suc (unat (lastApplied s))"
      using s2(3) f by (intro unat_add_one) (simp add: fits_def)
    moreover have "take (Suc (unat (lastApplied s))) (raftLog s)
        = take (unat (lastApplied s)) (raftLog s) @ [?e]"
      by (rule take_Suc_conv_app_nth [OF s2(3)])
    moreover have "applyLog (sm_Apply (statemachine s)) (sm (statemachine s)) [?e]
        = Inr (sm (statemachine s2))" using fr(15) by simp
    ultimately have "applied_ok x0 s'"
      using assms(1) s2(2,3) fr(1,2,10) by (simp add: applied_ok_def applyLog_append del: applyLog.simps)
    with s2(2) fr(1,2,3,10) c(2) True show ?thesis by simp
  qed
qed

fun advanceRun :: "nat \<Rightarrow> ('sm, 'st) Server \<Rightarrow> ('sm, 'st) fault + ('sm, 'st) Server" where
  "advanceRun 0 s = Inr s"
| "advanceRun (Suc n) s = chain (advanceCommitIndex s) (advanceRun n)"

lemma advanceRun_applied_ok:
  "applied_ok x0 s \<Longrightarrow> advanceRun n s = Inr s' \<Longrightarrow>
     applied_ok x0 s' \<and> raftLog s' = raftLog s \<and> sm_Apply (statemachine s') = sm_Apply (statemachine s)"
proof (induction n arbitrary: s)
  case (Suc n)
  from Suc.prems(2) obtain s1 where "advanceCommitIndex s = Inr s1" "advanceRun n s1 = Inr s'"
    by (auto simp: chain_Inr_iff)
  with advance_applied_ok [OF Suc.prems(1)] Suc.IH [of s1] show ?case by simp
qed simp

text \<open>
  C14: The state machine is the fold of the applied prefix of the log, in order, each command
  once: from a server that has applied nothing, any number of \<^verbatim>\<open>advanceCommitIndex\<close> steps that
  return keep the log and leave a machine state that is the initial one with the commands of
  the first \<^verbatim>\<open>lastApplied\<close> entries applied, where no-ops and config changes are skipped.
\<close>

theorem machine_is_fold_of_log:
  assumes "raftLog s \<noteq> []" "fits (length (raftLog s))" "lastApplied s = 0"
    and "advanceRun n s = Inr s'"
  shows "raftLog s' = raftLog s \<and> unat (lastApplied s') \<le> length (raftLog s) \<and>
    applyLog (sm_Apply (statemachine s)) (sm (statemachine s)) (take (unat (lastApplied s')) (raftLog s))
      = Inr (sm (statemachine s'))"
proof -
  have "applied_ok (sm (statemachine s)) s" using assms(1-3) by (simp add: applied_ok_def)
  from advanceRun_applied_ok [OF this assms(4)] show ?thesis by (auto simp: applied_ok_def)
qed

lemma demo_applies:
  obtains s' where "advanceRun 2 (demo demoLog t v m\<lparr>commitIndex := 1\<rparr>) = Inr s'" "lastApplied s' = 2"
proof -
  obtain s' where "advanceRun (Suc (Suc 0)) (demo demoLog t v m\<lparr>commitIndex := 1\<rparr>) = Inr s'" "lastApplied s' = 2"
    by (simp add: advanceCommitIndex_def advanceLeaderCommit_def applyEntry_def deliver_def Let_def
        demoLog_def demo_def noopStateMachine_def isConfigChangeCommand_def configChangeMarker_def)
  with that show thesis by (simp only: numeral_2_eq_2)
qed

theorem machine_is_fold_of_log_witness:
  "\<exists>s'. advanceRun 2 (demo demoLog 3 1 blankDisk\<lparr>commitIndex := 1\<rparr>) = Inr s' \<and>
    unat (lastApplied s') \<le> 2 \<and> raftLog s' = demoLog"
proof -
  let ?s = "demo demoLog 3 1 blankDisk\<lparr>commitIndex := 1\<rparr>"
  obtain s' where s': "advanceRun 2 ?s = Inr s'" by (rule demo_applies)
  have "lastApplied ?s = 0" by (simp add: demo_def)
  from machine_is_fold_of_log [OF _ _ this s'] s' show ?thesis by auto
qed

text \<open>
  State machine safety, as far as the log gives it: two servers that start from the same
  machine state, have applied the same number of entries and whose logs agree on those entries
  are in the same machine state, whatever steps they took.
\<close>

theorem same_log_same_machine:
  assumes "raftLog s \<noteq> []" "fits (length (raftLog s))" "lastApplied s = 0"
    and "raftLog t \<noteq> []" "fits (length (raftLog t))" "lastApplied t = 0"
    and "sm_Apply (statemachine t) = sm_Apply (statemachine s)" "sm (statemachine t) = sm (statemachine s)"
    and "advanceRun n s = Inr s'" "advanceRun m t = Inr t'" "lastApplied t' = lastApplied s'"
    and "same_upto (unat (lastApplied s')) (raftLog s) (raftLog t)"
  shows "sm (statemachine t') = sm (statemachine s')"
proof -
  have 1: "applied_ok (sm (statemachine s)) s" using assms(1-3) by (simp add: applied_ok_def)
  have 2: "applied_ok (sm (statemachine s)) t" using assms(4-6,8) by (simp add: applied_ok_def)
  let ?k = "unat (lastApplied s')"
  have "map (Command \<circ> eraseResult) (take ?k (raftLog s)) = map (Command \<circ> eraseResult) (take ?k (raftLog t))"
    using assms(12) unfolding same_upto_def by (metis map_map)
  then have "map Command (take ?k (raftLog s)) = map Command (take ?k (raftLog t))"
    by (simp add: comp_def)
  then have "applyLog (sm_Apply (statemachine s)) (sm (statemachine s)) (take ?k (raftLog s))
      = applyLog (sm_Apply (statemachine s)) (sm (statemachine s)) (take ?k (raftLog t))"
    by (rule applyLog_commands)
  moreover have "applyLog (sm_Apply (statemachine s)) (sm (statemachine s)) (take ?k (raftLog s))
      = Inr (sm (statemachine s'))"
    using advanceRun_applied_ok [OF 1 assms(9)] by (auto simp: applied_ok_def)
  moreover have "applyLog (sm_Apply (statemachine s)) (sm (statemachine s)) (take ?k (raftLog t))
      = Inr (sm (statemachine t'))"
    using advanceRun_applied_ok [OF 2 assms(10)] assms(7,11) by (auto simp: applied_ok_def)
  ultimately show ?thesis by simp
qed

theorem same_log_same_machine_witness:
  "\<exists>s' t'. advanceRun 2 (demo demoLog 3 1 blankDisk\<lparr>commitIndex := 1\<rparr>) = Inr s' \<and>
    advanceRun 2 (demo demoLog 4 2 NewMemStorage\<lparr>commitIndex := 1\<rparr>) = Inr t' \<and>
    sm (statemachine t') = sm (statemachine s')"
proof -
  let ?s = "demo demoLog 3 1 blankDisk\<lparr>commitIndex := 1\<rparr>"
  let ?t = "demo demoLog 4 2 NewMemStorage\<lparr>commitIndex := 1\<rparr>"
  obtain s' where s': "advanceRun 2 ?s = Inr s'" "lastApplied s' = 2" by (rule demo_applies)
  obtain t' where t': "advanceRun 2 ?t = Inr t'" "lastApplied t' = 2" by (rule demo_applies)
  have "sm (statemachine t') = sm (statemachine s')"
    by (rule same_log_same_machine [OF _ _ _ _ _ _ _ _ s'(1) t'(1)])
      (simp_all add: demo_def s'(2) t'(2) same_upto_def)
  with s'(1) t'(1) show ?thesis by blast
qed

section \<open>Apply\<close>

text \<open>The entries that \<^verbatim>\<open>Apply\<close> appends, with the channels from \<open>ch\<close> on.\<close>

definition clientEntries :: "u64 \<Rightarrow> nat \<Rightarrow> bytes list \<Rightarrow> Entry list" where
  "clientEntries t ch cs =
     map (\<lambda>(k, c). \<lparr>Command = c, entryTerm = t, result = Some k\<rparr>) (enumerate ch cs)"

lemma clientEntries_simps [simp]:
  "clientEntries t ch [] = []"
  "clientEntries t ch (c # cs) = \<lparr>Command = c, entryTerm = t, result = Some ch\<rparr> # clientEntries t (Suc ch) cs"
  "length (clientEntries t ch cs) = length cs"
  by (simp_all add: clientEntries_def)

lemma clientEntries_commands: "map Command (clientEntries t ch cs) = cs"
  by (induction cs arbitrary: ch) auto

lemma appendCommands_ok:
  "\<exists>cap. appendCommands grow cs s = ([nextChan s..<nextChan s + length cs],
     s\<lparr>nextChan := nextChan s + length cs,
       raftLog := raftLog s @ clientEntries (currentTerm s) (nextChan s) cs, logCap := cap\<rparr>) \<and>
     (length (raftLog s) \<le> logCap s \<longrightarrow> length (raftLog s) + length cs \<le> cap)"
proof (induction cs arbitrary: s)
  case Nil
  have "s\<lparr>nextChan := nextChan s, raftLog := raftLog s, logCap := logCap s\<rparr> = s" by simp
  then show ?case by (intro exI [of _ "logCap s"]) simp
next
  case (Cons c cs)
  let ?s1 = "appendLog grow [\<lparr>Command = c, entryTerm = currentTerm s, result = Some (nextChan s)\<rparr>]
    (s\<lparr>nextChan := Suc (nextChan s)\<rparr>)"
  from Cons.IH [of ?s1] obtain cap where cap: "appendCommands grow cs ?s1
      = ([nextChan ?s1..<nextChan ?s1 + length cs],
         ?s1\<lparr>nextChan := nextChan ?s1 + length cs,
           raftLog := raftLog ?s1 @ clientEntries (currentTerm ?s1) (nextChan ?s1) cs, logCap := cap\<rparr>)"
    "length (raftLog ?s1) \<le> logCap ?s1 \<longrightarrow> length (raftLog ?s1) + length cs \<le> cap"
    by blast
  have "length (raftLog s) \<le> logCap s \<Longrightarrow> length (raftLog s) + length (c # cs) \<le> cap"
    using cap(2) by (simp add: appendLog_def appendCap_def)
  have "[nextChan s..<nextChan s + length (c # cs)]
      = nextChan s # [Suc (nextChan s)..<Suc (nextChan s) + length cs]"
    by (simp add: upt_rec)
  with cap(1) show ?case
    using \<open>length (raftLog s) \<le> logCap s \<Longrightarrow> length (raftLog s) + length (c # cs) \<le> cap\<close>
    by (intro exI [of _ cap]) (simp add: appendLocked_def appendLog_def Let_def)
qed

lemma persist_nextChan: "persist w k s = Inr s' \<Longrightarrow> nextChan s' = nextChan s"
  by (auto simp: persist_def Let_def split: option.splits sum.splits prod.splits if_splits)

lemma Apply_nextChan:
  "Apply grow cs s = Inr (Inr (chs, peers), s') \<Longrightarrow> nextChan s' = nextChan s + length cs"
  using appendCommands_ok [of grow cs s]
  by (auto simp: Apply_def chain_Inr_iff Let_def split: if_splits dest!: persist_nextChan)

lemma entry_ok_client:
  "\<forall>c \<in> set cs. length c \<le> 112 \<Longrightarrow> \<forall>e \<in> set (clientEntries t ch cs). entry_ok e"
  by (induction cs arbitrary: ch) (auto simp: entry_ok_def)

lemma Apply_leader:
  assumes "node_ok s" "role s = leaderState" "cs \<noteq> []" "\<forall>c \<in> set cs. length c \<le> 112"
    "fits (length (raftLog s) + length cs)"
  obtains s' where "Apply grow cs s = Inr (Inr ([nextChan s..<nextChan s + length cs], appendEntries s'), s')"
    "node_ok s'" "durable s'" "complete s'" "role s' = leaderState"
    "raftLog s' = raftLog s @ clientEntries (currentTerm s) (nextChan s) cs"
    "statemachine s' = statemachine s" "delivered s' = delivered s" "lastApplied s' = lastApplied s"
    "commitIndex s' = commitIndex s" "cluster s' = cluster s" "clusterIndex s' = clusterIndex s"
    "pendingConfigChangeIndex s' = pendingConfigChangeIndex s" "currentTerm s' = currentTerm s"
    "selfId s' = selfId s" "baseCluster s' = baseCluster s"
    "length (raftLog s) \<le> logCap s \<longrightarrow> length (raftLog s') \<le> logCap s'"
proof -
  let ?new = "clientEntries (currentTerm s) (nextChan s) cs"
  obtain cap where cap: "appendCommands grow cs s = ([nextChan s..<nextChan s + length cs],
     s\<lparr>nextChan := nextChan s + length cs, raftLog := raftLog s @ ?new, logCap := cap\<rparr>)"
    "length (raftLog s) \<le> logCap s \<longrightarrow> length (raftLog s) + length cs \<le> cap"
    using appendCommands_ok by blast
  let ?s1 = "s\<lparr>nextChan := nextChan s + length cs, raftLog := raftLog s @ ?new, logCap := cap\<rparr>"
  have ld: "log_durable (?s1\<lparr>raftLog := raftLog s\<rparr>)"
    using assms(1) by (simp add: node_ok_def log_durable_def)
  have v: "getVotedFor ?s1 = Inr (ownVote s)"
    using assms(1) by (simp add: getVotedFor_def node_ok_def ownVote_def)
  obtain m' where m': "persist True (int (length cs)) ?s1 = Inr (?s1\<lparr>storage := Some (memDevice m')\<rparr>)"
    "durable (?s1\<lparr>storage := Some (memDevice m')\<rparr>)" "complete (?s1\<lparr>storage := Some (memDevice m')\<rparr>)"
    by (rule persist_tail_durable [OF ld v, where new = ?new and k = "length cs"])
      (use assms(3,5) entry_ok_client [OF assms(4)] in \<open>simp_all\<close>)
  let ?s' = "?s1\<lparr>storage := Some (memDevice m')\<rparr>"
  have "Apply grow cs s = Inr (Inr ([nextChan s..<nextChan s + length cs], appendEntries ?s'), ?s')"
    using assms(2) cap(1) m'(1) by (simp add: Apply_def)
  moreover have "node_ok ?s'"
    using assms(1,5) durable_log_durable [OF m'(2)] by (simp add: node_ok_def)
  ultimately show thesis using m'(2,3) assms(2) cap(2) by (intro that [of ?s']) simp_all
qed

text \<open>A leader's \<^verbatim>\<open>Apply\<close> returns only if every command fits its slot.\<close>

lemma Apply_fit:
  assumes "Apply grow cs s = Inr (r, t)" "role s = leaderState" "cs \<noteq> []"
  shows "\<forall>c \<in> set cs. length c \<le> 112"
proof -
  let ?new = "clientEntries (currentTerm s) (nextChan s) cs"
  obtain cap where "appendCommands grow cs s = ([nextChan s..<nextChan s + length cs],
     s\<lparr>nextChan := nextChan s + length cs, raftLog := raftLog s @ ?new, logCap := cap\<rparr>)"
    using appendCommands_ok by blast
  with assms(1,2) obtain t' where "persist True (int (length cs))
      (s\<lparr>nextChan := nextChan s + length cs, raftLog := raftLog s @ ?new, logCap := cap\<rparr>) = Inr t'"
    by (auto simp: Apply_def chain_Inr_iff)
  then have "\<forall>e \<in> set ?new. entry_ok e"
    by (rule persist_fit [where es = "raftLog s"]) (use assms(3) in simp_all)
  moreover have "set cs = Command ` set ?new" by (metis clientEntries_commands set_map)
  ultimately show ?thesis by (simp add: entry_ok_def)
qed

text \<open>
  \<^verbatim>\<open>Apply\<close>. On a node that is no leader it returns \<^verbatim>\<open>ErrApplyToLeader\<close> and changes nothing. On
  a leader it appends the commands in order as entries of the current term, each with a fresh
  channel, has them on disk before it starts a goroutine per other member and waits, and keeps
  the invariant.
\<close>

theorem apply_appends:
  assumes "node_ok s" "cs \<noteq> []" "\<forall>c \<in> set cs. length c \<le> 112" "fits (length (raftLog s) + length cs)"
  shows "(role s \<noteq> leaderState \<longrightarrow> Apply grow cs s = Inr (Inl ErrApplyToLeader, s)) \<and>
    (role s = leaderState \<longrightarrow> (\<exists>s'. Apply grow cs s
        = Inr (Inr ([nextChan s..<nextChan s + length cs], filter (\<lambda>i. i \<noteq> clusterIndex s) [0..<length (cluster s)]), s') \<and>
      raftLog s' = raftLog s @ clientEntries (currentTerm s) (nextChan s) cs \<and>
      node_ok s' \<and> durable s' \<and> complete s'))"
proof (intro conjI impI)
  show "role s \<noteq> leaderState \<Longrightarrow> Apply grow cs s = Inr (Inl ErrApplyToLeader, s)"
    by (simp add: Apply_def)
  assume "role s = leaderState"
  then obtain s' where "Apply grow cs s
      = Inr (Inr ([nextChan s..<nextChan s + length cs], appendEntries s'), s')" "node_ok s'"
    "durable s'" "complete s'" "raftLog s' = raftLog s @ clientEntries (currentTerm s) (nextChan s) cs"
    "cluster s' = cluster s" "clusterIndex s' = clusterIndex s"
    by (rule Apply_leader [OF assms(1) _ assms(2-4)])
  then show "\<exists>s'. Apply grow cs s
        = Inr (Inr ([nextChan s..<nextChan s + length cs], filter (\<lambda>i. i \<noteq> clusterIndex s) [0..<length (cluster s)]), s') \<and>
      raftLog s' = raftLog s @ clientEntries (currentTerm s) (nextChan s) cs \<and>
      node_ok s' \<and> durable s' \<and> complete s'"
    by (auto simp: appendEntries_def)
qed

theorem apply_appends_witness:
  "\<exists>s'. Apply (\<lambda>_ n. n) [[7], [8]] (demo [dummyEntry] 3 1 blankDisk\<lparr>role := leaderState\<rparr>)
      = Inr (Inr ([0, 1], [1, 2]), s') \<and>
    raftLog s' = [dummyEntry, \<lparr>Command = [7], entryTerm = 3, result = Some 0\<rparr>,
      \<lparr>Command = [8], entryTerm = 3, result = Some 1\<rparr>] \<and> durable s'"
proof -
  let ?s = "demo [dummyEntry] 3 1 blankDisk\<lparr>role := leaderState\<rparr>"
  have "node_ok ?s" using node_ok_demo [of 3 1] by (simp add: node_ok_def log_durable_def)
  moreover have "\<forall>c \<in> set [[7], [8] :: bytes]. length c \<le> 112" by simp
  moreover have "fits (length (raftLog ?s) + length [[7], [8] :: bytes])" by (simp add: fits_def)
  ultimately obtain s' where s': "Apply (\<lambda>_ n. n) [[7], [8]] ?s
      = Inr (Inr ([nextChan ?s..<nextChan ?s + length [[7], [8] :: bytes]],
          filter (\<lambda>i. i \<noteq> clusterIndex ?s) [0..<length (cluster ?s)]), s')"
    "raftLog s' = raftLog ?s @ clientEntries (currentTerm ?s) (nextChan ?s) [[7], [8]]" "durable s'"
    using apply_appends [of ?s "[[7], [8]]" "\<lambda>_ n. n"] by auto
  have "nextChan ?s = 0" by (simp add: demo_def)
  moreover have "filter (\<lambda>i. i \<noteq> clusterIndex ?s) [0..<length (cluster ?s)] = [1, 2]"
    by (simp add: upt_rec)
  moreover have "[0..<0 + length [[7], [8] :: bytes]] = [0, 1]" by (simp add: upt_rec)
  ultimately show ?thesis using s' by auto
qed

section \<open>Answers\<close>

text \<open>What is sent on the channels from \<open>ch\<close> on.\<close>

fun posted :: "nat \<Rightarrow> ApplyResult option list \<Rightarrow> (nat \<times> ApplyResult) list" where
  "posted ch [] = []"
| "posted ch (None # rs) = posted (Suc ch) rs"
| "posted ch (Some r # rs) = (ch, r) # posted (Suc ch) rs"

lemma posted_Some: "posted ch (map Some rs) = zip [ch..<ch + length rs] rs"
  by (induction rs arbitrary: ch) (simp_all add: upt_rec)

lemma posted_early: "d < ch \<Longrightarrow> map_of (posted ch rs) d = None"
  by (induction ch rs rule: posted.induct) auto

lemma map_of_posted: "j < length rs \<Longrightarrow> map_of (posted ch rs) (ch + j) = rs ! j"
proof (induction ch rs arbitrary: j rule: posted.induct)
  case (2 ch rs)
  then show ?case by (cases j) (auto simp: posted_early)
next
  case (3 ch r rs)
  then show ?case by (cases j) auto
qed simp

lemma await_posted:
  assumes "delivered s = old @ posted ch rs" "\<forall>p \<in> set old. fst p < ch"
  shows "awaitResults [ch..<ch + length rs] s = (if None \<in> set rs then None else Some (map the rs))"
proof -
  have at: "map_of (delivered s) (ch + j) = rs ! j" if "j < length rs" for j
  proof -
    have "map_of old (ch + j) = None" using assms(2) by (auto simp: map_of_eq_None_iff)
    with map_of_posted [OF that] show ?thesis by (simp add: assms(1) map_add_def split: option.split)
  qed
  have "(\<forall>c \<in> set [ch..<ch + length rs]. map_of (delivered s) c \<noteq> None) = (\<forall>j < length rs. rs ! j \<noteq> None)"
  proof
    assume a: "\<forall>c \<in> set [ch..<ch + length rs]. map_of (delivered s) c \<noteq> None"
    show "\<forall>j < length rs. rs ! j \<noteq> None"
    proof (intro allI impI)
      fix j assume "j < length rs"
      with a at [of j] show "rs ! j \<noteq> None" by (metis atLeastLessThan_iff atLeastLessThan_upt le_add1 nat_add_left_cancel_less)
    qed
  next
    assume a: "\<forall>j < length rs. rs ! j \<noteq> None"
    show "\<forall>c \<in> set [ch..<ch + length rs]. map_of (delivered s) c \<noteq> None"
    proof
      fix c assume "c \<in> set [ch..<ch + length rs]"
      then have "c = ch + (c - ch)" "c - ch < length rs" by auto
      with a at [of "c - ch"] show "map_of (delivered s) c \<noteq> None" by metis
    qed
  qed
  also have "\<dots> = (None \<notin> set rs)" by (metis in_set_conv_nth)
  finally have all: "(\<forall>c \<in> set [ch..<ch + length rs]. map_of (delivered s) c \<noteq> None) = (None \<notin> set rs)" .
  have m: "map (\<lambda>c. the (map_of (delivered s) c)) [ch..<ch + length rs] = map the rs"
    by (rule nth_equalityI) (simp_all add: at)
  show ?thesis unfolding awaitResults_def all m by simp
qed

lemma await_delivered:
  assumes "delivered s = old @ zip [ch..<ch + length rs] rs" "\<forall>p \<in> set old. fst p < ch"
  shows "awaitResults [ch..<ch + length rs] s = Some rs"
  using await_posted [of s old ch "map Some rs"] assms by (auto simp: posted_Some comp_def)

lemma applyEntry_outcome:
  assumes "outcomes (sm_Apply (statemachine s)) (sm (statemachine s)) (c # cs) = Inr (rs, y)"
  obtains s' r rs' where "applyEntry \<lparr>Command = c, entryTerm = t, result = Some ch\<rparr> s = Inr s'"
    "rs = r # rs'" "outcomes (sm_Apply (statemachine s')) (sm (statemachine s')) cs = Inr (rs', y)"
    "delivered s' = delivered s @ (case r of None \<Rightarrow> [] | Some a \<Rightarrow> [(ch, a)])"
    "raftLog s' = raftLog s" "lastApplied s' = lastApplied s" "commitIndex s' = commitIndex s"
proof -
  consider "c = []" | "c \<noteq> []" "isConfigChangeCommand c" | "c \<noteq> []" "\<not> isConfigChangeCommand c" by blast
  then show thesis
  proof cases
    case 1
    with assms obtain rs' where "rs = None # rs'" "outcomes (sm_Apply (statemachine s)) (sm (statemachine s)) cs = Inr (rs', y)"
      by (auto simp: chain_Inr_iff)
    with 1 that [of s] show thesis by (simp add: applyEntry_def)
  next
    case 2
    with assms obtain rs' where "rs = Some \<lparr>Result = [], Error = None\<rparr> # rs'"
      "outcomes (sm_Apply (statemachine s)) (sm (statemachine s)) cs = Inr (rs', y)"
      by (auto simp: chain_Inr_iff)
    with 2 that [of "deliver \<lparr>Command = c, entryTerm = t, result = Some ch\<rparr> [] None
        (if pendingConfigChangeIndex s = lastApplied s then s\<lparr>pendingConfigChangeIndex := 0\<rparr> else s)"]
    show thesis by (simp add: applyEntry_def deliver_def)
  next
    case 3
    with assms obtain res err z rs' where "sm_Apply (statemachine s) (sm (statemachine s)) c = Inr ((res, err), z)"
      "rs = Some \<lparr>Result = res, Error = err\<rparr> # rs'" "outcomes (sm_Apply (statemachine s)) z cs = Inr (rs', y)"
      by (auto simp: chain_Inr_iff)
    with 3 that [of "s\<lparr>statemachine := (statemachine s)\<lparr>sm := z\<rparr>,
        delivered := delivered s @ [(ch, \<lparr>Result = res, Error = err\<rparr>)]\<rparr>"]
    show thesis by (simp add: applyEntry_def deliver_def)
  qed
qed

lemma advanceRun_outcomes:
  assumes "raftLog s = pre @ clientEntries t ch cs @ post" "unat (lastApplied s) = length pre"
    "fits (length (raftLog s))" "length pre + length cs \<le> Suc (unat (commitIndex s))"
    "outcomes (sm_Apply (statemachine s)) (sm (statemachine s)) cs = Inr (rs, y)"
  shows "\<exists>s'. advanceRun (length cs) s = Inr s' \<and> sm (statemachine s') = y \<and>
    length rs = length cs \<and> delivered s' = delivered s @ posted ch rs"
  using assms
proof (induction cs arbitrary: s pre ch rs)
  case (Cons c cs)
  let ?e = "\<lparr>Command = c, entryTerm = t, result = Some ch\<rparr>"
  have ne: "raftLog s \<noteq> []" using Cons.prems(1) by simp
  obtain k where k: "advanceLeaderCommit s = s\<lparr>commitIndex := k\<rparr>" "commitIndex s \<le> k"
    using advanceLeaderCommit_ok [OF ne Cons.prems(3)] by blast
  have at: "raftLog s ! unat (lastApplied s) = ?e" "unat (lastApplied s) < length (raftLog s)"
    using Cons.prems(1,2) by simp_all
  have le: "lastApplied s \<le> k"
    using Cons.prems(2,4) k(2) by (simp add: word_le_nat_alt)
  have o: "outcomes (sm_Apply (statemachine (s\<lparr>commitIndex := k\<rparr>))) (sm (statemachine (s\<lparr>commitIndex := k\<rparr>))) (c # cs) = Inr (rs, y)"
    using Cons.prems(5) by simp
  obtain s2 r rs' where s2: "applyEntry ?e (s\<lparr>commitIndex := k\<rparr>) = Inr s2" "rs = r # rs'"
    "outcomes (sm_Apply (statemachine s2)) (sm (statemachine s2)) cs = Inr (rs', y)"
    "delivered s2 = delivered s @ (case r of None \<Rightarrow> [] | Some a \<Rightarrow> [(ch, a)])"
    "raftLog s2 = raftLog s" "lastApplied s2 = lastApplied s" "commitIndex s2 = k"
    using applyEntry_outcome [OF o, of t ch] by auto
  have step: "advanceCommitIndex s = Inr (s2\<lparr>lastApplied := lastApplied s + 1\<rparr>)" (is "_ = Inr ?s3")
    using advance_step [OF k(1) le at(2)] at(1) s2(1,6) by simp
  have la: "unat (lastApplied s + 1) = Suc (length pre)"
    using at(2) Cons.prems(2,3) by (subst unat_add_one) (auto simp: fits_def)
  have "\<exists>s'. advanceRun (length cs) ?s3 = Inr s' \<and> sm (statemachine s') = y \<and>
    length rs' = length cs \<and> delivered s' = delivered ?s3 @ posted (Suc ch) rs'"
  proof (rule Cons.IH)
    show "raftLog ?s3 = (pre @ [?e]) @ clientEntries t (Suc ch) cs @ post" using Cons.prems(1) s2(5) by simp
    show "unat (lastApplied ?s3) = length (pre @ [?e])" using la by simp
    show "fits (length (raftLog ?s3))" using Cons.prems(3) s2(5) by simp
    show "length (pre @ [?e]) + length cs \<le> Suc (unat (commitIndex ?s3))"
      using Cons.prems(4) k(2) s2(7) by (simp add: word_le_nat_alt)
    show "outcomes (sm_Apply (statemachine ?s3)) (sm (statemachine ?s3)) cs = Inr (rs', y)"
      using s2(3) by simp
  qed
  then obtain s' where "advanceRun (length cs) ?s3 = Inr s'" "sm (statemachine s') = y"
    "length rs' = length cs" "delivered s' = delivered ?s3 @ posted (Suc ch) rs'"
    by blast
  then show ?case
    using step s2(2,4) by (intro exI [of _ s']) (simp split: option.splits)
qed simp

lemma advanceRun_answers:
  assumes "raftLog s = pre @ clientEntries t ch cs @ post" "unat (lastApplied s) = length pre"
    "fits (length (raftLog s))" "length pre + length cs \<le> Suc (unat (commitIndex s))"
    "\<forall>c \<in> set cs. c \<noteq> [] \<and> \<not> isConfigChangeCommand c"
    "answers (sm_Apply (statemachine s)) (sm (statemachine s)) cs = Inr (rs, y)"
  shows "\<exists>s'. advanceRun (length cs) s = Inr s' \<and> sm (statemachine s') = y \<and>
    length rs = length cs \<and> delivered s' = delivered s @ zip [ch..<ch + length cs] rs"
  using advanceRun_outcomes [OF assms(1-4) outcomes_answers [OF assms(5,6)]] by (auto simp: posted_Some)

text \<open>
  C15: \<^verbatim>\<open>Apply\<close> returns the machine's answers. Let a leader have appended any commands of a client,
  and let the commit index reach the last of them. As many \<^verbatim>\<open>advanceCommitIndex\<close> steps as there are
  commands return, provided the machine does not panic, and leave the machine in the state after
  them. If no command is empty, the wait of \<^verbatim>\<open>Apply\<close> ends then, with the machine's answer to each
  command in order, and with an empty answer to each that looks like a config change, which the
  machine never sees. If a command is empty it is skipped and nothing is sent on its channel:
  all commands are applied, and \<^verbatim>\<open>Apply\<close> still waits.
\<close>

theorem apply_returns_answers:
  assumes "raftLog s = pre @ clientEntries t ch cs @ post" "unat (lastApplied s) = length pre"
    "fits (length (raftLog s))" "length pre + length cs \<le> Suc (unat (commitIndex s))"
    "outcomes (sm_Apply (statemachine s)) (sm (statemachine s)) cs = Inr (rs, y)"
    "\<forall>p \<in> set (delivered s). fst p < ch"
  shows "\<exists>s'. advanceRun (length cs) s = Inr s' \<and> sm (statemachine s') = y \<and>
    awaitResults [ch..<ch + length cs] s' = (if None \<in> set rs then None else Some (map the rs))"
proof -
  obtain s' where s': "advanceRun (length cs) s = Inr s'" "sm (statemachine s') = y"
    "length rs = length cs" "delivered s' = delivered s @ posted ch rs"
    using advanceRun_outcomes [OF assms(1-5)] by blast
  from await_posted [OF s'(4) assms(6)] s' show ?thesis by auto
qed

theorem apply_returns_answers_witness:
  "(\<exists>s'. advanceRun 1 (demo demoLog 3 1 blankDisk\<lparr>commitIndex := 1, lastApplied := 1\<rparr>) = Inr s' \<and>
      awaitResults [7] s' = Some [\<lparr>Result = [], Error = None\<rparr>]) \<and>
   (\<exists>s'. advanceRun 2 (demo [dummyEntry, \<lparr>Command = [1], entryTerm = 3, result = Some 7\<rparr>,
       \<lparr>Command = [], entryTerm = 3, result = Some 8\<rparr>] 3 1 blankDisk\<lparr>commitIndex := 2, lastApplied := 1\<rparr>) = Inr s' \<and>
      awaitResults [7, 8] s' = None)"
proof
  let ?s = "demo demoLog 3 1 blankDisk\<lparr>commitIndex := 1, lastApplied := 1\<rparr>"
  have 1: "raftLog ?s = [dummyEntry] @ clientEntries 3 7 [[1]] @ []" by (simp add: demoLog_def)
  have 2: "outcomes (sm_Apply (statemachine ?s)) (sm (statemachine ?s)) [[1]]
      = Inr ([Some \<lparr>Result = [], Error = None\<rparr>], ())"
    by (simp add: demo_def noopStateMachine_def isConfigChangeCommand_def configChangeMarker_def)
  have 3: "\<forall>p \<in> set (delivered ?s). fst p < (7 :: nat)" by (simp add: demo_def)
  from apply_returns_answers [OF 1 _ _ _ 2 3]
  show "\<exists>s'. advanceRun 1 ?s = Inr s' \<and> awaitResults [7] s' = Some [\<lparr>Result = [], Error = None\<rparr>]"
    by (simp add: upt_rec)
next
  let ?s = "demo [dummyEntry, \<lparr>Command = [1], entryTerm = 3, result = Some 7\<rparr>,
       \<lparr>Command = [], entryTerm = 3, result = Some 8\<rparr>] 3 1 blankDisk\<lparr>commitIndex := 2, lastApplied := 1\<rparr>"
  have 1: "raftLog ?s = [dummyEntry] @ clientEntries 3 7 [[1], []] @ []" by simp
  have 2: "outcomes (sm_Apply (statemachine ?s)) (sm (statemachine ?s)) [[1], []]
      = Inr ([Some \<lparr>Result = [], Error = None\<rparr>, None], ())"
    by (simp add: demo_def noopStateMachine_def isConfigChangeCommand_def configChangeMarker_def)
  have 3: "\<forall>p \<in> set (delivered ?s). fst p < (7 :: nat)" by (simp add: demo_def)
  have 4: "unat (lastApplied ?s) = length [dummyEntry]" "fits (length (raftLog ?s))"
    "length [dummyEntry] + length [[1], [] :: bytes] \<le> Suc (unat (commitIndex ?s))" by (simp_all add: fits_def)
  have n: "length [[1], [] :: bytes] = 2" "[7..<7 + 2] = [7, 8 :: nat]" by (simp_all add: upt_rec)
  from apply_returns_answers [OF 1 4 2 3, unfolded n]
  show "\<exists>s'. advanceRun 2 ?s = Inr s' \<and> awaitResults [7, 8] s' = None" by simp
qed

end
