(* ===== verification/Go_Strings.thy ===== *)
theory Go_Strings
  imports Navi_Prelude
begin

text \<open>
  What cmd/kv-api and cmd/navi-cli use of Go's packages strings, strconv and fmt. A Go
  \<^verbatim>\<open>string\<close> is a list of bytes, here a list of the 256 characters of HOL; \<open>bytesOf\<close> is the
  conversion \<^verbatim>\<open>[]byte(s)\<close> and \<open>textOf\<close> the conversion \<^verbatim>\<open>string(b)\<close>. \<^verbatim>\<open>strings.ToLower\<close> and
  \<^verbatim>\<open>strings.Fields\<close> treat a string without bytes from 128 on byte by byte; for any other string
  they follow the Unicode tables, which are the parameters of the record \<open>Unicode\<close>.
\<close>

named_theorems text_simps \<open>conversions and searches in strings\<close>

section \<open>Strings and bytes\<close>

definition bytesOf :: "string \<Rightarrow> bytes" where
  "bytesOf s = map of_char s"

definition textOf :: "bytes \<Rightarrow> string" where
  "textOf b = map (\<lambda>x. char_of (unat x)) b"

lemma unat_of_char: "unat (of_char c :: u8) = of_char c"
proof -
  have "(of_char c :: nat) < 256" by (rule nat_of_char_less_256)
  moreover have "(of_char c :: u8) = of_nat (of_char c)" by (simp add: of_nat_of_char)
  ultimately show ?thesis by (metis unat_of_nat_8)
qed

lemma textOf_bytesOf [text_simps]: "textOf (bytesOf s) = s"
  by (induction s) (simp_all add: textOf_def bytesOf_def unat_of_char)

lemma bytesOf_inject [text_simps]: "bytesOf s = bytesOf t \<longleftrightarrow> s = t"
  by (metis textOf_bytesOf)

lemma length_bytesOf [text_simps]: "length (bytesOf s) = length s"
  by (simp add: bytesOf_def)

lemma bytesOf_append [text_simps]: "bytesOf (s @ t) = bytesOf s @ bytesOf t"
  by (simp add: bytesOf_def)

section \<open>Decimal numbers\<close>

definition digit :: "nat \<Rightarrow> char" where
  "digit d = char_of (48 + d)"

text \<open>\<^verbatim>\<open>%d\<close> of \<^verbatim>\<open>fmt.Sprintf\<close>.\<close>

fun showNat :: "nat \<Rightarrow> string" where
  "showNat n = (if n < 10 then [digit n] else showNat (n div 10) @ [digit (n mod 10)])"

declare showNat.simps [simp del]

definition showInt :: "int \<Rightarrow> string" where
  "showInt i = (if i < 0 then CHR ''-'' # showNat (nat (- i)) else showNat (nat i))"

fun parseDigits :: "nat \<Rightarrow> string \<Rightarrow> nat option" where
  "parseDigits acc [] = Some acc"
| "parseDigits acc (c # cs) =
     (let d = of_char c :: nat
      in if 48 \<le> d \<and> d \<le> 57 then parseDigits (acc * 10 + (d - 48)) cs else None)"

text \<open>\<^verbatim>\<open>strconv.ParseUint(s, 10, 64)\<close> and \<^verbatim>\<open>strconv.Atoi\<close>; \<open>None\<close> is any error.\<close>

definition ParseUint :: "string \<Rightarrow> u64 option" where
  "ParseUint s =
     (if s = [] then None
      else case parseDigits 0 s of
        None \<Rightarrow> None
      | Some n \<Rightarrow> if n < 18446744073709551616 then Some (of_nat n) else None)"

definition Atoi :: "string \<Rightarrow> int option" where
  "Atoi s =
     (let neg = (s \<noteq> [] \<and> hd s = CHR ''-'');
          ds = (if s \<noteq> [] \<and> (hd s = CHR ''-'' \<or> hd s = CHR ''+'') then tl s else s)
      in if ds = [] then None
         else case parseDigits 0 ds of
           None \<Rightarrow> None
         | Some n \<Rightarrow>
             if neg then if n \<le> 9223372036854775808 then Some (- int n) else None
             else if n < 9223372036854775808 then Some (int n) else None)"

lemma of_char_digit: "d < 10 \<Longrightarrow> (of_char (digit d) :: nat) = 48 + d"
  by (simp add: digit_def)

lemma showNat_nonempty [text_simps]: "showNat n \<noteq> []"
  by (subst showNat.simps) simp

lemma showNat_digits: "c \<in> set (showNat n) \<Longrightarrow> 48 \<le> (of_char c :: nat) \<and> (of_char c :: nat) \<le> 57"
proof (induction n rule: showNat.induct)
  case (1 n)
  have "n mod 10 < 10" by simp
  then have "(of_char (digit (n mod 10)) :: nat) = 48 + n mod 10" by (rule of_char_digit)
  with 1 show ?case
    by (subst (asm) showNat.simps) (auto simp: of_char_digit split: if_splits)
qed

lemma showNat_no: "(of_char c :: nat) < 48 \<or> 57 < (of_char c :: nat) \<Longrightarrow> c \<notin> set (showNat n)"
  using showNat_digits [of c n] by auto

lemma parseDigits_append:
  "parseDigits a (s @ t) = (case parseDigits a s of None \<Rightarrow> None | Some b \<Rightarrow> parseDigits b t)"
  by (induction s arbitrary: a) (auto simp: Let_def)

lemma parseDigits_showNat: "parseDigits 0 (showNat n) = Some n"
proof (induction n rule: showNat.induct)
  case (1 n)
  have "n mod 10 < 10" by simp
  then have d: "(of_char (digit (n mod 10)) :: nat) = 48 + n mod 10" by (rule of_char_digit)
  show ?case
  proof (cases "n < 10")
    case True
    then show ?thesis by (subst showNat.simps) (simp add: of_char_digit)
  next
    case False
    with 1 d show ?thesis
      by (subst showNat.simps) (simp add: parseDigits_append Let_def del: of_char_of)
  qed
qed

lemma ParseUint_showNat: "n < 18446744073709551616 \<Longrightarrow> ParseUint (showNat n) = Some (of_nat n)"
  by (simp add: ParseUint_def parseDigits_showNat showNat_nonempty)

lemma hd_showNat: "48 \<le> (of_char (hd (showNat n)) :: nat)"
  using showNat_digits [of "hd (showNat n)" n] showNat_nonempty [of n] by simp

lemma Atoi_showNat: "n < 9223372036854775808 \<Longrightarrow> Atoi (showNat n) = Some (int n)"
  using hd_showNat [of n]
  by (auto simp: Atoi_def parseDigits_showNat showNat_nonempty Let_def)

section \<open>Splitting and joining\<close>

text \<open>\<^verbatim>\<open>strings.Split(s, sep)\<close> for a separator of one byte, and \<^verbatim>\<open>strings.Join\<close>.\<close>

fun Split :: "char \<Rightarrow> string \<Rightarrow> string list" where
  "Split c [] = [[]]"
| "Split c (x # xs) = (if x = c then [] # Split c xs else (x # hd (Split c xs)) # tl (Split c xs))"

fun Join :: "string \<Rightarrow> string list \<Rightarrow> string" where
  "Join sep [] = []"
| "Join sep [x] = x"
| "Join sep (x # y # ys) = x @ sep @ Join sep (y # ys)"

lemma Split_nonempty [simp]: "Split c s \<noteq> []"
  by (cases s) auto

lemma Split_none: "c \<notin> set s \<Longrightarrow> Split c s = [s]"
  by (induction s) auto

lemma Split_first: "c \<notin> set s \<Longrightarrow> Split c (s @ c # t) = s # Split c t"
  by (induction s) auto

lemma Split_Join: "ps \<noteq> [] \<Longrightarrow> \<forall>p \<in> set ps. c \<notin> set p \<Longrightarrow> Split c (Join [c] ps) = ps"
proof (induction ps)
  case (Cons p ps)
  then show ?case by (cases ps) (simp_all add: Split_none Split_first)
qed simp

section \<open>Searching\<close>

text \<open>\<^verbatim>\<open>strings.Index\<close> (\<open>None\<close> for -1) and \<^verbatim>\<open>strings.Contains\<close>.\<close>

fun Index :: "string \<Rightarrow> string \<Rightarrow> nat option" where
  "Index [] p = (if p = [] then Some 0 else None)"
| "Index (x # xs) p =
     (if take (length p) (x # xs) = p then Some 0 else map_option Suc (Index xs p))"

definition Contains :: "string \<Rightarrow> string \<Rightarrow> bool" where
  "Contains s p = (Index s p \<noteq> None)"

lemma Index_bounds: "Index s p = Some i \<Longrightarrow> i + length p \<le> length s"
proof (induction s arbitrary: i)
  case (Cons x xs)
  show ?case
  proof (cases "take (length p) (x # xs) = p")
    case True
    then have "length p \<le> length (x # xs)" by (metis length_take min.bounded_iff order_refl)
    with True Cons.prems show ?thesis by simp
  qed (use Cons in auto)
qed (auto split: if_splits)

lemma Index_found: "Index s p = Some i \<Longrightarrow> take (length p) (drop i s) = p"
  by (induction s arbitrary: i) (auto split: if_splits)

lemma Index_first: "Index s p = Some i \<Longrightarrow> j < i \<Longrightarrow> take (length p) (drop j s) \<noteq> p"
proof (induction s arbitrary: i j)
  case (Cons x xs)
  then show ?case by (cases j) (auto split: if_splits)
qed (auto split: if_splits)

lemma Index_None: "Index s p = None \<Longrightarrow> take (length p) (drop j s) \<noteq> p"
proof (induction s arbitrary: j)
  case (Cons x xs)
  then show ?case by (cases j) (auto split: if_splits)
qed (auto split: if_splits)

lemma Contains_iff: "Contains s p \<longleftrightarrow> (\<exists>a b. s = a @ p @ b)"
proof
  assume "Contains s p"
  then obtain i where i: "Index s p = Some i" by (auto simp: Contains_def)
  have "s = take i s @ take (length p) (drop i s) @ drop (length p) (drop i s)"
    by (simp only: append_take_drop_id)
  then show "\<exists>a b. s = a @ p @ b" using Index_found [OF i] by metis
next
  assume "\<exists>a b. s = a @ p @ b"
  then obtain a b where s: "s = a @ p @ b" by blast
  then have "take (length p) (drop (length a) s) = p" by simp
  then show "Contains s p" using Index_None by (auto simp: Contains_def)
qed

section \<open>Case and white space\<close>

record Unicode =
  uniLower :: "string \<Rightarrow> string"
  uniFields :: "string \<Rightarrow> string list"

definition isASCII :: "string \<Rightarrow> bool" where
  "isASCII s = list_all (\<lambda>c. (of_char c :: nat) < 128) s"

definition lowerChar :: "char \<Rightarrow> char" where
  "lowerChar c = (let n = of_char c :: nat in if 65 \<le> n \<and> n \<le> 90 then char_of (n + 32) else c)"

definition ToLower :: "Unicode \<Rightarrow> string \<Rightarrow> string" where
  "ToLower u s = (if isASCII s then map lowerChar s else uniLower u s)"

definition isSpace :: "char \<Rightarrow> bool" where
  "isSpace c = ((of_char c :: nat) \<in> {9, 10, 11, 12, 13, 32})"

text \<open>The words of an ASCII string, with the word under way in \<open>w\<close>.\<close>

fun asciiFields :: "string \<Rightarrow> string \<Rightarrow> string list" where
  "asciiFields w [] = (if w = [] then [] else [w])"
| "asciiFields w (c # cs) =
     (if isSpace c then (if w = [] then asciiFields [] cs else w # asciiFields [] cs)
      else asciiFields (w @ [c]) cs)"

definition Fields :: "Unicode \<Rightarrow> string \<Rightarrow> string list" where
  "Fields u s = (if isASCII s then asciiFields [] s else uniFields u s)"

lemma length_ToLower: "isASCII s \<Longrightarrow> length (ToLower u s) = length s"
  by (simp add: ToLower_def)

lemma lowerChar_idem: "lowerChar (lowerChar c) = lowerChar c"
  by (auto simp: lowerChar_def Let_def)

lemma isASCII_append [text_simps]: "isASCII (s @ t) \<longleftrightarrow> isASCII s \<and> isASCII t"
  by (simp add: isASCII_def)

lemma isASCII_drop: "isASCII s \<Longrightarrow> isASCII (drop n s)"
  by (simp add: isASCII_def list_all_iff) (meson in_set_dropD)

lemma ToLower_drop: "isASCII s \<Longrightarrow> drop n (ToLower u s) = ToLower u (drop n s)"
  by (simp add: ToLower_def isASCII_drop drop_map)

lemma asciiFields_words: "f \<in> set (asciiFields w s) \<Longrightarrow> list_all (\<lambda>c. \<not> isSpace c) w \<Longrightarrow>
  f \<noteq> [] \<and> list_all (\<lambda>c. \<not> isSpace c) f"
  by (induction w s rule: asciiFields.induct) (auto split: if_splits)

end
