(* ===== verification/Kv_Api.thy ===== *)
theory Kv_Api
  imports Application Go_Strings
begin

text \<open>
  The key-value service (cmd/kv-api/main.go): the encoding of its commands, its state machine,
  and its HTTP handlers on top of \<^verbatim>\<open>Apply\<close> and \<^verbatim>\<open>AddServer\<close>. A handler that waits for the log is
  two operations: up to the wait, and from the results to the response. \<^verbatim>\<open>sync.Map\<close> is a
  map; the handlers share it with the state machine, so they find it in the server's state.
\<close>

section \<open>Commands\<close>

type_synonym commandKind = u8

abbreviation (input) setCommand :: commandKind where "setCommand \<equiv> 0"
abbreviation (input) getCommand :: commandKind where "getCommand \<equiv> 1"

record command =
  kind :: commandKind
  key :: string
  val :: string

definition encodeCommand :: "command \<Rightarrow> bytes" where
  "encodeCommand c =
     [kind c] @ PutUint64 (of_nat (length (key c))) @ bytesOf (key c) @
     PutUint64 (of_nat (length (val c))) @ bytesOf (val c)"

definition decodeCommand :: "bytes \<Rightarrow> panic + command" where
  "decodeCommand msg =
     chain (index msg 0) (\<lambda>k.
     chain (slice msg 1 9) (\<lambda>kl.
       let keyLen = Uint64 kl
       in chain (slice msg 9 (unat (9 + keyLen))) (\<lambda>ks.
          if k = setCommand
          then chain (slice msg (unat (9 + keyLen)) (unat (9 + keyLen + 8))) (\<lambda>vl.
               let valLen = Uint64 vl
               in chain (slice msg (unat (9 + keyLen + 8)) (unat (9 + keyLen + 8 + valLen))) (\<lambda>vs.
                  Inr \<lparr>kind = k, key = textOf ks, val = textOf vs\<rparr>))
          else Inr \<lparr>kind = k, key = textOf ks, val = []\<rparr>)))"

section \<open>The state machine\<close>

record kvMachine =
  db :: "string \<Rightarrow> string option"
  smServer :: int

definition hexDigit :: "nat \<Rightarrow> char" where
  "hexDigit n = (if n < 10 then digit n else char_of (87 + n))"

definition showHex :: "bytes \<Rightarrow> string" where
  "showHex bs = concat (map (\<lambda>b. [hexDigit (unat b div 16), hexDigit (unat b mod 16)]) bs)"

definition kvApply :: "kvMachine \<Rightarrow> bytes \<Rightarrow> panic + ((bytes \<times> string option) \<times> kvMachine)" where
  "kvApply s cmd =
     chain (decodeCommand cmd) (\<lambda>c.
       if kind c = setCommand then Inr (([], None), s\<lparr>db := (db s)(key c \<mapsto> val c)\<rparr>)
       else if kind c = getCommand
       then (case db s (key c) of
               None \<Rightarrow> Inr (([], Some ''key not found''), s)
             | Some v \<Rightarrow> Inr ((bytesOf v, None), s))
       else Inr (([], Some (''unknown command: '' @ showHex cmd)), s))"

definition kvStateMachine :: "int \<Rightarrow> kvMachine StateMachine" where
  "kvStateMachine server = \<lparr>sm = \<lparr>db = (\<lambda>_. None), smServer = server\<rparr>, sm_Apply = kvApply\<rparr>"

section \<open>Round trip of the commands\<close>

definition command_small :: "command \<Rightarrow> bool" where
  "command_small c \<longleftrightarrow> length (key c) + length (val c) + 17 < 9223372036854775808"

definition carried :: "command \<Rightarrow> command" where
  "carried c = (if kind c = setCommand then c else c\<lparr>val := []\<rparr>)"

lemma length_encodeCommand [byte_simps]:
  "length (encodeCommand c) = 17 + length (key c) + length (val c)"
  by (simp add: encodeCommand_def length_bytesOf)

lemma unat_offset: "small (n + k) \<Longrightarrow> unat (of_nat n + of_nat k :: u64) = n + k"
  by (metis of_nat_add small_unat)

lemma decode_encodeCommand:
  assumes "command_small c"
  shows "decodeCommand (encodeCommand c) = Inr (carried c)"
proof -
  let ?k = "bytesOf (key c)" and ?v = "bytesOf (val c)"
  let ?kn = "length (key c)" and ?vn = "length (val c)"
  let ?m = "encodeCommand c"
  have sm: "small (9 + ?kn)" "small (9 + ?kn + 8)" "small (9 + ?kn + 8 + ?vn)"
    using assms by (simp_all add: command_small_def small_def)
  have w: "unat (9 + of_nat ?kn :: u64) = 9 + ?kn" "unat (9 + of_nat ?kn + 8 :: u64) = 9 + ?kn + 8"
    "unat (9 + of_nat ?kn + 8 + of_nat ?vn :: u64) = 9 + ?kn + 8 + ?vn"
    using small_unat [OF sm(1)] small_unat [OF sm(2)] small_unat [OF sm(3)] by (simp_all add: ac_simps)
  have s0: "index ?m 0 = Inr (kind c)" by (simp add: encodeCommand_def index_def)
  have s1: "slice ?m 1 9 = Inr (PutUint64 (of_nat ?kn))"
    unfolding encodeCommand_def by (rule slice_append_mid) simp_all
  have "slice (([kind c] @ PutUint64 (of_nat ?kn)) @ ?k @ PutUint64 (of_nat ?vn) @ ?v) 9 (9 + ?kn) = Inr ?k"
    by (rule slice_append_mid) (simp_all add: length_bytesOf)
  then have s2: "slice ?m 9 (9 + ?kn) = Inr ?k" by (simp add: encodeCommand_def)
  have "slice (([kind c] @ PutUint64 (of_nat ?kn) @ ?k) @ PutUint64 (of_nat ?vn) @ ?v) (9 + ?kn) (9 + ?kn + 8)
      = Inr (PutUint64 (of_nat ?vn))"
    by (rule slice_append_mid) (simp_all add: length_bytesOf)
  then have s3: "slice ?m (9 + ?kn) (9 + ?kn + 8) = Inr (PutUint64 (of_nat ?vn))"
    by (simp add: encodeCommand_def)
  have "slice (([kind c] @ PutUint64 (of_nat ?kn) @ ?k @ PutUint64 (of_nat ?vn)) @ ?v @ [])
      (9 + ?kn + 8) (9 + ?kn + 8 + ?vn) = Inr ?v"
    by (rule slice_append_mid) (simp_all add: length_bytesOf)
  then have s4: "slice ?m (9 + ?kn + 8) (9 + ?kn + 8 + ?vn) = Inr ?v" by (simp add: encodeCommand_def)
  show ?thesis
    by (simp only: decodeCommand_def s0 s1 chain_simps Let_def Uint64_PutUint64 w s2 s3 s4 textOf_bytesOf)
      (simp add: carried_def)
qed

interpretation command_codec: codec
  "\<lambda>c. if command_small c then Inr (encodeCommand c) else Inl ()" decodeCommand carried
  by unfold_locales (auto simp: decode_encodeCommand split: if_splits)

section \<open>The machine as a map\<close>

text \<open>What a command means on a map of keys to values.\<close>

fun kvStep :: "(string \<Rightarrow> string option) \<Rightarrow> command \<Rightarrow> ApplyResult \<times> (string \<Rightarrow> string option)" where
  "kvStep m c =
     (if kind c = setCommand then (\<lparr>Result = [], Error = None\<rparr>, m(key c \<mapsto> val c))
      else case m (key c) of
        None \<Rightarrow> (\<lparr>Result = [], Error = Some ''key not found''\<rparr>, m)
      | Some v \<Rightarrow> (\<lparr>Result = bytesOf v, Error = None\<rparr>, m))"

fun kvRun :: "(string \<Rightarrow> string option) \<Rightarrow> command list \<Rightarrow> ApplyResult list \<times> (string \<Rightarrow> string option)" where
  "kvRun m [] = ([], m)"
| "kvRun m (c # cs) =
     (let (r, m1) = kvStep m c; (rs, m2) = kvRun m1 cs in (r # rs, m2))"

definition kv_command :: "command \<Rightarrow> bool" where
  "kv_command c \<longleftrightarrow> (kind c = setCommand \<or> kind c = getCommand) \<and> length (key c) + length (val c) \<le> 95"

lemma kv_command_small: "kv_command c \<Longrightarrow> command_small c"
  by (simp add: kv_command_def command_small_def)

lemma kvApply_step:
  assumes "kv_command c"
  shows "kvApply s (encodeCommand c) =
    Inr ((Result (fst (kvStep (db s) c)), Error (fst (kvStep (db s) c))), s\<lparr>db := snd (kvStep (db s) c)\<rparr>)"
  using assms decode_encodeCommand [OF kv_command_small [OF assms]]
  by (auto simp: kvApply_def kv_command_def carried_def split: option.split)

lemma kv_command_client:
  "kv_command c \<Longrightarrow> encodeCommand c \<noteq> [] \<and> \<not> isConfigChangeCommand (encodeCommand c)"
  by (auto simp: encodeCommand_def isConfigChangeCommand_def configChangeMarker_def kv_command_def)

text \<open>So the service's machine meets what the server asks of a state machine.\<close>

interpretation kv: state_machine kvApply "\<lambda>b. \<exists>c. kv_command c \<and> b = encodeCommand c"
proof
  fix x :: kvMachine and b :: bytes
  assume "\<exists>c. kv_command c \<and> b = encodeCommand c"
  then obtain c where c: "kv_command c" "b = encodeCommand c" by blast
  then show "\<exists>r y. kvApply x b = Inr (r, y)" by (simp add: kvApply_step)
  show "b \<noteq> [] \<and> \<not> isConfigChangeCommand b"
    using kv_command_client [OF c(1)] c(2) by simp
  show "length b \<le> ENTRY_SIZE - ENTRY_HEADER" 
    using c by (simp add: length_encodeCommand kv_command_def)
qed

lemma kv_answers:
  assumes "\<forall>c \<in> set cs. kv_command c"
  shows "answers kvApply s (map encodeCommand cs) =
    Inr (fst (kvRun (db s) cs), s\<lparr>db := snd (kvRun (db s) cs)\<rparr>)"
  using assms
proof (induction cs arbitrary: s)
  case (Cons c cs)
  obtain r m1 where st: "kvStep (db s) c = (r, m1)" by fastforce
  have "answers kvApply (s\<lparr>db := m1\<rparr>) (map encodeCommand cs)
      = Inr (fst (kvRun m1 cs), s\<lparr>db := m1\<rparr>\<lparr>db := snd (kvRun m1 cs)\<rparr>)"
    using Cons.IH [of "s\<lparr>db := m1\<rparr>"] Cons.prems by simp
  moreover have "kvApply s (encodeCommand c) = Inr ((Result r, Error r), s\<lparr>db := m1\<rparr>)"
    using kvApply_step [of c s] Cons.prems st by simp
  ultimately show ?case
    using st by (simp add: Let_def split: prod.split del: kvStep.simps)
qed simp

section \<open>HTTP\<close>

text \<open>The parsed query of a request, and \<^verbatim>\<open>Query().Get\<close>.\<close>

type_synonym Query = "(string \<times> string) list"

definition Get :: "Query \<Rightarrow> string \<Rightarrow> string" where
  "Get q k = (case map_of q k of None \<Rightarrow> [] | Some v \<Rightarrow> v)"

record Response =
  StatusCode :: nat
  Body :: string

definition statusText :: "nat \<Rightarrow> string" where
  "statusText n = (if n = 400 then ''Bad Request'' else if n = 500 then ''Internal Server Error'' else ''OK'')"

definition httpError :: "string \<Rightarrow> nat \<Rightarrow> Response" where
  "httpError msg n = \<lparr>StatusCode = n, Body = msg @ [CHR 0x0A]\<rparr>"

definition okResponse :: Response where
  "okResponse = \<lparr>StatusCode = 200, Body = ''ok'' @ [CHR 0x0A]\<rparr>"

text \<open>
  A handler up to the wait: a response (\<open>Inl\<close>), or the channels to wait on and the goroutines
  that were started.
\<close>

type_synonym waiting = "nat list \<times> nat list"

definition setHandler ::
  "(nat \<Rightarrow> nat \<Rightarrow> nat) \<Rightarrow> Query \<Rightarrow> (kvMachine, 'st) Server
     \<Rightarrow> (kvMachine, 'st) fault + ((Response + waiting) \<times> (kvMachine, 'st) Server)" where
  "setHandler grow q s =
     chain (Apply grow [encodeCommand \<lparr>kind = setCommand, key = Get q ''key'', val = Get q ''value''\<rparr>] s)
       (\<lambda>(r, s1). case r of
          Inl err \<Rightarrow> Inr (Inl (httpError (statusText 400) 400), s1)
        | Inr w \<Rightarrow> Inr (Inr w, s1))"

definition setReply :: "ApplyResult list \<Rightarrow> Response" where
  "setReply results = \<lparr>StatusCode = 200, Body = []\<rparr>"

definition getHandler ::
  "(nat \<Rightarrow> nat \<Rightarrow> nat) \<Rightarrow> Query \<Rightarrow> (kvMachine, 'st) Server
     \<Rightarrow> (kvMachine, 'st) fault + ((Response + waiting) \<times> (kvMachine, 'st) Server)" where
  "getHandler grow q s =
     (if Get q ''relaxed'' = ''true''
      then case db (sm (statemachine s)) (Get q ''key'') of
             None \<Rightarrow> Inr (Inl (httpError (statusText 500) 500), s)
           | Some v \<Rightarrow> Inr (Inl \<lparr>StatusCode = 200, Body = v\<rparr>, s)
      else chain (Apply grow [encodeCommand \<lparr>kind = getCommand, key = Get q ''key'', val = []\<rparr>] s)
             (\<lambda>(r, s1). case r of
                Inl err \<Rightarrow> Inr (Inl (httpError (statusText 500) 500), s1)
              | Inr w \<Rightarrow> Inr (Inr w, s1)))"

definition getReply :: "ApplyResult list \<Rightarrow> Response" where
  "getReply results =
     (case results of
        [r] \<Rightarrow> (case Error r of
                 Some err \<Rightarrow> httpError (statusText 500) 500
               | None \<Rightarrow> \<lparr>StatusCode = 200, Body = textOf (Result r)\<rparr>)
      | _ \<Rightarrow> httpError (statusText 500) 500)"

text \<open>The loop that writes the value, on any \<^verbatim>\<open>http.ResponseWriter\<close>: the bytes taken and the error.\<close>

partial_function (option) writeLoop ::
  "('w \<Rightarrow> bytes \<Rightarrow> (nat \<times> string option) \<times> 'w) \<Rightarrow> bytes \<Rightarrow> nat \<Rightarrow> 'w \<Rightarrow> (string option \<times> 'w) option" where
  "writeLoop wr value written w =
     (if written < length value
      then case wr w (drop written value) of
             ((n, Some err), w1) \<Rightarrow> Some (Some err, w1)
           | ((n, None), w1) \<Rightarrow> writeLoop wr value (written + n) w1
      else Some (None, w))"

definition killHandler :: "(kvMachine, 'st) Server \<Rightarrow> Response \<times> (kvMachine, 'st) Server" where
  "killHandler s = (okResponse, s\<lparr>stopped := True\<rparr>)"

definition addServerHandler ::
  "(string \<Rightarrow> string) \<Rightarrow> (nat \<Rightarrow> nat \<Rightarrow> nat) \<Rightarrow> Query \<Rightarrow> (kvMachine, 'st) Server
     \<Rightarrow> (kvMachine, 'st) fault + ((Response + waiting) \<times> (kvMachine, 'st) Server)" where
  "addServerHandler quote grow q s =
     (case ParseUint (Get q ''id'') of
        None \<Rightarrow> Inr (Inl (httpError (''invalid id: '' @ quote (Get q ''id'')) 400), s)
      | Some i \<Rightarrow>
          if Get q ''address'' = [] then Inr (Inl (httpError ''missing required parameter: address'' 400), s)
          else chain (AddServer grow i (bytesOf (Get q ''address'')) s) (\<lambda>(r, s1). case r of
              Inl err \<Rightarrow> Inr (Inl (httpError (statusText 400) 400), s1)
            | Inr None \<Rightarrow> Inr (Inl okResponse, s1)
            | Inr (Some (ch, peers)) \<Rightarrow> Inr (Inr ([ch], peers), s1)))"

definition addServerReply :: "ApplyResult list \<Rightarrow> Response" where
  "addServerReply results =
     (if list_all (\<lambda>r. Error r = None) results then okResponse else httpError (statusText 400) 400)"

section \<open>The response writer\<close>

text \<open>What \<^verbatim>\<open>io.Writer\<close> promises: at most all bytes are taken, and fewer than all only with an error.\<close>

definition io_writer ::
  "('w \<Rightarrow> bytes \<Rightarrow> (nat \<times> string option) \<times> 'w) \<Rightarrow> ('w \<Rightarrow> bytes) \<Rightarrow> bool" where
  "io_writer wr sent \<longleftrightarrow> (\<forall>w bs n e w'. wr w bs = ((n, e), w') \<longrightarrow>
     n \<le> length bs \<and> sent w' = sent w @ take n bs \<and> (e = None \<and> bs \<noteq> [] \<longrightarrow> 0 < n))"

lemma writeLoop_ends:
  assumes "io_writer wr sent"
  shows "written \<le> length value \<Longrightarrow> \<exists>e w'. writeLoop wr value written w = Some (e, w') \<and>
     (e = None \<longrightarrow> sent w' = sent w @ drop written value) \<and>
     (\<exists>k \<le> length value. sent w' = sent w @ take k (drop written value))"
proof (induction "length value - written" arbitrary: written w rule: less_induct)
  case less
  show ?case
  proof (cases "written < length value")
    case False
    with less.prems show ?thesis by (subst writeLoop.simps) auto
  next
    case True
    obtain n e w1 where st: "wr w (drop written value) = ((n, e), w1)" by (metis surj_pair)
    from assms st have n: "n \<le> length value - written" "sent w1 = sent w @ take n (drop written value)"
      unfolding io_writer_def by fastforce+
    show ?thesis
    proof (cases e)
      case (Some err)
      with True st n show ?thesis
        by (subst writeLoop.simps) (auto intro: exI [of _ n])
    next
      case None
      have "drop written value \<noteq> []" using True by simp
      with assms st None have "0 < n" unfolding io_writer_def by blast
      then have "length value - (written + n) < length value - written" "written + n \<le> length value"
        using True n(1) by simp_all
      from less.hyps [OF this] obtain e' w' k where IH: "writeLoop wr value (written + n) w1 = Some (e', w')"
        "e' = None \<longrightarrow> sent w' = sent w1 @ drop (written + n) value"
        "sent w' = sent w1 @ take k (drop (written + n) value)" by blast
      have d: "take n (drop written value) @ drop (written + n) value = drop written value"
        by (metis append_take_drop_id drop_drop add.commute)
      have tk: "take n (drop written value) @ take k (drop (written + n) value) = take (n + k) (drop written value)"
        by (metis take_add drop_drop add.commute)
      have "take (n + k) (drop written value) = take (min (n + k) (length value)) (drop written value)"
        by (simp add: min_def)
      with IH True st None n(2) d tk show ?thesis
        by (subst writeLoop.simps) (auto intro!: exI [of _ "min (n + k) (length value)"])
    qed
  qed
qed

end
