(* ===== verification/Add_Server.thy ===== *)
theory Add_Server
  imports Application
begin

text \<open>
  The membership change (\<^verbatim>\<open>AddServer\<close>): its refusals, what it appends, and the way a pending
  change ends when the loop applies its entry.
\<close>

lemma AddServer_refuses:
  "i = 0 \<Longrightarrow> AddServer grow i a s = Inr (Inl ErrInvalidServerId, s)"
  "i \<noteq> 0 \<Longrightarrow> role s \<noteq> leaderState \<Longrightarrow> AddServer grow i a s = Inr (Inl ErrApplyToLeader, s)"
  "i \<noteq> 0 \<Longrightarrow> role s = leaderState \<Longrightarrow> pendingConfigChangeIndex s \<noteq> 0 \<Longrightarrow>
     AddServer grow i a s = Inr (Inl ErrConfigChangeInProgress, s)"
  "i \<noteq> 0 \<Longrightarrow> role s = leaderState \<Longrightarrow> pendingConfigChangeIndex s = 0 \<Longrightarrow> i \<in> ids (cluster s) \<Longrightarrow>
     AddServer grow i a s = Inr (Inr None, s)"
  "i \<noteq> 0 \<Longrightarrow> role s = leaderState \<Longrightarrow> pendingConfigChangeIndex s = 0 \<Longrightarrow> i \<notin> ids (cluster s) \<Longrightarrow>
     encodeConfigChange (cluster s @ [newMember i a]) = Inl e \<Longrightarrow>
     AddServer grow i a s = Inr (Inl (ErrEncode e), s)"
  by (simp_all add: AddServer_def ids_def)

lemma AddServer_appends:
  assumes inv: "node_inv s" and req: "i \<noteq> 0" "role s = leaderState" "pendingConfigChangeIndex s = 0"
    "i \<notin> ids (cluster s)" and enc: "encodeConfigChange (cluster s @ [newMember i a]) = Inr payload"
    and len: "fits (Suc (length (raftLog s)))"
  obtains s' where "AddServer grow i a s = Inr (Inr (Some (nextChan s, appendEntries s')), s')"
    "node_inv s'" "durable s'" "complete s'"
    "raftLog s' = raftLog s @ [\<lparr>Command = payload, entryTerm = currentTerm s, result = Some (nextChan s)\<rparr>]"
    "unat (pendingConfigChangeIndex s') = length (raftLog s)"
    "cluster s' = cluster s @ [\<lparr>memberId = i, Address = a, nextIndex = of_nat (length (raftLog s)) + 1,
       matchIndex = 0, votedFor = 0\<rparr>]"
    "clusterIndex s' = clusterIndex s" "baseCluster s' = baseCluster s" "currentTerm s' = currentTerm s"
    "selfId s' = selfId s" "lastApplied s' = lastApplied s" "role s' = role s"
proof -
  let ?e = "\<lparr>Command = payload, entryTerm = currentTerm s, result = Some (nextChan s)\<rparr>"
  let ?s1 = "appendLog grow [?e] (s\<lparr>nextChan := Suc (nextChan s)\<rparr>)"
  have ok: "node_ok s" "loop_ok s" using inv by (auto simp: node_inv_def)
  have es: "raftLog ?s1 = raftLog s @ [?e]" by (simp add: appendLog_def)
  have new: "logLast (raftLog ?s1) = of_nat (length (raftLog s))"
    by (simp add: logLast_def es)
  have v: "getVotedFor ?s1 = Inr (ownVote s)"
    using ok(1) by (simp add: getVotedFor_def node_ok_def ownVote_def appendLog_def)
  let ?n = "of_nat (length (raftLog s)) + 1 :: u64"
  let ?m = "\<lparr>memberId = i, Address = a, nextIndex = ?n, matchIndex = 0, votedFor = 0\<rparr>"
  have self: "selfId s \<in> ids (cluster s)" using ok(2) by (auto simp: loop_ok_def resolve_total)
  then have neq: "selfId s \<noteq> i" using req(4) by blast
  have "filter (\<lambda>m. memberId m \<notin> ids (cluster s)) (cluster s @ [newMember i a]) = [newMember i a]"
    using req(4) by (auto simp: filter_empty_conv ids_def)
  then have cl: "mergeClusterConfig (cluster s) (cluster s @ [newMember i a]) ?n (selfId s) (ownVote s)
      = cluster s @ [?m]"
    using neq by (simp add: merge_eq joined_def)
  have r: "resolveClusterIndex (cluster s @ [?m]) (selfId s) = Inr (clusterIndex s)"
    using ok(2) resolveFrom_append [of 0 "cluster s" "selfId s" "clusterIndex s" "[?m]"]
    by (simp add: loop_ok_def resolveClusterIndex_def)
  let ?s2 = "?s1\<lparr>cluster := cluster s @ [?m], clusterIndex := clusterIndex s,
    pendingConfigChangeIndex := of_nat (length (raftLog s))\<rparr>"
  have ci: "clusterIndex s < length (cluster s)" using ok(1) by (simp add: node_ok_def)
  have ld: "log_durable (?s2\<lparr>raftLog := raftLog s\<rparr>)"
    using ok(1) by (simp add: node_ok_def log_durable_def appendLog_def)
  have v2: "getVotedFor ?s2 = Inr (ownVote s)"
    using ci by (simp add: getVotedFor_def ownVote_def nth_append)
  have eok: "entry_ok ?e" using encoded_length [OF enc] by (simp add: entry_ok_def)
  have len2: "fits (length (raftLog ?s2))" using len es by simp
  obtain m' where m': "persist True (int 1) ?s2 = Inr (?s2\<lparr>storage := Some (memDevice m')\<rparr>)"
    "durable (?s2\<lparr>storage := Some (memDevice m')\<rparr>)" "complete (?s2\<lparr>storage := Some (memDevice m')\<rparr>)"
    by (rule persist_tail_durable [OF ld v2 len2, where new = "[?e]" and k = 1]) (use es eok in simp_all)
  let ?s3 = "?s2\<lparr>storage := Some (memDevice m')\<rparr>"
  have run: "AddServer grow i a s = Inr (Inr (Some (nextChan s, appendEntries ?s3)), ?s3)"
    using req enc new v cl r m'(1)
    by (simp add: AddServer_def appendLocked_def Let_def ids_def) (simp add: appendLog_def)
  have wf: "wf_command payload" using decode_encodeConfigChange [OF enc] by (simp add: wf_command_def)
  have "node_ok ?s3"
    using ok(1) durable_log_durable [OF m'(2)] len2 es by (simp add: node_ok_def appendLog_def)
  moreover have "loop_ok ?s3"
    using ok(2) r wf by (auto simp: loop_ok_def appendLog_def appendCap_def)
  ultimately have inv3: "node_inv ?s3" by (simp add: node_inv_def)
  have "unat (of_nat (length (raftLog s)) :: u64) = length (raftLog s)"
    using len by (intro small_unat) (simp add: fits_def small_def)
  with run inv3 m'(2,3) es show thesis
    by (intro that [of ?s3]) (simp_all add: appendLog_def)
qed

text \<open>
  C25: \<^verbatim>\<open>AddServer\<close>. It refuses the id 0, a node that is no leader, a second change while one is
  pending, and a cluster that does not fit an entry, and returns at once for a member; in all
  these cases nothing changes. Otherwise the leader appends the encoded new membership as an
  entry of its term, uses it at once (its cluster is the old one, every record unchanged, and
  after it the new member with no vote and nothing matched), remembers the change as pending,
  has everything on disk, and sends append requests to every member but itself, the new one
  included.
\<close>

theorem add_server:
  assumes "node_inv s" "fits (Suc (length (raftLog s)))"
  shows "if i = 0 then AddServer grow i a s = Inr (Inl ErrInvalidServerId, s)
    else if role s \<noteq> leaderState then AddServer grow i a s = Inr (Inl ErrApplyToLeader, s)
    else if pendingConfigChangeIndex s \<noteq> 0 then AddServer grow i a s = Inr (Inl ErrConfigChangeInProgress, s)
    else if i \<in> ids (cluster s) then AddServer grow i a s = Inr (Inr None, s)
    else (case encodeConfigChange (cluster s @ [newMember i a]) of
       Inl e \<Rightarrow> AddServer grow i a s = Inr (Inl (ErrEncode e), s)
     | Inr payload \<Rightarrow> \<exists>s' peers. AddServer grow i a s = Inr (Inr (Some (nextChan s, peers)), s') \<and>
         raftLog s' = raftLog s @ [\<lparr>Command = payload, entryTerm = currentTerm s, result = Some (nextChan s)\<rparr>] \<and>
         cluster s' = cluster s @ [\<lparr>memberId = i, Address = a, nextIndex = of_nat (length (raftLog s)) + 1,
           matchIndex = 0, votedFor = 0\<rparr>] \<and> clusterIndex s' = clusterIndex s \<and>
         unat (pendingConfigChangeIndex s') = length (raftLog s) \<and>
         peers = filter (\<lambda>k. k \<noteq> clusterIndex s) [0..<Suc (length (cluster s))] \<and>
         role s' = leaderState \<and> currentTerm s' = currentTerm s \<and>
         node_inv s' \<and> durable s' \<and> complete s')"
proof -
  have "\<exists>s' peers. AddServer grow i a s = Inr (Inr (Some (nextChan s, peers)), s') \<and>
         raftLog s' = raftLog s @ [\<lparr>Command = payload, entryTerm = currentTerm s, result = Some (nextChan s)\<rparr>] \<and>
         cluster s' = cluster s @ [\<lparr>memberId = i, Address = a, nextIndex = of_nat (length (raftLog s)) + 1,
           matchIndex = 0, votedFor = 0\<rparr>] \<and> clusterIndex s' = clusterIndex s \<and>
         unat (pendingConfigChangeIndex s') = length (raftLog s) \<and>
         peers = filter (\<lambda>k. k \<noteq> clusterIndex s) [0..<Suc (length (cluster s))] \<and>
         role s' = leaderState \<and> currentTerm s' = currentTerm s \<and>
         node_inv s' \<and> durable s' \<and> complete s'"
    if req: "i \<noteq> 0" "role s = leaderState" "pendingConfigChangeIndex s = 0" "i \<notin> ids (cluster s)"
      "encodeConfigChange (cluster s @ [newMember i a]) = Inr payload" for payload
  proof -
    obtain s' where s': "AddServer grow i a s = Inr (Inr (Some (nextChan s, appendEntries s')), s')"
      "node_inv s'" "durable s'" "complete s'"
      "raftLog s' = raftLog s @ [\<lparr>Command = payload, entryTerm = currentTerm s, result = Some (nextChan s)\<rparr>]"
      "unat (pendingConfigChangeIndex s') = length (raftLog s)"
      "cluster s' = cluster s @ [\<lparr>memberId = i, Address = a, nextIndex = of_nat (length (raftLog s)) + 1,
         matchIndex = 0, votedFor = 0\<rparr>]" "clusterIndex s' = clusterIndex s"
      "currentTerm s' = currentTerm s" "role s' = role s"
      by (rule AddServer_appends [OF assms(1) req assms(2)])
    moreover have "appendEntries s' = filter (\<lambda>k. k \<noteq> clusterIndex s) [0..<Suc (length (cluster s))]"
      by (simp add: appendEntries_def s'(7,8))
    ultimately show ?thesis by (intro exI [of _ s'] exI [of _ "appendEntries s'"]) (simp add: req(2))
  qed
  then show ?thesis by (auto simp: AddServer_refuses split: sum.split)
qed

theorem add_server_witness:
  "\<exists>m b s' peers. encodeConfigChange (threeNodes[0 := (newMember 1 [])\<lparr>votedFor := 1\<rparr>] @ [newMember 4 []]) = Inr b \<and>
    AddServer (\<lambda>_ n. n) 4 [] (demo demoLog 3 1 m\<lparr>role := leaderState\<rparr>) = Inr (Inr (Some (0, peers)), s') \<and>
    peers = [1, 2, 3] \<and> cluster s' ! 3 = \<lparr>memberId = 4, Address = [], nextIndex = 3, matchIndex = 0, votedFor = 0\<rparr> \<and>
    ids (cluster s') = {1, 2, 3, 4} \<and> unat (pendingConfigChangeIndex s') = 2 \<and> durable s'"
proof -
  obtain m where d: "durable (demo demoLog 3 1 m)" by (rule demo_persisted)
  let ?s = "demo demoLog 3 1 m\<lparr>role := leaderState\<rparr>"
  have "node_inv (demo demoLog 3 1 m)" by (rule node_inv_demo [OF d]) simp_all
  then have inv: "node_inv ?s" by (subst node_inv_cong [of ?s "demo demoLog 3 1 m"]) simp_all
  have f: "fits (Suc (length (raftLog ?s)))" by (simp add: fits_def)
  have cl: "cluster ?s = threeNodes[0 := (newMember 1 [])\<lparr>votedFor := 1\<rparr>]" by (simp add: demo_def)
  have ch: "nextChan ?s = 0" "pendingConfigChangeIndex ?s = 0" by (simp_all add: demo_def)
  have ids: "ids (cluster ?s) = {1, 2, 3}" by (auto simp: cl threeNodes_def)
  let ?b = "[configChangeMarker, of_nat (length (cluster ?s @ [newMember 4 []]))]
    @ concat (map encodeMember (cluster ?s @ [newMember 4 []]))"
  have b: "encodeConfigChange (cluster ?s @ [newMember 4 []]) = Inr ?b"
    by (subst encodeConfigChange_Inr) (simp add: byte_simps cl threeNodes_def)
  have c: "(4 :: u64) \<noteq> 0" "\<not> role ?s \<noteq> leaderState" "\<not> pendingConfigChangeIndex ?s \<noteq> 0"
    "4 \<notin> ids (cluster ?s)"
    using ch(2) ids by simp_all
  note main = add_server [OF inv f, of 4 "\<lambda>_ n. n" "[]", unfolded if_not_P [OF c(1)] if_not_P [OF c(2)]
      if_not_P [OF c(3)] if_not_P [OF c(4)] b sum.case]
  obtain s' peers where r: "AddServer (\<lambda>_ n. n) 4 [] ?s = Inr (Inr (Some (nextChan ?s, peers)), s')"
    "cluster s' = cluster ?s @ [\<lparr>memberId = 4, Address = [], nextIndex = of_nat (length (raftLog ?s)) + 1,
       matchIndex = 0, votedFor = 0\<rparr>]"
    "unat (pendingConfigChangeIndex s') = length (raftLog ?s)"
    "peers = filter (\<lambda>k. k \<noteq> clusterIndex ?s) [0..<Suc (length (cluster ?s))]" "durable s'"
    using main by (elim exE conjE) (rule that)
  have len: "length (raftLog ?s) = 2" "clusterIndex ?s = 0" "length (cluster ?s) = 3"
    by (simp_all add: demo_def threeNodes_def demoLog_def)
  have "cluster s' ! 3 = \<lparr>memberId = 4, Address = [], nextIndex = 3, matchIndex = 0, votedFor = 0\<rparr>"
    unfolding r(2) using len(3) by (simp add: nth_append len(1))
  moreover have "peers = [1, 2, 3]" unfolding r(4) len(2,3) by (simp add: upt_rec)
  moreover have "ids (cluster s') = insert 4 (ids (cluster ?s))" unfolding r(2) by simp
  then have "ids (cluster s') = {1, 2, 3, 4}" unfolding ids by auto
  moreover have "unat (pendingConfigChangeIndex s') = 2" using r(3) len(1) by simp
  moreover have "AddServer (\<lambda>_ n. n) 4 [] ?s = Inr (Inr (Some (0, peers)), s')" using r(1) ch(1) by simp
  moreover note r(5) b [unfolded cl]
  ultimately show ?thesis by blast
qed

end
