(* ===== verification/Node.thy ===== *)
theory Node
  imports Add_Server
begin

text \<open>
  A running node (\<^verbatim>\<open>Start\<close>, \<^verbatim>\<open>Stop\<close> of navi/server.go): the main loop, whose passes release the
  mutex between reading the role and each call, the goroutines that carry requests and
  responses, the handlers that the transport calls, and the client's calls, as an interleaving
  of locked sections; and what every step of it guarantees.
\<close>

section \<open>The machine\<close>

text \<open>Where the goroutine of \<^verbatim>\<open>Start\<close> is between two locked sections.\<close>

datatype loopPoint =
    AtReset | AtTop | AtHeartbeat | AtLeaderAdvance | AtFollowerTimeout | AtFollowerAdvance
  | AtCandidateTimeout | AtBecomeLeader | Exited

text \<open>The other goroutines: about to build a request for a member, or waiting for its response.\<close>

datatype goroutine =
    VoteTo nat | VoteSent nat RequestVoteRequest
  | AppendTo nat | AppendSent nat AppendEntriesRequest

record ('sm, 'st) Node =
  point :: loopPoint
  routines :: "goroutine list"
  server :: "('sm, 'st) Server"

text \<open>\<^verbatim>\<open>Start\<close> up to the goroutine it leaves running; serving is the transport's.\<close>

definition Start ::
  "(nat \<Rightarrow> nat \<Rightarrow> nat) \<Rightarrow> panic + 'st Storage \<Rightarrow> ('sm, 'st) Server \<Rightarrow> panic + ('sm, 'st) Node" where
  "Start grow openFile s =
     chain (restore grow openFile (s\<lparr>role := followerState, stopped := False\<rparr>)) (\<lambda>s1.
       Inr \<lparr>point = AtReset, routines = [], server = s1\<rparr>)"

definition Stop :: "('sm, 'st) Server \<Rightarrow> ('sm, 'st) Server" where
  "Stop s = s\<lparr>stopped := True\<rparr>"

fun loopStep ::
  "(nat \<Rightarrow> nat \<Rightarrow> nat) \<Rightarrow> loopPoint \<Rightarrow> ('sm, 'st) Server
     \<Rightarrow> ('sm, 'st) fault + (loopPoint \<times> goroutine list \<times> ('sm, 'st) Server)" where
  "loopStep grow AtReset s = chain (resetElectionTimeout s) (\<lambda>s1. Inr (AtTop, [], s1))"
| "loopStep grow AtTop s =
     Inr (if stopped s then Exited
          else case role s of
            leaderState \<Rightarrow> AtHeartbeat
          | followerState \<Rightarrow> AtFollowerTimeout
          | candidateState \<Rightarrow> AtCandidateTimeout
          | NoState \<Rightarrow> AtTop, [], s)"
| "loopStep grow AtHeartbeat s =
     (let (is, s1) = heartbeat s in Inr (AtLeaderAdvance, map AppendTo is, s1))"
| "loopStep grow AtLeaderAdvance s = chain (advanceCommitIndex s) (\<lambda>s1. Inr (AtTop, [], s1))"
| "loopStep grow AtFollowerTimeout s =
     chain (timeout s) (\<lambda>(is, s1). Inr (AtFollowerAdvance, map VoteTo is, s1))"
| "loopStep grow AtFollowerAdvance s = chain (advanceCommitIndex s) (\<lambda>s1. Inr (AtTop, [], s1))"
| "loopStep grow AtCandidateTimeout s =
     chain (timeout s) (\<lambda>(is, s1). Inr (AtBecomeLeader, map VoteTo is, s1))"
| "loopStep grow AtBecomeLeader s = chain (becomeLeader grow s) (\<lambda>s1. Inr (AtTop, [], s1))"
| "loopStep grow Exited s = Inr (Exited, [], s)"

text \<open>
  A step that the node makes by itself: a section of the main loop, a request or response that
  is lost, a client's call, \<^verbatim>\<open>Stop\<close>. The premises on sizes keep the log within the reach of a
  file position. A client submits commands, and none that is a config change that does not decode:
  \<^verbatim>\<open>Apply\<close> would take it, and every node would panic that rebuilds its cluster from its log.
\<close>

inductive local_step ::
  "(nat \<Rightarrow> nat \<Rightarrow> nat) \<Rightarrow> ('sm, 'st) Node \<Rightarrow> ('sm, 'st) Node \<Rightarrow> bool" for grow where
  loop: "loopStep grow (point n) (server n) = Inr (p, gs, s') \<Longrightarrow> fits (Suc (length (raftLog (server n)))) \<Longrightarrow>
    local_step grow n \<lparr>point = p, routines = routines n @ gs, server = s'\<rparr>"
| vote_lost: "routines n = xs @ VoteSent i req # ys \<Longrightarrow> local_step grow n (n\<lparr>routines := xs @ ys\<rparr>)"
| append_lost: "routines n = xs @ AppendSent i areq # ys \<Longrightarrow> local_step grow n (n\<lparr>routines := xs @ ys\<rparr>)"
| client: "Apply grow cs (server n) = Inr (r, s') \<Longrightarrow> cs \<noteq> [] \<Longrightarrow>
    \<forall>c \<in> set cs. wf_command c \<Longrightarrow> fits (length (raftLog (server n)) + length cs) \<Longrightarrow>
    local_step grow n (n\<lparr>routines := routines n @ (case r of Inl _ \<Rightarrow> [] | Inr (_, is) \<Rightarrow> map AppendTo is),
      server := s'\<rparr>)"
| add: "AddServer grow i addr (server n) = Inr (q, s') \<Longrightarrow> fits (Suc (length (raftLog (server n)))) \<Longrightarrow>
    local_step grow n (n\<lparr>routines := routines n @
      (case q of Inr (Some (_, is)) \<Rightarrow> map AppendTo is | _ \<Rightarrow> []), server := s'\<rparr>)"
| stop: "local_step grow n (n\<lparr>server := Stop (server n)\<rparr>)"

text \<open>
  One locked section of any goroutine of the node. The environment chooses the interleaving, the
  requests that arrive, and the responses: any vote request, any response at all or none, and any append
  request, well-formed or not, unless it would carry the log over its bound.
\<close>

inductive node_step ::
  "(nat \<Rightarrow> nat \<Rightarrow> nat) \<Rightarrow> ('sm, 'st) Node \<Rightarrow> ('sm, 'st) Node \<Rightarrow> bool" for grow where
  own: "local_step grow n m \<Longrightarrow> node_step grow n m"
| vote_send: "routines n = xs @ VoteTo i # ys \<Longrightarrow> buildRequestVote i (server n) = Inr (a, req) \<Longrightarrow>
    node_step grow n (n\<lparr>routines := xs @ VoteSent i req # ys\<rparr>)"
| vote_response: "routines n = xs @ VoteSent i req # ys \<Longrightarrow>
    handleVoteResponse i req rsp (server n) = Inr s' \<Longrightarrow>
    node_step grow n (n\<lparr>routines := xs @ ys, server := s'\<rparr>)"
| append_send: "routines n = xs @ AppendTo i # ys \<Longrightarrow> buildAppendEntries i (server n) = Inr (a, areq) \<Longrightarrow>
    node_step grow n (n\<lparr>routines := xs @ AppendSent i areq # ys\<rparr>)"
| append_response: "routines n = xs @ AppendSent i areq # ys \<Longrightarrow>
    handleAppendResponse i areq arsp (server n) = Inr s' \<Longrightarrow>
    node_step grow n (n\<lparr>routines := xs @ ys, server := s'\<rparr>)"
| on_vote: "HandleRequestVoteRequest req (server n) = Inr (rsp, s') \<Longrightarrow>
    node_step grow n (n\<lparr>server := s'\<rparr>)"
| on_append: "HandleAppendEntriesRequest grow areq (server n) = Inr (arsp, s') \<Longrightarrow>
    unat (PrevLogIndex areq) < length (raftLog (server n)) \<longrightarrow> fits (Suc (unat (PrevLogIndex areq)) + length (Entries areq)) \<Longrightarrow>
    node_step grow n (n\<lparr>server := s'\<rparr>)"

text \<open>The states a node goes through.\<close>

inductive reaches :: "(nat \<Rightarrow> nat \<Rightarrow> nat) \<Rightarrow> ('sm, 'st) Node \<Rightarrow> ('sm, 'st) Node \<Rightarrow> bool" for grow n where
  start: "reaches grow n n"
| step: "reaches grow n m \<Longrightarrow> node_step grow m k \<Longrightarrow> reaches grow n k"

inductive_cases local_stepE: "local_step grow n m"
inductive_cases node_stepE: "node_step grow n m"
inductive_cases reachesE: "reaches grow n m"
fun_cases loopStep_exit: "loopStep grow Exited s = Inr r"

text \<open>A stopped node's loop leaves at its next pass and does not come back.\<close>

lemma stopped_leaves: "stopped s \<Longrightarrow> loopStep grow AtTop s = Inr (Exited, [], s)"
  by simp

lemma exited_local: "local_step grow n m \<Longrightarrow> point n = Exited \<Longrightarrow> point m = Exited"
  by (erule local_stepE) (auto elim: loopStep_exit)

lemma exited_stays: "node_step grow n m \<Longrightarrow> point n = Exited \<Longrightarrow> point m = Exited"
  by (erule node_stepE) (auto intro: exited_local)

lemma exited_forever: "reaches grow n m \<Longrightarrow> point n = Exited \<Longrightarrow> point m = Exited"
  by (induction rule: reaches.induct) (auto intro: exited_stays)

section \<open>Members\<close>

text \<open>The founding members come first in the cluster, in their order.\<close>

definition founded :: "('sm, 'st) Server \<Rightarrow> bool" where
  "founded s \<longleftrightarrow> (\<exists>js. map memberId (cluster s) = map memberId (baseCluster s) @ js)"

lemma resolveFrom_ids:
  "map memberId ms = map memberId ms' \<Longrightarrow> resolveFrom k ms i = resolveFrom k ms' i"
proof (induction ms arbitrary: k ms')
  case (Cons m ms)
  then show ?case by (cases ms') auto
qed simp

lemma resolve_ids:
  "map memberId ms = map memberId ms' \<Longrightarrow> resolveClusterIndex ms i = resolveClusterIndex ms' i"
  unfolding resolveClusterIndex_def by (rule resolveFrom_ids)

lemma founded_index:
  assumes "loop_ok s" "founded s"
  shows "resolveClusterIndex (baseCluster s) (selfId s) = Inr (clusterIndex s)"
proof -
  obtain js where js: "map memberId (cluster s) = map memberId (baseCluster s) @ js"
    using assms(2) by (auto simp: founded_def)
  obtain k where k: "resolveClusterIndex (baseCluster s) (selfId s) = Inr k"
    using assms(1) by (auto simp: loop_ok_def resolve_total)
  have "map memberId (cluster s) = map memberId (baseCluster s @ map (\<lambda>j. newMember j []) js)"
    using js by (simp add: comp_def)
  then have "resolveClusterIndex (cluster s) (selfId s)
      = resolveClusterIndex (baseCluster s @ map (\<lambda>j. newMember j []) js) (selfId s)"
    by (rule resolve_ids)
  also have "\<dots> = Inr k"
    using k unfolding resolveClusterIndex_def by (rule resolveFrom_append)
  finally show ?thesis using assms(1) k by (simp add: loop_ok_def)
qed

lemma founded_cong:
  "map memberId (cluster s') = map memberId (cluster s) \<Longrightarrow> baseCluster s' = baseCluster s \<Longrightarrow>
     founded s \<Longrightarrow> founded s'"
  by (simp add: founded_def)

lemma loop_ok_members:
  assumes "loop_ok s" "map memberId (cluster s') = map memberId (cluster s)"
    "clusterIndex s' = clusterIndex s" "selfId s' = selfId s" "baseCluster s' = baseCluster s"
    "length (raftLog s') \<le> logCap s'" "\<forall>e \<in> set (raftLog s'). wf_command (Command e)"
  shows "loop_ok s'"
  using assms resolve_ids [OF assms(2)] by (simp add: loop_ok_def)

section \<open>What a step guarantees\<close>

text \<open>The invariant of a running node, and the guarantee of one step.\<close>

definition node_good :: "('sm, MemStorage) Server \<Rightarrow> bool" where
  "node_good s \<longleftrightarrow> node_inv s \<and> founded s"

definition identity_kept :: "('sm, 'st) Server \<Rightarrow> ('sm, 'st) Server \<Rightarrow> bool" where
  "identity_kept s s' \<longleftrightarrow> selfId s' = selfId s \<and> baseCluster s' = baseCluster s"

definition term_grows :: "('sm, 'st) Server \<Rightarrow> ('sm, 'st) Server \<Rightarrow> bool" where
  "term_grows s s' \<longleftrightarrow> currentTerm s \<le> currentTerm s' \<or> currentTerm s = - 1"

definition vote_kept :: "('sm, 'st) Server \<Rightarrow> ('sm, 'st) Server \<Rightarrow> bool" where
  "vote_kept s s' \<longleftrightarrow>
     (currentTerm s' = currentTerm s \<and> ownVote s \<noteq> 0 \<and> (\<exists>ys. raftLog s' = raftLog s @ ys)
        \<longrightarrow> ownVote s' = ownVote s)"

definition leader_appends :: "('sm, 'st) Server \<Rightarrow> ('sm, 'st) Server \<Rightarrow> bool" where
  "leader_appends s s' \<longleftrightarrow>
     (role s = leaderState \<and> currentTerm s' = currentTerm s \<longrightarrow> (\<exists>ys. raftLog s' = raftLog s @ ys))"

definition change_durable :: "('sm, MemStorage) Server \<Rightarrow> ('sm, MemStorage) Server \<Rightarrow> bool" where
  "change_durable s s' \<longleftrightarrow>
     (durable s \<or> currentTerm s' \<noteq> currentTerm s \<or> ownVote s' \<noteq> ownVote s \<or> raftLog s' \<noteq> raftLog s
        \<longrightarrow> durable s')"

definition step_ok :: "('sm, MemStorage) Server \<Rightarrow> ('sm, MemStorage) Server \<Rightarrow> bool" where
  "step_ok s s' \<longleftrightarrow> node_good s' \<and> identity_kept s s' \<and> term_grows s s' \<and> vote_kept s s' \<and>
     leader_appends s s' \<and> change_durable s s' \<and> lastApplied s \<le> lastApplied s'"

lemmas step_parts = identity_kept_def term_grows_def vote_kept_def leader_appends_def change_durable_def

lemma step_ok_refl: "node_good s \<Longrightarrow> step_ok s s"
  by (auto simp: step_ok_def step_parts)

text \<open>A step that leaves term, own vote, log and disk alone.\<close>

lemma step_ok_quiet:
  assumes "node_good s" "storage s' = storage s" "raftLog s' = raftLog s" "logCap s' = logCap s"
    "map memberId (cluster s') = map memberId (cluster s)" "clusterIndex s' = clusterIndex s"
    "heartbeatMs s' = heartbeatMs s" "selfId s' = selfId s" "baseCluster s' = baseCluster s"
    "currentTerm s' = currentTerm s" "ownVote s' = ownVote s" "lastApplied s \<le> lastApplied s'"
  shows "step_ok s s'"
proof -
  have ok: "node_ok s" "loop_ok s" "founded s" using assms(1) by (auto simp: node_good_def node_inv_def)
  have "length (cluster s') = length (cluster s)"
    using assms(5) by (metis length_map)
  then have n: "node_ok s'" using ok(1) assms by (simp add: node_ok_def log_durable_def)
  have l: "loop_ok s'"
    by (rule loop_ok_members [OF ok(2) assms(5,6,8,9)]) (use ok(2) assms(3,4) in \<open>auto simp: loop_ok_def\<close>)
  have "node_good s'"
    using n l founded_cong [OF assms(5,9) ok(3)] by (simp add: node_good_def node_inv_def)
  moreover have "durable s' = durable s"
    using n ok(1) assms getVotedFor_ok [OF n] getVotedFor_ok [OF ok(1)]
    by (simp add: durable_def)
  ultimately show ?thesis using assms by (simp add: step_ok_def step_parts)
qed

text \<open>A step that ends with a successful \<^verbatim>\<open>persist\<close>.\<close>

lemma step_ok_persisted:
  assumes "node_good s" "node_ok s'" "durable s'"
    "map memberId (cluster s') = map memberId (cluster s)" "clusterIndex s' = clusterIndex s"
    "selfId s' = selfId s" "baseCluster s' = baseCluster s"
    "length (raftLog s') \<le> logCap s'" "\<forall>e \<in> set (raftLog s'). wf_command (Command e)"
    "term_grows s s'" "vote_kept s s'" "leader_appends s s'" "lastApplied s \<le> lastApplied s'"
  shows "step_ok s s'"
proof -
  have ok: "loop_ok s" "founded s" using assms(1) by (auto simp: node_good_def node_inv_def)
  have "loop_ok s'" by (rule loop_ok_members [OF ok(1) assms(4,5,6,7,8,9)])
  then have "node_good s'"
    using assms(2) founded_cong [OF assms(4,7) ok(2)] by (simp add: node_good_def node_inv_def)
  with assms show ?thesis by (simp add: step_ok_def identity_kept_def change_durable_def)
qed

lemma node_good_log:
  "node_good s \<Longrightarrow> length (raftLog s) \<le> logCap s \<and> (\<forall>e \<in> set (raftLog s). wf_command (Command e))"
  by (simp add: node_good_def node_inv_def loop_ok_def)

lemma node_good_ok: "node_good s \<Longrightarrow> node_ok s"
  by (simp add: node_good_def node_inv_def)

lemma same_log_parts:
  "raftLog s' = raftLog s \<Longrightarrow> leader_appends s s'"
  "currentTerm s' \<noteq> currentTerm s \<Longrightarrow> vote_kept s s'"
  "currentTerm s' \<noteq> currentTerm s \<Longrightarrow> leader_appends s s'"
  "ownVote s' = ownVote s \<Longrightarrow> vote_kept s s'"
  "currentTerm s \<le> currentTerm s' \<Longrightarrow> term_grows s s'"
  by (simp_all add: leader_appends_def vote_kept_def term_grows_def)

lemma reset_step_ok:
  assumes "node_good s" "resetElectionTimeout s = Inr s'"
  shows "step_ok s s'"
proof -
  have "0 < heartbeatMs s" using node_good_ok [OF assms(1)] by (simp add: node_ok_def)
  then obtain t where "resetElectionTimeout s = Inr t" "agree s t" "storage t = storage s"
    by (rule resetElectionTimeout_ok)
  with assms show ?thesis
    by (intro step_ok_quiet) (auto simp: agree_def ownVote_def)
qed

lemma heartbeat_step_ok:
  assumes "node_good s" "heartbeat s = (is, s')"
  shows "step_ok s s'"
  using assms
  by (intro step_ok_quiet) (auto simp: heartbeat_def Now_def Let_def ownVote_def split: if_splits)

lemma advance_step_ok:
  assumes "node_good s" "advanceCommitIndex s = Inr s'"
  shows "step_ok s s'"
proof -
  have f: "raftLog s \<noteq> []" "fits (length (raftLog s))"
    using node_good_ok [OF assms(1)] by (auto simp: node_ok_def)
  obtain c where c: "advanceLeaderCommit s = s\<lparr>commitIndex := c\<rparr>"
    using advanceLeaderCommit_ok [OF f] by blast
  show ?thesis
  proof (cases "lastApplied s \<le> c")
    case False
    with assms(2) advance_idle [OF f c] have "s' = s\<lparr>commitIndex := c\<rparr>" by simp
    with assms(1) show ?thesis by (intro step_ok_quiet) (simp_all add: ownVote_def)
  next
    case True
    obtain s2 where s2: "applyEntry (raftLog s ! unat (lastApplied s)) (s\<lparr>commitIndex := c\<rparr>) = Inr s2"
      "s' = s2\<lparr>lastApplied := lastApplied s2 + 1\<rparr>" "unat (lastApplied s) < length (raftLog s)"
      using assms(2) c True
      by (auto simp: advanceCommitIndex_def chain_Inr_iff Let_def split: if_splits)
    note fr = applyEntry_frame [OF s2(1)]
    have "unat (lastApplied s + 1) = Suc (unat (lastApplied s))"
      using s2(3) f by (intro unat_add_one) (simp add: fits_def)
    then have "lastApplied s \<le> lastApplied s + 1" by (simp add: word_le_nat_alt)
    with assms(1) s2(2) fr show ?thesis by (intro step_ok_quiet) (simp_all add: ownVote_def)
  qed
qed

lemma word_step: "(x :: u64) \<le> x + 1 \<or> x = - 1"
proof (cases "unat x < 18446744073709551615")
  case True
  then show ?thesis by (simp add: word_le_nat_alt unat_add_one)
next
  case False
  moreover have "unat (- 1 :: u64) = 18446744073709551615"
    by (simp add: unsigned_minus_1_eq_mask mask_eq_exp_minus_1)
  ultimately have "unat x = unat (- 1 :: u64)" using unat_u64_lt [of x] by linarith
  then show ?thesis by (simp only: word_unat_eq_iff) simp
qed

lemma timeout_step_ok:
  assumes "node_good s" "timeout s = Inr (is, s')"
  shows "step_ok s s'"
proof (cases "\<not> Passive s \<and> electionTimeout s < clock s 0")
  case True
  then obtain t where t: "timeout s = Inr (requestVote s, t)" "node_ok t" "durable t"
    "agree (s\<lparr>role := candidateState, currentTerm := currentTerm s + 1, cluster := resetVotes s\<rparr>) t"
    using timeout_starts_election [OF node_good_ok [OF assms(1)]] by metis
  have e: "s' = t" using assms(2) t(1) by simp
  have ne: "currentTerm t \<noteq> currentTerm s" using t(4) by (simp add: agree_def)
  have "term_grows s t" using t(4) word_step [of "currentTerm s"] by (simp add: term_grows_def agree_def)
  then show ?thesis
    unfolding e
    by (intro step_ok_persisted [OF assms(1) t(2,3)] same_log_parts(2,3) [OF ne])
      (use t(4) node_good_log [OF assms(1)] in \<open>simp_all add: agree_def ids_resetVotes\<close>)
next
  case False
  show ?thesis
  proof (cases "Passive s")
    case True
    with assms(2) timeout_waits(1) [of s] have "s' = s" by simp
    with assms(1) show ?thesis by (simp add: step_ok_refl)
  next
    case P: False
    with False have "clock s 0 \<le> electionTimeout s" by simp
    from assms(2) timeout_waits(2) [OF P this] have "s' = s\<lparr>clock := \<lambda>n. clock s (Suc n)\<rparr>" by simp
    with assms(1) show ?thesis by (intro step_ok_quiet) (simp_all add: ownVote_def)
  qed
qed

lemma becomeLeader_step_ok:
  assumes "node_good s" "fits (Suc (length (raftLog s)))" "becomeLeader grow s = Inr s'"
  shows "step_ok s s'"
proof (cases "majority (length (cluster s)) \<le> length (voters s)")
  case True
  obtain t where t: "becomeLeader grow s = Inr t" "node_ok t" "durable t" "currentTerm t = currentTerm s"
    "raftLog t = raftLog s @ [\<lparr>Command = [], entryTerm = currentTerm s, result = None\<rparr>]"
    "cluster t = map (\<lambda>m. m\<lparr>nextIndex := of_nat (length (raftLog s) + 1), matchIndex := 0\<rparr>) (cluster s)"
    "clusterIndex t = clusterIndex s" "selfId t = selfId s" "ownVote t = ownVote s"
    "lastApplied t = lastApplied s" "baseCluster t = baseCluster s"
    "logCap t = appendCap grow (logCap s) (length (raftLog s) + 1)"
    by (rule becomeLeader_wins [OF node_good_ok [OF assms(1)] assms(2) True])
  have e: "s' = t" using assms(3) t(1) by simp
  have "term_grows s t" "vote_kept s t" "leader_appends s t"
    using t(4,5,9) by (simp_all add: step_parts)
  then show ?thesis
    unfolding e
    by (intro step_ok_persisted [OF assms(1) t(2,3)])
      (use t node_good_log [OF assms(1)] in
        \<open>auto simp: comp_def appendCap_def wf_command_def isConfigChangeCommand_def\<close>)
next
  case False
  with assms(3) becomeLeader_waits [of s grow] have "s' = s" by simp
  with assms(1) show ?thesis by (simp add: step_ok_refl)
qed

lemma updateTerm_step_ok:
  assumes "node_good s" "updateTerm msg s = Inr (b, s')"
  shows "step_ok s s' \<and> (\<not> b \<longrightarrow> s' = s)"
proof -
  obtain t where t: "updateTerm msg s = Inr (currentTerm s < Term msg, t)" "node_ok t"
    "agree (adoptTerm (Term msg) s) t" "currentTerm s < Term msg \<longrightarrow> durable t"
    "\<not> currentTerm s < Term msg \<longrightarrow> t = s"
    by (rule updateTerm_ok [OF node_good_ok [OF assms(1)]])
  have e: "s' = t" "b = (currentTerm s < Term msg)" using assms(2) t(1) by simp_all
  show ?thesis
  proof (cases "currentTerm s < Term msg")
    case True
    have a: "currentTerm t = Term msg" "raftLog t = raftLog s" "logCap t = logCap s"
      "map memberId (cluster t) = map memberId (cluster s)" "clusterIndex t = clusterIndex s"
      "selfId t = selfId s" "baseCluster t = baseCluster s" "lastApplied t = lastApplied s"
      using t(3) True by (simp_all add: agree_def adoptTerm_def)
    have d: "durable t" using t(4) True by simp
    have ne: "currentTerm t \<noteq> currentTerm s" using True a(1) by auto
    have le: "currentTerm s \<le> currentTerm t" using True a(1) by simp
    have "step_ok s t"
      by (intro step_ok_persisted [OF assms(1) t(2) d] same_log_parts(2,3) [OF ne] same_log_parts(5) [OF le])
        (use a node_good_log [OF assms(1)] in simp_all)
    with True e show ?thesis by simp
  next
    case False
    with t(5) e assms(1) show ?thesis by (simp add: step_ok_refl)
  qed
qed

lemma response_step_ok:
  assumes "node_good s" "i \<noteq> clusterIndex s"
  shows "handleVoteResponse i req rsp s = Inr s' \<Longrightarrow> step_ok s s'"
    "handleAppendResponse i areq arsp s = Inr s' \<Longrightarrow> step_ok s s'"
proof -
  have quiet: "step_ok s (s\<lparr>cluster := (cluster s)[i := m]\<rparr>)"
    if "memberId m = memberId (cluster s ! i)" for m
  proof -
    have "map memberId ((cluster s)[i := m]) = map memberId (cluster s)"
      using that by (metis list_update_id map_update)
    with assms show ?thesis by (intro step_ok_quiet) (simp_all add: ownVote_def)
  qed
  assume h: "handleVoteResponse i req rsp s = Inr s'"
  then obtain b s1 where u: "updateTerm rsp s = Inr (b, s1)"
    by (auto simp: handleVoteResponse_def chain_Inr_iff)
  from updateTerm_step_ok [OF assms(1) u] have s1: "step_ok s s1" "\<not> b \<longrightarrow> s1 = s" by auto
  have "s' = s1 \<or> \<not> b \<and> s' = s1\<lparr>cluster := (cluster s1)[i := (cluster s1 ! i)\<lparr>votedFor := selfId s1\<rparr>]\<rparr>"
    using h u by (auto simp: handleVoteResponse_def split: if_splits)
  then show "step_ok s s'" using s1 quiet by auto
next
  have quiet: "step_ok s (s\<lparr>cluster := (cluster s)[i := m]\<rparr>)"
    if "memberId m = memberId (cluster s ! i)" for m
  proof -
    have "map memberId ((cluster s)[i := m]) = map memberId (cluster s)"
      using that by (metis list_update_id map_update)
    with assms show ?thesis by (intro step_ok_quiet) (simp_all add: ownVote_def)
  qed
  assume h: "handleAppendResponse i areq arsp s = Inr s'"
  then obtain b s1 where u: "updateTerm arsp s = Inr (b, s1)"
    by (auto simp: handleAppendResponse_def chain_Inr_iff)
  from updateTerm_step_ok [OF assms(1) u] have s1: "step_ok s s1" "\<not> b \<longrightarrow> s1 = s" by auto
  let ?n = "max (PrevLogIndex areq + of_nat (length (Entries areq)) + 1) 1"
  have "s' = s1 \<or> \<not> b \<and>
      (s' = s1\<lparr>cluster := (cluster s1)[i := (cluster s1 ! i)\<lparr>nextIndex := ?n, matchIndex := ?n - 1\<rparr>]\<rparr> \<or>
       s' = s1\<lparr>cluster := (cluster s1)[i :=
              (cluster s1 ! i)\<lparr>nextIndex := max (nextIndex (cluster s1 ! i) - 1) 1\<rparr>]\<rparr>)"
    using h u by (auto simp: handleAppendResponse_def Let_def split: if_splits)
  then show "step_ok s s'" using s1 quiet by auto
qed

lemma max_same: "max (a :: u64) b = a \<Longrightarrow> \<not> a < b"
  by (metis max.cobounded2 leD)

lemma on_vote_step_ok:
  assumes "node_good s" "HandleRequestVoteRequest req s = Inr (rsp, s')"
  shows "step_ok s s'"
proof -
  obtain t where t: "HandleRequestVoteRequest req s
       = Inr (\<lparr>Term = max (currentTerm s) (Term req), VoteGranted = grantable req s\<rparr>, t)" "node_ok t"
    "agree (if grantable req s then castVote (CandidateId req) (adoptTerm (Term req) s)
            else adoptTerm (Term req) s) t"
    "grantable req s \<or> currentTerm s < Term req \<longrightarrow> durable t"
    "\<not> grantable req s \<and> \<not> currentTerm s < Term req \<longrightarrow> t = s"
    by (rule HandleRequestVoteRequest_ok [OF node_good_ok [OF assms(1)]])
  have e: "s' = t" using assms(2) t(1) by simp
  have ci: "clusterIndex s < length (cluster s)" using node_good_ok [OF assms(1)] by (simp add: node_ok_def)
  show ?thesis
  proof (cases "grantable req s \<or> currentTerm s < Term req")
    case False
    with t(5) e assms(1) show ?thesis by (simp add: step_ok_refl)
  next
    case True
    have a: "currentTerm t = max (currentTerm s) (Term req)" "raftLog t = raftLog s" "logCap t = logCap s"
      "map memberId (cluster t) = map memberId (cluster s)" "clusterIndex t = clusterIndex s"
      "selfId t = selfId s" "baseCluster t = baseCluster s" "lastApplied t = lastApplied s"
      using t(3) by (auto simp: agree_def castVote_def adoptTerm_def max_def split: if_splits)
    have d: "durable t" using t(4) True by blast
    have v: "vote_kept s t"
    proof (cases "currentTerm t = currentTerm s")
      case True
      with a(1) have "\<not> currentTerm s < Term req" by (metis max_same)
      with \<open>grantable req s \<or> currentTerm s < Term req\<close> have g: "grantable req s" by blast
      then have "ownVote t = CandidateId req"
        using t(3) ci agree_ownVote [OF t(3)] by (simp add: ownVote_castVote)
      moreover have "ownVote s = 0 \<or> ownVote s = CandidateId req"
        using g \<open>\<not> currentTerm s < Term req\<close> by (simp add: grantable_def)
      ultimately show ?thesis by (auto simp: vote_kept_def)
    qed (rule same_log_parts(2))
    have le: "currentTerm s \<le> currentTerm t" using a(1) by simp
    show ?thesis
      unfolding e
      by (intro step_ok_persisted [OF assms(1) t(2) d] v same_log_parts(1) [OF a(2)] same_log_parts(5) [OF le])
        (use a node_good_log [OF assms(1)] in simp_all)
  qed
qed

lemma on_append_step_ok:
  assumes "node_good s" "HandleAppendEntriesRequest grow req s = Inr (rsp, s')"
    "unat (PrevLogIndex req) < length (raftLog s) \<longrightarrow> fits (Suc (unat (PrevLogIndex req)) + length (Entries req))"
  shows "step_ok s s'"
proof -
  have inv: "node_inv s" "founded s" using assms(1) by (simp_all add: node_good_def)
  have tk: "accepts req s \<longrightarrow> takeable req s" by (rule returned_takeable [OF inv(1) assms(2,3)])
  obtain t where t: "HandleAppendEntriesRequest grow req s
       = Inr (\<lparr>Term = max (currentTerm s) (Term req), Success = accepts req s\<rparr>, t)"
    "node_inv t" "currentTerm t = max (currentTerm s) (Term req)"
    "raftLog t = (if accepts req s then mergedLog req s else raftLog s)"
    "ownVote t = (if accepts req s \<and> conflicts req s then baseVote s
       else if currentTerm s < Term req then 0 else ownVote s)"
    "lastApplied t = lastApplied s" "selfId t = selfId s" "baseCluster t = baseCluster s"
    "accepts req s \<or> currentTerm s < Term req \<or> durable s \<longrightarrow> durable t"
    "(\<exists>ms. map memberId (cluster t) = map memberId (cluster s) @ ms) \<or> (\<exists>ms. cluster t = baseCluster s @ ms)"
    by (rule HandleAppendEntriesRequest_takes [OF inv(1) tk])
  have e: "s' = t" using assms(2) t(1) by simp
  have "founded t"
    using t(10,8) inv(2) by (auto simp: founded_def)
  moreover have "currentTerm s \<le> currentTerm t" using t(3) by simp
  moreover have "vote_kept s t"
  proof (unfold vote_kept_def, intro impI)
    assume a: "currentTerm t = currentTerm s \<and> ownVote s \<noteq> 0 \<and> (\<exists>ys. raftLog t = raftLog s @ ys)"
    with t(3) have nt: "\<not> currentTerm s < Term req" by (metis max_same)
    have "\<not> (accepts req s \<and> conflicts req s)"
      using a t(4) conflict_no_extension by (auto simp: mergedLog_def conflicts_def)
    with nt t(5) show "ownVote t = ownVote s" by auto
  qed
  moreover have "leader_appends s t"
  proof (unfold leader_appends_def, intro impI)
    assume a: "role s = leaderState \<and> currentTerm t = currentTerm s"
    with t(3) have "\<not> currentTerm s < Term req" by (metis max_same)
    with a have "\<not> accepts req s" by (auto simp: accepts_iff)
    with t(4) show "\<exists>ys. raftLog t = raftLog s @ ys" by simp
  qed
  moreover have "change_durable s t"
    using t(3,4,5,9) by (auto simp: change_durable_def max_def split: if_splits)
  ultimately show ?thesis
    using t(2,6,7,8) same_log_parts(5) by (simp add: e step_ok_def node_good_def identity_kept_def)
qed

lemma client_step_ok:
  assumes "node_good s" "Apply grow cs s = Inr (r, s')" "cs \<noteq> []"
    "\<forall>c \<in> set cs. wf_command c" "fits (length (raftLog s) + length cs)"
  shows "step_ok s s'"
proof (cases "role s = leaderState")
  case False
  with assms(1,2) show ?thesis by (simp add: Apply_def step_ok_refl)
next
  case True
  have cs: "\<forall>c \<in> set cs. length c \<le> 112" by (rule Apply_fit [OF assms(2) True assms(3)])
  obtain t where t: "Apply grow cs s = Inr (Inr ([nextChan s..<nextChan s + length cs], appendEntries t), t)"
    "node_ok t" "durable t" "raftLog t = raftLog s @ clientEntries (currentTerm s) (nextChan s) cs"
    "lastApplied t = lastApplied s" "cluster t = cluster s" "clusterIndex t = clusterIndex s"
    "currentTerm t = currentTerm s" "selfId t = selfId s" "baseCluster t = baseCluster s"
    "length (raftLog s) \<le> logCap s \<longrightarrow> length (raftLog t) \<le> logCap t"
    by (rule Apply_leader [OF node_good_ok [OF assms(1)] True assms(3) cs assms(5)])
  have e: "s' = t" using assms(2) t(1) by simp
  have "Command ` set (clientEntries (currentTerm s) (nextChan s) cs) = set cs"
    by (metis clientEntries_commands set_map)
  then have w: "\<forall>e \<in> set (raftLog t). wf_command (Command e)"
    using t(4) assms(4) node_good_log [OF assms(1)] by auto
  have "term_grows s t" "vote_kept s t" "leader_appends s t"
    using t(4,6,7,8) by (simp_all add: step_parts ownVote_def)
  then show ?thesis
    unfolding e
    by (intro step_ok_persisted [OF assms(1) t(2,3)])
      (use t(5-11) w node_good_log [OF assms(1)] in simp_all)
qed

lemma add_step_ok:
  assumes "node_good s" "AddServer grow i a s = Inr (q, s')" "fits (Suc (length (raftLog s)))"
  shows "step_ok s s'"
proof -
  have inv: "node_inv s" using assms(1) by (simp add: node_good_def)
  show ?thesis
  proof (cases "i \<noteq> 0 \<and> role s = leaderState \<and> pendingConfigChangeIndex s = 0 \<and> i \<notin> ids (cluster s) \<and>
      (\<exists>payload. encodeConfigChange (cluster s @ [newMember i a]) = Inr payload)")
    case False
    then have "s' = s"
      using assms(2) by (cases "encodeConfigChange (cluster s @ [newMember i a])")
        (auto simp: AddServer_def ids_def split: if_splits)
    with assms(1) show ?thesis by (simp add: step_ok_refl)
  next
    case True
    then obtain payload where req: "i \<noteq> 0" "role s = leaderState" "pendingConfigChangeIndex s = 0"
      "i \<notin> ids (cluster s)" "encodeConfigChange (cluster s @ [newMember i a]) = Inr payload" by blast
    obtain t where t: "AddServer grow i a s = Inr (Inr (Some (nextChan s, appendEntries t)), t)"
      "node_inv t" "durable t"
      "raftLog t = raftLog s @ [\<lparr>Command = payload, entryTerm = currentTerm s, result = Some (nextChan s)\<rparr>]"
      "cluster t = cluster s @ [\<lparr>memberId = i, Address = a, nextIndex = of_nat (length (raftLog s)) + 1,
         matchIndex = 0, votedFor = 0\<rparr>]" "clusterIndex t = clusterIndex s" "baseCluster t = baseCluster s"
      "currentTerm t = currentTerm s" "selfId t = selfId s" "lastApplied t = lastApplied s"
      by (rule AddServer_appends [OF inv req assms(3)])
    have e: "s' = t" using assms(2) t(1) by simp
    have "clusterIndex s < length (cluster s)" using node_good_ok [OF assms(1)] by (simp add: node_ok_def)
    then have ov: "ownVote t = ownVote s" by (simp add: ownVote_def t(5,6) nth_append)
    have "founded t" using assms(1) t(5,7) by (auto simp: node_good_def founded_def)
    with t ov show ?thesis by (simp add: e step_ok_def step_parts node_good_def)
  qed
qed

lemma stop_step_ok: "node_good s \<Longrightarrow> step_ok s (Stop s)"
  by (rule step_ok_quiet) (simp_all add: Stop_def ownVote_def)

lemmas operation_steps = reset_step_ok heartbeat_step_ok advance_step_ok timeout_step_ok

lemma loop_step_ok:
  assumes "node_good s" "fits (Suc (length (raftLog s)))" "loopStep grow p s = Inr (p', gs, s')"
  shows "step_ok s s'"
  using assms
  by (cases p)
    (auto simp: chain_Inr_iff Let_def step_ok_refl split: prod.splits
      intro: operation_steps becomeLeader_step_ok)

text \<open>Goroutines are started for other members only, and the own index does not move.\<close>

fun routineIndex :: "goroutine \<Rightarrow> nat" where
  "routineIndex (VoteTo i) = i"
| "routineIndex (VoteSent i _) = i"
| "routineIndex (AppendTo i) = i"
| "routineIndex (AppendSent i _) = i"

definition run_inv :: "('sm, MemStorage) Node \<Rightarrow> bool" where
  "run_inv n \<longleftrightarrow> node_good (server n) \<and> (\<forall>g \<in> set (routines n). routineIndex g \<noteq> clusterIndex (server n))"

lemma same_index:
  assumes "node_good s" "step_ok s s'"
  shows "clusterIndex s' = clusterIndex s"
proof -
  have a: "loop_ok s" "founded s" "loop_ok s'" "founded s'" "selfId s' = selfId s" "baseCluster s' = baseCluster s"
    using assms by (simp_all add: step_ok_def node_good_def node_inv_def identity_kept_def)
  from founded_index [OF a(1,2)] founded_index [OF a(3,4)] a(5,6) show ?thesis by simp
qed

lemma loop_routines:
  assumes "loopStep grow p s = Inr (p', gs, s')" "g \<in> set gs"
  shows "routineIndex g \<noteq> clusterIndex s'"
  using assms
  by (cases p)
    (auto simp: chain_Inr_iff heartbeat_def timeout_def requestVote_def appendEntries_def Let_def
      split: prod.splits if_splits)

lemma client_routines:
  "Apply grow cs s = Inr (Inr (chs, is), s') \<Longrightarrow> i \<in> set is \<Longrightarrow> i \<noteq> clusterIndex s'"
  by (auto simp: Apply_def chain_Inr_iff appendEntries_def split: if_splits prod.splits)

lemma add_routines:
  "AddServer grow j a s = Inr (Inr (Some (ch, is)), s') \<Longrightarrow> i \<in> set is \<Longrightarrow> i \<noteq> clusterIndex s'"
  by (auto simp: AddServer_def chain_Inr_iff appendEntries_def Let_def split: if_splits prod.splits sum.splits)

lemma run_inv_server: "step_ok (server n) s' \<Longrightarrow> run_inv n \<Longrightarrow> set gs \<subseteq> set (routines n) \<Longrightarrow>
  run_inv (n\<lparr>routines := gs, server := s'\<rparr>)"
  using same_index [of "server n" s'] by (auto simp: run_inv_def step_ok_def)

lemma run_inv_started:
  assumes "step_ok (server n) s'" "run_inv n" "\<forall>g \<in> set gs. routineIndex g \<noteq> clusterIndex s'"
  shows "run_inv \<lparr>point = p, routines = routines n @ gs, server = s'\<rparr>"
  using assms same_index [of "server n" s'] by (auto simp: run_inv_def step_ok_def)

lemma local_step_ok:
  assumes "local_step grow n n'" "run_inv n"
  shows "step_ok (server n) (server n') \<and> run_inv n'"
  using assms
proof (induction rule: local_step.induct)
  case (loop n p gs s')
  have "step_ok (server n) s'"
    using loop by (intro loop_step_ok) (auto simp: run_inv_def)
  then show ?case
    using run_inv_started [OF _ loop.prems] loop_routines [OF loop.hyps(1)] by simp
next
  case (vote_lost n xs i req ys)
  then show ?case by (auto simp: run_inv_def step_ok_refl)
next
  case (append_lost n xs i areq ys)
  then show ?case by (auto simp: run_inv_def step_ok_refl)
next
  case (client cs n r s')
  then have s: "step_ok (server n) s'" by (intro client_step_ok) (auto simp: run_inv_def)
  have "\<forall>g \<in> set (case r of Inl _ \<Rightarrow> [] | Inr (_, is) \<Rightarrow> map AppendTo is). routineIndex g \<noteq> clusterIndex s'"
    using client_routines [of grow cs "server n" _ _ s'] client.hyps(1) by (auto split: sum.splits)
  from run_inv_started [OF s client.prems this, of "point n"] s show ?case by (simp add: run_inv_def)
next
  case (add i addr n q s')
  then have s: "step_ok (server n) s'" by (intro add_step_ok) (auto simp: run_inv_def)
  have "\<forall>g \<in> set (case q of Inr (Some (_, is)) \<Rightarrow> map AppendTo is | _ \<Rightarrow> []). routineIndex g \<noteq> clusterIndex s'"
    using add_routines [of grow i addr "server n" _ _ s'] add.hyps(1) by (auto split: sum.splits option.splits)
  from run_inv_started [OF s add.prems this, of "point n"] s show ?case by (simp add: run_inv_def)
next
  case (stop n)
  then have "step_ok (server n) (Stop (server n))" by (intro stop_step_ok) (auto simp: run_inv_def)
  then show ?case using run_inv_server [OF _ stop.prems, of _ "routines n"] by simp
qed

lemma node_step_ok:
  assumes "node_step grow n n'" "run_inv n"
  shows "step_ok (server n) (server n') \<and> run_inv n'"
  using assms
proof (induction rule: node_step.induct)
  case (own n m)
  then show ?case by (rule local_step_ok)
next
  case (vote_send n xs i ys a req)
  then show ?case by (auto simp: run_inv_def step_ok_refl)
next
  case (vote_response n xs i req ys rsp s')
  then have "step_ok (server n) s'" by (intro response_step_ok(1)) (auto simp: run_inv_def)
  then show ?case using run_inv_server [OF _ vote_response.prems, of s' "xs @ ys"] vote_response.hyps(1) by auto
next
  case (append_send n xs i ys a areq)
  then show ?case by (auto simp: run_inv_def step_ok_refl)
next
  case (append_response n xs i areq ys arsp s')
  then have "step_ok (server n) s'" by (intro response_step_ok(2)) (auto simp: run_inv_def)
  then show ?case using run_inv_server [OF _ append_response.prems, of s' "xs @ ys"] append_response.hyps(1) by auto
next
  case (on_vote req n rsp s')
  then have "step_ok (server n) s'" by (intro on_vote_step_ok) (auto simp: run_inv_def)
  then show ?case using run_inv_server [OF _ on_vote.prems, of s' "routines n"] by simp
next
  case (on_append areq n arsp s')
  then have "step_ok (server n) s'" by (intro on_append_step_ok) (auto simp: run_inv_def)
  then show ?case using run_inv_server [OF _ on_append.prems, of s' "routines n"] by simp
qed

lemma reaches_inv: "reaches grow n m \<Longrightarrow> run_inv n \<Longrightarrow> run_inv m"
  by (induction rule: reaches.induct) (auto simp: node_step_ok)

end
