(* ===== verification/Run.thy ===== *)
theory Run
  imports Node
begin

text \<open>
  Runs of a node: a fresh node starts in the invariant of Node, every run keeps it, and each
  step of a run has the guarantees of Node. The pending goroutines are not covered by them:
  after a truncation a goroutine that was started earlier panics.
\<close>

lemma checkIds_ok: "\<forall>c \<in> set cs. memberId c \<noteq> 0 \<Longrightarrow> checkIds cs = Inr cs"
  by (induction cs) auto

lemma fresh_start:
  assumes "\<forall>c \<in> set cfg. memberId c \<noteq> 0" "idx < length cfg"
  obtains s n where "NewServer cfg machine (int idx) rnd clk = Inr s"
    "Start grow (Inr (memDevice NewMemStorage)) (s\<lparr>Passive := b\<rparr>) = Inr n" "run_inv n" "routines n = []"
    "point n = AtReset" "raftLog (server n) = [dummyEntry]" "currentTerm (server n) = 0"
    "selfId (server n) = memberId (cfg ! idx)" "cluster (server n) = cfg"
    "statemachine (server n) = machine" "delivered (server n) = []" "nextChan (server n) = 0"
    "Passive (server n) = b" "role (server n) = followerState" "baseCluster (server n) = cfg"
    "clock (server n) = clk" "heartbeatMs (server n) = 300" "commitIndex (server n) = 0" "lastApplied (server n) = 0"
    "stopped (server n) = False" "electionTimeout (server n) = 0" "heartbeatTimeout (server n) = 0"
proof -
  let ?s = "\<lparr>stopped = False, currentTerm = 0, raftLog = [], logCap = 0,
         selfId = memberId (cfg ! idx), selfAddress = Address (cfg ! idx),
         electionTimeout = 0, heartbeatMs = 300, heartbeatTimeout = 0,
         statemachine = machine, storage = None, baseCluster = cfg, Passive = False,
         commitIndex = 0, lastApplied = 0, role = NoState, cluster = cfg,
         clusterIndex = idx, pendingConfigChangeIndex = 0, rand = rnd, clock = clk,
         nextChan = 0, delivered = []\<rparr>"
  have new: "NewServer cfg machine (int idx) rnd clk = Inr ?s"
    using assms by (simp add: NewServer_def checkIds_ok)
  have mem: "memberId (cfg ! idx) \<in> ids cfg" using assms(2) by (simp add: ids_def)
  then obtain k where k: "resolveClusterIndex cfg (memberId (cfg ! idx)) = Inr k"
    by (auto simp: resolve_total)
  have kl: "k < length cfg" using resolve_Inr [OF k] by simp
  let ?n = "\<lparr>point = AtReset, routines = [], server = ?s\<lparr>Passive := b, role := followerState,
    storage := Some (memDevice NewMemStorage), raftLog := [dummyEntry], logCap := appendCap grow 0 1,
    clusterIndex := k\<rparr>\<rparr>"
  have rd: "Read (snd (Seek (memDevice NewMemStorage) 0 0)) PAGE_SIZE
      = Inr (([], Some EOF), memDevice NewMemStorage)"
    by (simp add: memDevice_def NewMemStorage_def MemSeek_def MemRead_def Seek_def Read_def)
  have "Start grow (Inr (memDevice NewMemStorage)) (?s\<lparr>Passive := b\<rparr>) = Inr ?n"
    using rd k assms(2)
    by (simp add: Start_def restore_def restoreLog_def ensureLog_def appendLog_def getVotedFor_def
        rebuildClusterFromLog_def isConfigChangeCommand_def)
  moreover have "logImage (data NewMemStorage) [dummyEntry]"
    by (simp add: NewMemStorage_def logImage_def stored_def entry_ok_def entryHead_def flip: replicate_add)
  ultimately show thesis
    using new k kl
    by (intro that [of ?s ?n])
      (simp_all add: run_inv_def node_good_def node_inv_def node_ok_def loop_ok_def log_durable_def
        founded_def fits_def mem appendCap_def wf_command_def isConfigChangeCommand_def)
qed


text \<open>
  C29: Every node that was made by \<^verbatim>\<open>NewServer\<close>, passive or not, and started by \<^verbatim>\<open>Start\<close> on an empty disk
  satisfies the node invariant at every moment of its run, in whatever interleaving vote requests,
  append requests, responses and clients' commands arrive with the main loop. Vote requests and
  responses are any at all; so are append requests, with entries of any size and content (the
  handler panics, and the run ends, on a config change that does not decode and on a new entry
  that does not fit its slot), up to one that would carry the log over its bound. Commands of a
  client are of any size; there is at least one per call, and none is a config change that does not decode.
  The invariant: the log is on disk, never empty, and every config change in it decodes; the
  node's own record is in its cluster, the founding members come first there, and no pending
  goroutine addresses the node itself.
\<close>

theorem run_invariant:
  assumes "\<forall>c \<in> set cfg. memberId c \<noteq> 0" "idx < length cfg"
    and "NewServer cfg machine (int idx) rnd clk = Inr s"
    and "Start grow (Inr (memDevice NewMemStorage)) (s\<lparr>Passive := passive\<rparr>) = Inr n"
    and "reaches grow n m"
  shows "run_inv m"
proof -
  obtain s1 n1 where f: "NewServer cfg machine (int idx) rnd clk = Inr s1"
    "Start grow (Inr (memDevice NewMemStorage)) (s1\<lparr>Passive := passive\<rparr>) = Inr n1" "run_inv n1"
    by (rule fresh_start [OF assms(1,2)])
  have "s1 = s" using assms(3) f(1) by (metis sum.inject(2))
  then have "n1 = n" using assms(4) f(2) by simp
  with f(3) reaches_inv [OF assms(5)] show ?thesis by simp
qed

text \<open>A run of the example: the loop draws its first timeout, then a vote request arrives.\<close>

lemma fresh_steps:
  obtains s n k where "NewServer threeNodes noopStateMachine (int 0) (\<lambda>_. 0) (\<lambda>_. 0) = Inr s"
    "Start (\<lambda>_ n. n) (Inr (memDevice NewMemStorage)) (s\<lparr>Passive := True\<rparr>) = Inr n" "reaches (\<lambda>_ n. n) n k" "run_inv k"
    "point k = AtTop" "routines k = []"
proof -
  have c: "\<forall>c \<in> set threeNodes. memberId c \<noteq> 0" "0 < length threeNodes" by (simp_all add: threeNodes_def)
  obtain s n where f: "NewServer threeNodes noopStateMachine (int 0) (\<lambda>_. 0) (\<lambda>_. 0) = Inr s"
    "Start (\<lambda>_ n. n) (Inr (memDevice NewMemStorage)) (s\<lparr>Passive := True\<rparr>) = Inr n" "run_inv n" "routines n = []"
    "point n = AtReset" "raftLog (server n) = [dummyEntry]"
    by (rule fresh_start [OF c])
  have "0 < heartbeatMs (server n)" using f(3) by (simp add: run_inv_def node_good_def node_inv_def node_ok_def)
  then obtain t where t: "resetElectionTimeout (server n) = Inr t" by (rule resetElectionTimeout_ok)
  have "node_step (\<lambda>_ n. n) n \<lparr>point = AtTop, routines = routines n @ [], server = t\<rparr>"
    using t f(5,6) by (intro node_step.own local_step.loop) (simp_all add: fits_def)
  with reaches.start have r: "reaches (\<lambda>_ n. n) n \<lparr>point = AtTop, routines = routines n @ [], server = t\<rparr>"
    by (rule reaches.step)
  from that [OF f(1,2) r reaches_inv [OF r f(3)]] f(4) show thesis by simp
qed

theorem run_invariant_witness:
  "\<exists>s n m. NewServer threeNodes noopStateMachine (int 0) (\<lambda>_. 0) (\<lambda>_. 0) = Inr s \<and>
    Start (\<lambda>_ n. n) (Inr (memDevice NewMemStorage)) (s\<lparr>Passive := True\<rparr>) = Inr n \<and> reaches (\<lambda>_ n. n) n m \<and>
    point m = AtTop \<and> run_inv m"
proof -
  obtain s n k where f: "NewServer threeNodes noopStateMachine (int 0) (\<lambda>_. 0) (\<lambda>_. 0) = Inr s"
    "Start (\<lambda>_ n. n) (Inr (memDevice NewMemStorage)) (s\<lparr>Passive := True\<rparr>) = Inr n" "reaches (\<lambda>_ n. n) n k"
    "point k = AtTop" by (rule fresh_steps)
  have "\<forall>c \<in> set threeNodes. memberId c \<noteq> 0" "0 < length threeNodes" by (simp_all add: threeNodes_def)
  from run_invariant [OF this f(1,2,3)] f show ?thesis by blast
qed

text \<open>
  C30: What one step of a run can do, be it of the main loop, of a goroutine, of a handler or of
  a client's call. The term does not decrease (unless the counter wraps). Within a term the
  node's vote, once given, stays, as long as the log is not truncated. A leader only appends to
  its log in its term. The state machine never steps back. And when the term, the vote or the
  log have changed, all three are on disk at the end of the step, before any answer is sent.
\<close>

theorem step_guarantees:
  assumes "run_inv n" "reaches grow n m" "node_step grow m k"
  shows "(currentTerm (server m) \<le> currentTerm (server k) \<or> currentTerm (server m) = - 1) \<and>
    (currentTerm (server k) = currentTerm (server m) \<and> ownVote (server m) \<noteq> 0 \<and>
      (\<exists>ys. raftLog (server k) = raftLog (server m) @ ys) \<longrightarrow> ownVote (server k) = ownVote (server m)) \<and>
    (role (server m) = leaderState \<and> currentTerm (server k) = currentTerm (server m) \<longrightarrow>
      (\<exists>ys. raftLog (server k) = raftLog (server m) @ ys)) \<and>
    lastApplied (server m) \<le> lastApplied (server k) \<and>
    (currentTerm (server k) \<noteq> currentTerm (server m) \<or> ownVote (server k) \<noteq> ownVote (server m) \<or>
      raftLog (server k) \<noteq> raftLog (server m) \<longrightarrow> durable (server k))"
proof -
  from node_step_ok [OF assms(3) reaches_inv [OF assms(2,1)]]
  have "step_ok (server m) (server k)" by blast
  then show ?thesis unfolding step_ok_def step_parts by blast
qed

theorem step_guarantees_witness:
  "\<exists>(m :: (unit, MemStorage) Node) k s' rsp. node_step (\<lambda>_ n. n) m k \<and> point m = AtTop \<and>
    HandleRequestVoteRequest \<lparr>Term = 7, CandidateId = 2, LastLogIndex = 0, LastLogTerm = 0\<rparr> (server m) = Inr (rsp, s') \<and>
    k = m\<lparr>server := s'\<rparr> \<and>
    (currentTerm (server m) \<le> currentTerm (server k) \<or> currentTerm (server m) = - 1) \<and>
    lastApplied (server m) \<le> lastApplied (server k)"
proof -
  let ?req = "\<lparr>Term = 7, CandidateId = 2, LastLogIndex = 0, LastLogTerm = 0\<rparr> :: RequestVoteRequest"
  obtain n k :: "(unit, MemStorage) Node" where f: "reaches (\<lambda>_ n. n) n k" "run_inv k" "point k = AtTop"
    by (rule fresh_steps)
  have "node_ok (server k)" using f(2) by (simp add: run_inv_def node_good_def node_inv_def)
  then obtain rsp s' where h: "HandleRequestVoteRequest ?req (server k) = Inr (rsp, s')"
    by (rule HandleRequestVoteRequest_ok)
  have st: "node_step (\<lambda>_ n. n) k (k\<lparr>server := s'\<rparr>)" by (rule node_step.on_vote [OF h])
  from step_guarantees [OF f(2) reaches.start st, THEN conjunct1]
    step_guarantees [OF f(2) reaches.start st, THEN conjunct2, THEN conjunct2, THEN conjunct2, THEN conjunct1]
    st h f(3) show ?thesis
    by (intro exI [of _ k] exI [of _ "k\<lparr>server := s'\<rparr>"] exI [of _ s'] exI [of _ rsp]) simp
qed

text \<open>
  C31: A leader's goroutine that has not yet taken the mutex when its node is told of a newer
  leader crashes the node. The goroutine does not check that the node still leads; a
  conflicting request of the newer term truncates the log and rebuilds the cluster from the
  founding members, whose next index is 0; for a founding member the goroutine then computes
  the previous index \<open>0 - 1\<close> in 64 bits and indexes the log with it.
\<close>

theorem late_append_panics:
  assumes "node_inv s" "wf_request req" "accepts req s" "conflicts req s"
    and "i < length (baseCluster s)" "nextIndex (baseCluster s ! i) = 0"
  shows "\<exists>rsp s'. HandleAppendEntriesRequest grow req s = Inr (rsp, s') \<and> Success rsp \<and>
    buildAppendEntries i s' = Inl (IndexOutOfRange, s')"
proof -
  obtain s' where s': "HandleAppendEntriesRequest grow req s
      = Inr (\<lparr>Term = max (currentTerm s) (Term req), Success = accepts req s\<rparr>, s')" "node_inv s'"
    "accepts req s \<and> conflicts req s \<longrightarrow> (\<exists>ms. cluster s' = baseCluster s @ ms)"
    by (rule HandleAppendEntriesRequest_ok [OF assms(1,2)])
  from s'(3) assms(3,4) obtain ms where ms: "cluster s' = baseCluster s @ ms" by blast
  then have n: "nextIndex (cluster s' ! i) = 0" using assms(5,6) by (simp add: nth_append)
  have "fits (length (raftLog s'))" using s'(2) by (simp add: node_inv_def node_ok_def)
  then have "length (raftLog s') \<le> unat (- 1 :: u64)"
    by (simp add: fits_def unsigned_minus_1_eq_mask mask_eq_exp_minus_1)
  with n ms assms(5) have "buildAppendEntries i s' = Inl (IndexOutOfRange, s')"
    by (simp add: buildAppendEntries_def Let_def)
  with s'(1) assms(3) show ?thesis by auto
qed

theorem late_append_panics_witness:
  "\<exists>m rsp s'. role (demo demoLog 3 1 m\<lparr>role := leaderState\<rparr>) = leaderState \<and>
    HandleAppendEntriesRequest (\<lambda>_ n. n)
      \<lparr>Term = 4, LeaderId = 2, PrevLogIndex = 0, PrevLogTerm = 0,
       Entries = [\<lparr>Command = [5], entryTerm = 4, result = None\<rparr>], LeaderCommit = 0\<rparr>
      (demo demoLog 3 1 m\<lparr>role := leaderState\<rparr>) = Inr (rsp, s') \<and> Success rsp \<and>
    buildAppendEntries 1 s' = Inl (IndexOutOfRange, s')"
proof -
  obtain m where d: "durable (demo demoLog 3 1 m)" by (rule demo_persisted)
  let ?s = "demo demoLog 3 1 m\<lparr>role := leaderState\<rparr>"
  let ?req = "\<lparr>Term = 4, LeaderId = 2, PrevLogIndex = 0, PrevLogTerm = 0,
       Entries = [\<lparr>Command = [5], entryTerm = 4, result = None\<rparr>], LeaderCommit = 0\<rparr> :: AppendEntriesRequest"
  have "node_inv (demo demoLog 3 1 m)" by (rule node_inv_demo [OF d]) simp_all
  then have inv: "node_inv ?s" by (subst node_inv_cong [of ?s "demo demoLog 3 1 m"]) simp_all
  have wf: "wf_request ?req"
    by (simp add: wf_request_def entry_ok_def wf_command_def isConfigChangeCommand_def configChangeMarker_def)
  have acc: "accepts ?req ?s" by (simp add: accepts_iff validPreviousLog_def)
  have con: "conflicts ?req ?s" by (simp add: conflicts_def demoLog_def)
  have base: "1 < length (baseCluster ?s)" "nextIndex (baseCluster ?s ! 1) = 0" by (simp_all add: threeNodes_def newMember_def)
  from late_append_panics [OF inv wf acc con base, of "\<lambda>_ n. n"] show ?thesis by auto
qed

end
