(* ===== verification/Kv_Service.thy ===== *)
theory Kv_Service
  imports Kv_Api Run
begin

text \<open>
  The key-value service on a node: what the clients of the service see of a committed log, the
  bound on keys and values, and the end of the loop that writes a response.
\<close>

section \<open>The log as a map\<close>

lemma kv_run_ok:
  assumes "raftLog s = pre @ clientEntries t ch (map encodeCommand cs) @ post"
    "unat (lastApplied s) = length pre" "fits (length (raftLog s))"
    "length pre + length cs \<le> Suc (unat (commitIndex s))"
    "sm_Apply (statemachine s) = kvApply" "\<forall>c \<in> set cs. kv_command c"
    "\<forall>p \<in> set (delivered s). fst p < ch"
  obtains s' where "advanceRun (length cs) s = Inr s'"
    "db (sm (statemachine s')) = snd (kvRun (db (sm (statemachine s))) cs)"
    "length (fst (kvRun (db (sm (statemachine s))) cs)) = length cs"
    "delivered s' = delivered s @ zip [ch..<ch + length cs] (fst (kvRun (db (sm (statemachine s))) cs))"
    "awaitResults [ch..<ch + length cs] s' = Some (fst (kvRun (db (sm (statemachine s))) cs))"
proof -
  let ?rs = "fst (kvRun (db (sm (statemachine s))) cs)"
  let ?y = "(sm (statemachine s))\<lparr>db := snd (kvRun (db (sm (statemachine s))) cs)\<rparr>"
  have a: "answers (sm_Apply (statemachine s)) (sm (statemachine s)) (map encodeCommand cs) = Inr (?rs, ?y)"
    using assms(5) kv_answers [OF assms(6)] by simp
  have c: "\<forall>b \<in> set (map encodeCommand cs). b \<noteq> [] \<and> \<not> isConfigChangeCommand b"
    using assms(6) kv_command_client by auto
  have len: "length pre + length (map encodeCommand cs) \<le> Suc (unat (commitIndex s))"
    using assms(4) by simp
  from advanceRun_answers [OF assms(1-3) len c a]
  obtain s' where s': "advanceRun (length cs) s = Inr s'" "sm (statemachine s') = ?y" "length ?rs = length cs"
    "delivered s' = delivered s @ zip [ch..<ch + length cs] ?rs" by auto
  then have "delivered s' = delivered s @ zip [ch..<ch + length ?rs] ?rs" by simp
  from await_delivered [OF this assms(7)] s' that show thesis by simp
qed

text \<open>
  C32: The service is a map. Let a stretch of the log hold the encoded commands \<open>cs\<close> of
  clients, and let the state machine have applied everything before it. As soon as the stretch is
  committed, one \<^verbatim>\<open>advanceCommitIndex\<close> per command returns without a panic, the database is
  the map that the commands produce in order, and what \<^verbatim>\<open>Apply\<close> returns to the callers is
  what the map answers: nothing for a set, the value for a get, an error for a missing key.
\<close>

theorem kv_over_raft:
  assumes "raftLog s = pre @ clientEntries t ch (map encodeCommand cs) @ post"
    "unat (lastApplied s) = length pre" "fits (length (raftLog s))"
    "length pre + length cs \<le> Suc (unat (commitIndex s))"
    "sm_Apply (statemachine s) = kvApply" "\<forall>c \<in> set cs. kv_command c"
    "\<forall>p \<in> set (delivered s). fst p < ch"
  shows "\<exists>s'. advanceRun (length cs) s = Inr s' \<and>
    awaitResults [ch..<ch + length cs] s' = Some (fst (kvRun (db (sm (statemachine s))) cs)) \<and>
    db (sm (statemachine s')) = snd (kvRun (db (sm (statemachine s))) cs)"
proof -
  obtain s' where "advanceRun (length cs) s = Inr s'"
    "db (sm (statemachine s')) = snd (kvRun (db (sm (statemachine s))) cs)"
    "awaitResults [ch..<ch + length cs] s' = Some (fst (kvRun (db (sm (statemachine s))) cs))"
    by (rule kv_run_ok [OF assms])
  then show ?thesis by blast
qed

text \<open>A leader of a fresh three-node cluster with an empty database.\<close>

lemma kv_leader:
  obtains s :: "(kvMachine, MemStorage) Server" where "node_ok s" "role s = leaderState"
    "raftLog s = [dummyEntry]" "lastApplied s = 1" "statemachine s = kvStateMachine 0" "delivered s = []"
    "nextChan s = 0" "currentTerm s = 0"
proof -
  have c: "\<forall>c \<in> set threeNodes. memberId c \<noteq> 0" "0 < length threeNodes" by (simp_all add: threeNodes_def)
  obtain n :: "(kvMachine, MemStorage) Node" where n: "run_inv n" "raftLog (server n) = [dummyEntry]"
    "currentTerm (server n) = 0" "statemachine (server n) = kvStateMachine 0" "delivered (server n) = []"
    "nextChan (server n) = 0"
    using fresh_start [OF c, of "kvStateMachine 0" "\<lambda>_. 0" "\<lambda>_. 0"] by metis
  let ?s = "server n\<lparr>role := leaderState, lastApplied := 1\<rparr>"
  have "node_ok (server n)" using n(1) by (simp add: run_inv_def node_good_def node_inv_def)
  then have "node_ok ?s" by (simp add: node_ok_def log_durable_def)
  with n that [of ?s] show thesis by simp
qed

theorem kv_over_raft_witness:
  "\<exists>(s :: (kvMachine, MemStorage) Server) s'. advanceRun 3 s = Inr s' \<and>
    awaitResults [5, 6, 7] s' = Some [\<lparr>Result = [], Error = None\<rparr>,
      \<lparr>Result = bytesOf ''v'', Error = None\<rparr>, \<lparr>Result = [], Error = Some ''key not found''\<rparr>] \<and>
    db (sm (statemachine s')) ''k'' = Some ''v''"
proof -
  obtain s0 :: "(kvMachine, MemStorage) Server" where s0: "raftLog s0 = [dummyEntry]" "lastApplied s0 = 1"
    "statemachine s0 = kvStateMachine 0" "delivered s0 = []" by (rule kv_leader)
  let ?cs = "[\<lparr>kind = 0, key = ''k'', val = ''v''\<rparr>, \<lparr>kind = 1, key = ''k'', val = []\<rparr>,
    \<lparr>kind = 1, key = ''x'', val = []\<rparr>]"
  let ?s = "s0\<lparr>raftLog := [dummyEntry] @ clientEntries 2 5 (map encodeCommand ?cs) @ [], commitIndex := 3\<rparr>"
  have "\<exists>s'. advanceRun (length ?cs) ?s = Inr s' \<and>
    awaitResults [5..<5 + length ?cs] s' = Some (fst (kvRun (db (sm (statemachine ?s))) ?cs)) \<and>
    db (sm (statemachine s')) = snd (kvRun (db (sm (statemachine ?s))) ?cs)"
    by (rule kv_over_raft [where pre = "[dummyEntry]" and t = 2 and post = "[]"])
      (use s0 in \<open>simp_all add: fits_def kv_command_def kvStateMachine_def\<close>)
  then obtain s' where s': "advanceRun (length ?cs) ?s = Inr s'"
    "awaitResults [5..<5 + length ?cs] s' = Some (fst (kvRun (db (sm (statemachine ?s))) ?cs))"
    "db (sm (statemachine s')) = snd (kvRun (db (sm (statemachine ?s))) ?cs)" by blast
  have len: "length ?cs = 3" and chs: "[5..<5 + length ?cs] = [5, 6, 7]" by (simp_all add: upt_rec)
  have "db (sm (statemachine ?s)) = (\<lambda>_. None)" using s0 by (simp add: kvStateMachine_def)
  then have "fst (kvRun (db (sm (statemachine ?s))) ?cs) = [\<lparr>Result = [], Error = None\<rparr>,
      \<lparr>Result = bytesOf ''v'', Error = None\<rparr>, \<lparr>Result = [], Error = Some ''key not found''\<rparr>]"
    "snd (kvRun (db (sm (statemachine ?s))) ?cs) ''k'' = Some ''v''" by simp_all
  with s' show ?thesis unfolding len chs by (intro exI [of _ ?s] exI [of _ s']) simp
qed

section \<open>Set and get\<close>

text \<open>
  C33: A client reads what was written. On a leader whose state machine is up to date, a \<^verbatim>\<open>/set\<close>
  request followed by a \<^verbatim>\<open>/get\<close> request for the same key are both accepted, and once the
  two entries are committed and applied, the answer to the second request is the value of the
  first with status 200.
\<close>

theorem set_then_get:
  assumes "node_ok s" "role s = leaderState" "fits (length (raftLog s) + 2)"
    "sm_Apply (statemachine s) = kvApply" "unat (lastApplied s) = length (raftLog s)"
    "\<forall>p \<in> set (delivered s). fst p < nextChan s" "length k + length v \<le> 95"
    "length (raftLog s) < unat c"
  shows "\<exists>w1 s1 w2 s2 s3 rs.
    setHandler grow [(''key'', k), (''value'', v)] s = Inr (Inr w1, s1) \<and>
    getHandler grow [(''key'', k)] s1 = Inr (Inr w2, s2) \<and>
    advanceRun 2 (s2\<lparr>commitIndex := c\<rparr>) = Inr s3 \<and>
    awaitResults (fst w2) s3 = Some rs \<and> getReply rs = \<lparr>StatusCode = 200, Body = v\<rparr>"
proof -
  let ?c1 = "\<lparr>kind = 0, key = k, val = v\<rparr>" and ?c2 = "\<lparr>kind = 1, key = k, val = []\<rparr>"
  let ?ch = "nextChan s" and ?n = "length (raftLog s)"
  have kc: "kv_command ?c1" "kv_command ?c2" using assms(7) by (simp_all add: kv_command_def)
  have ne: "[encodeCommand ?c1] \<noteq> []" "[encodeCommand ?c2] \<noteq> []" by simp_all
  have le: "\<forall>b \<in> set [encodeCommand ?c1]. length b \<le> 112" "\<forall>b \<in> set [encodeCommand ?c2]. length b \<le> 112"
    using assms(7) by (simp_all add: length_encodeCommand)
  have f1: "fits (length (raftLog s) + length [encodeCommand ?c1])" using assms(3) by (rule fits_mono) simp
  obtain s1 where s1: "Apply grow [encodeCommand ?c1] s
      = Inr (Inr ([?ch..<?ch + length [encodeCommand ?c1]], appendEntries s1), s1)" "node_ok s1" "role s1 = leaderState"
    "raftLog s1 = raftLog s @ clientEntries (currentTerm s) ?ch [encodeCommand ?c1]"
    "statemachine s1 = statemachine s" "delivered s1 = delivered s" "lastApplied s1 = lastApplied s"
    "currentTerm s1 = currentTerm s" "nextChan s1 = Suc ?ch"
    using Apply_leader [OF assms(1,2) ne(1) le(1) f1] Apply_nextChan [of grow "[encodeCommand ?c1]" s]
    by (metis One_nat_def add.commute length_Cons list.size(3) plus_1_eq_Suc)
  have f2: "fits (length (raftLog s1) + length [encodeCommand ?c2])" using assms(3) s1(4) by simp
  obtain s2 where s2: "Apply grow [encodeCommand ?c2] s1
      = Inr (Inr ([Suc ?ch..<Suc ?ch + length [encodeCommand ?c2]], appendEntries s2), s2)"
    "raftLog s2 = raftLog s1 @ clientEntries (currentTerm s) (Suc ?ch) [encodeCommand ?c2]"
    "statemachine s2 = statemachine s" "delivered s2 = delivered s" "lastApplied s2 = lastApplied s"
    using Apply_leader [OF s1(2,3) ne(2) le(2) f2] s1(5-9) by metis
  let ?s3 = "s2\<lparr>commitIndex := c\<rparr>"
  have log: "raftLog ?s3 = raftLog s @ clientEntries (currentTerm s) ?ch (map encodeCommand [?c1, ?c2]) @ []"
    using s1(4) s2(2) by simp
  obtain s' where s': "advanceRun (length [?c1, ?c2]) ?s3 = Inr s'"
    "delivered s' = delivered ?s3 @ zip [?ch..<?ch + length [?c1, ?c2]] (fst (kvRun (db (sm (statemachine ?s3))) [?c1, ?c2]))"
    by (rule kv_run_ok [OF log]) (use assms s2 log kc in \<open>simp_all\<close>)
  have "map_of (delivered s) (Suc ?ch) = None"
    using assms(6) by (auto simp: map_of_eq_None_iff)
  then have "awaitResults [Suc ?ch] s' = Some [\<lparr>Result = bytesOf v, Error = None\<rparr>]"
    using s'(2) s2(4) by (simp add: awaitResults_def upt_rec Let_def map_add_def split: prod.split)
  moreover have "setHandler grow [(''key'', k), (''value'', v)] s = Inr (Inr ([?ch], appendEntries s1), s1)"
    using s1(1) by (simp add: setHandler_def Get_def)
  moreover have "getHandler grow [(''key'', k)] s1 = Inr (Inr ([Suc ?ch], appendEntries s2), s2)"
    using s2(1) by (simp add: getHandler_def Get_def)
  moreover have "getReply [\<lparr>Result = bytesOf v, Error = None\<rparr>] = \<lparr>StatusCode = 200, Body = v\<rparr>"
    by (simp add: getReply_def textOf_bytesOf)
  moreover have "advanceRun 2 ?s3 = Inr s'" using s'(1) by (simp add: numeral_2_eq_2)
  ultimately show ?thesis by (metis fst_conv)
qed

theorem set_then_get_witness:
  "\<exists>(s :: (kvMachine, MemStorage) Server) w1 s1 w2 s2 s3 rs.
    setHandler (\<lambda>_ n. n) [(''key'', ''k''), (''value'', ''v'')] s = Inr (Inr w1, s1) \<and>
    getHandler (\<lambda>_ n. n) [(''key'', ''k'')] s1 = Inr (Inr w2, s2) \<and>
    advanceRun 2 (s2\<lparr>commitIndex := 2\<rparr>) = Inr s3 \<and>
    awaitResults (fst w2) s3 = Some rs \<and> getReply rs = \<lparr>StatusCode = 200, Body = ''v''\<rparr>"
proof -
  obtain s :: "(kvMachine, MemStorage) Server" where s: "node_ok s" "role s = leaderState"
    "raftLog s = [dummyEntry]" "lastApplied s = 1" "statemachine s = kvStateMachine 0" "delivered s = []"
    by (rule kv_leader)
  have "\<exists>w1 s1 w2 s2 s3 rs.
    setHandler (\<lambda>_ n. n) [(''key'', ''k''), (''value'', ''v'')] s = Inr (Inr w1, s1) \<and>
    getHandler (\<lambda>_ n. n) [(''key'', ''k'')] s1 = Inr (Inr w2, s2) \<and>
    advanceRun 2 (s2\<lparr>commitIndex := 2\<rparr>) = Inr s3 \<and>
    awaitResults (fst w2) s3 = Some rs \<and> getReply rs = \<lparr>StatusCode = 200, Body = ''v''\<rparr>"
    by (rule set_then_get) (use s in \<open>simp_all add: fits_def kvStateMachine_def\<close>)
  then show ?thesis by blast
qed

section \<open>Sizes\<close>

text \<open>
  C34: The bound on what a client may store. A \<^verbatim>\<open>/set\<close> request on a leader is appended exactly
  if key and value have at most 95 bytes together. The handler does not check this: any larger
  request ends in the panic of \<^verbatim>\<open>persist\<close>, which leaves the entry in the leader's log.
\<close>

theorem set_size_bound:
  assumes "node_ok s" "role s = leaderState" "fits (Suc (length (raftLog s)))"
  shows "if length k + length v \<le> 95
    then \<exists>w s'. setHandler grow [(''key'', k), (''value'', v)] s = Inr (Inr w, s') \<and>
      length (raftLog s') = Suc (length (raftLog s)) \<and> durable s'
    else \<exists>s'. setHandler grow [(''key'', k), (''value'', v)] s
        = Inl (CommandTooLarge (17 + length k + length v), s') \<and>
      length (raftLog s') = Suc (length (raftLog s))"
proof -
  let ?c = "\<lparr>kind = 0, key = k, val = v\<rparr>" and ?ch = "nextChan s"
  let ?new = "clientEntries (currentTerm s) ?ch [encodeCommand ?c]"
  have h: "setHandler grow [(''key'', k), (''value'', v)] s =
      chain (Apply grow [encodeCommand ?c] s) (\<lambda>(r, s1). case r of
        Inl err \<Rightarrow> Inr (Inl (httpError (statusText 400) 400), s1) | Inr w \<Rightarrow> Inr (Inr w, s1))"
    by (simp add: setHandler_def Get_def)
  show ?thesis
  proof (cases "length k + length v \<le> 95")
    case True
    have le: "\<forall>b \<in> set [encodeCommand ?c]. length b \<le> 112" using True by (simp add: length_encodeCommand)
    have f: "fits (length (raftLog s) + length [encodeCommand ?c])" using assms(3) by simp
    have ne: "[encodeCommand ?c] \<noteq> []" by simp
    obtain s' where "Apply grow [encodeCommand ?c] s
        = Inr (Inr ([?ch..<?ch + length [encodeCommand ?c]], appendEntries s'), s')" "durable s'"
      "raftLog s' = raftLog s @ ?new"
      by (rule Apply_leader [OF assms(1,2) ne le f])
    with True h show ?thesis by simp
  next
    case False
    obtain cap where cap: "appendCommands grow [encodeCommand ?c] s = ([?ch..<?ch + length [encodeCommand ?c]],
       s\<lparr>nextChan := ?ch + length [encodeCommand ?c], raftLog := raftLog s @ ?new, logCap := cap\<rparr>)"
      using appendCommands_ok [of grow "[encodeCommand ?c]" s] by blast
    let ?s1 = "s\<lparr>nextChan := ?ch + length [encodeCommand ?c], raftLog := raftLog s @ ?new, logCap := cap\<rparr>"
    obtain m where m: "storage s = Some (memDevice m)" "mem_valid m"
      using assms(1) by (auto simp: node_ok_def log_durable_def)
    have v: "getVotedFor ?s1 = Inr (ownVote s)"
      using assms(1) by (simp add: getVotedFor_def node_ok_def ownVote_def)
    obtain d where "persist True 1 ?s1 = Inl (CommandTooLarge (length (encodeCommand ?c)), ?s1\<lparr>storage := Some (memDevice d)\<rparr>)"
      using mem.persist_refuses [of ?s1 m "ownVote s" "raftLog s" "\<lparr>Command = encodeCommand ?c, entryTerm = currentTerm s, result = Some ?ch\<rparr>"]
        m v False assms(1) by (auto simp: entry_ok_def length_encodeCommand node_ok_def)
    then have "Apply grow [encodeCommand ?c] s
        = Inl (CommandTooLarge (length (encodeCommand ?c)), ?s1\<lparr>storage := Some (memDevice d)\<rparr>)"
      using assms(2) cap by (simp add: Apply_def)
    with False h show ?thesis by (simp add: length_encodeCommand)
  qed
qed

theorem set_size_bound_witness:
  "\<exists>(s :: (kvMachine, MemStorage) Server) s'. role s = leaderState \<and>
    setHandler (\<lambda>_ n. n) [(''key'', replicate 48 CHR ''k''), (''value'', replicate 48 CHR ''v'')] s
      = Inl (CommandTooLarge 113, s')"
proof -
  obtain s :: "(kvMachine, MemStorage) Server" where s: "node_ok s" "role s = leaderState"
    "raftLog s = [dummyEntry]" by (rule kv_leader)
  have "fits (Suc (length (raftLog s)))" using s(3) by (simp add: fits_def)
  from set_size_bound [OF s(1,2) this, where k = "replicate 48 CHR ''k''" and v = "replicate 48 CHR ''v''"
      and grow = "\<lambda>_ n. n"] s(2)
  show ?thesis by auto
qed

section \<open>Writing the response\<close>

text \<open>
  The loop of the get handler ends. On every writer that keeps the contract of
  \<^verbatim>\<open>io.Writer\<close> (it takes at least one byte or returns an error) the loop returns; without an error
  it has sent exactly the value, and with one a prefix of it.
\<close>

theorem writeLoop_terminates:
  assumes "io_writer wr sent"
  shows "\<exists>e w'. writeLoop wr bs 0 w = Some (e, w') \<and> (e = None \<longrightarrow> sent w' = sent w @ bs) \<and>
    (\<exists>k \<le> length bs. sent w' = sent w @ take k bs)"
  using writeLoop_ends [OF assms, of 0 bs w] by simp

text \<open>A writer that takes two bytes at a time.\<close>

theorem writeLoop_terminates_witness:
  "\<exists>e w'. writeLoop (\<lambda>w bs. ((min 2 (length bs), None), w @ take 2 bs)) [1, 2, 3] 0 [] = Some (e, w') \<and>
    (e = None \<longrightarrow> w' = [1, 2, 3])"
proof -
  have "io_writer (\<lambda>w bs. ((min 2 (length bs), None), w @ take 2 bs)) (\<lambda>w. w)"
    by (auto simp: io_writer_def min_def)
  from writeLoop_terminates [OF this, of "[1, 2, 3]" "[]"] show ?thesis by auto
qed

end
