(* ===== verification/Kv_Config.thy ===== *)
theory Kv_Config
  imports Kv_Service
begin

text \<open>
  The command line of the service (\<^verbatim>\<open>getConfig\<close> and \<^verbatim>\<open>main\<close> of cmd/kv-api/main.go). \<open>args\<close> is
  \<^verbatim>\<open>os.Args\<close> with the program's name first. \<^verbatim>\<open>log.Fatal\<close> and a panic are the two ways to end.
  Go's range loop ignores the \<^verbatim>\<open>i++\<close> in its body, so a value is looked at again as an option.
\<close>

record config =
  cfgCluster :: "ClusterMember list"
  cfgIndex :: int
  cfgId :: string        \<comment> \<open>never set\<close>
  cfgAddress :: string   \<comment> \<open>never set\<close>
  cfgHttp :: string
  pendingJoin :: bool

datatype exit = LogFatal string | Crash panic

definition crashes :: "panic + 'a \<Rightarrow> exit + 'a" where
  "crashes r = (case r of Inl p \<Rightarrow> Inl (Crash p) | Inr x \<Rightarrow> Inr x)"

fun parseMembers :: "string list \<Rightarrow> ClusterMember list \<Rightarrow> exit + ClusterMember list" where
  "parseMembers [] ms = Inr ms"
| "parseMembers (part # parts) ms =
     (let idAddress = Split (CHR '','') part
      in case ParseUint (hd idAddress) of
           None \<Rightarrow> Inl (LogFatal (''expected $id to be a valid integer in `--cluster $id,$ip`, got: ['' @
                      Join '' '' idAddress @ '']''))
         | Some i \<Rightarrow>
             if length idAddress < 2 then Inl (Crash IndexOutOfRange)
             else parseMembers parts (ms @ [newMember i (bytesOf (idAddress ! 1))]))"

text \<open>The loop over \<^verbatim>\<open>os.Args[1:]\<close>, with the configuration and the last value of \<^verbatim>\<open>--node\<close>.\<close>

fun configLoop :: "string list \<Rightarrow> config \<times> string \<Rightarrow> exit + (config \<times> string)" where
  "configLoop [] (cfg, node) = Inr (cfg, node)"
| "configLoop (arg # rest) (cfg, node) =
     (if arg = ''--node''
      then (case rest of
              [] \<Rightarrow> Inl (Crash IndexOutOfRange)
            | v # _ \<Rightarrow>
                (case Atoi v of
                   None \<Rightarrow> Inl (LogFatal (''expected $value to be a valid integer in `--node $value`, got: '' @ v))
                 | Some i \<Rightarrow> configLoop rest (cfg\<lparr>cfgIndex := i\<rparr>, v)))
      else if arg = ''--http''
      then (case rest of
              [] \<Rightarrow> Inl (Crash IndexOutOfRange)
            | v # _ \<Rightarrow> configLoop rest (cfg\<lparr>cfgHttp := v\<rparr>, node))
      else if arg = ''--cluster''
      then (case rest of
              [] \<Rightarrow> Inl (Crash IndexOutOfRange)
            | v # _ \<Rightarrow> chain (parseMembers (Split (CHR '';'') v) (cfgCluster cfg)) (\<lambda>ms.
                configLoop rest (cfg\<lparr>cfgCluster := ms\<rparr>, node)))
      else if arg = ''--pending-join'' then configLoop rest (cfg\<lparr>pendingJoin := True\<rparr>, node)
      else configLoop rest (cfg, node))"

fun checkDuplicates :: "u64 list \<Rightarrow> ClusterMember list \<Rightarrow> exit + unit" where
  "checkDuplicates seen [] = Inr ()"
| "checkDuplicates seen (m # ms) =
     (if memberId m \<in> set seen then Inl (LogFatal (''duplicate id in --cluster: '' @ showNat (unat (memberId m))))
      else checkDuplicates (memberId m # seen) ms)"

definition getConfig :: "string list \<Rightarrow> exit + config" where
  "getConfig args =
     chain (configLoop (tl args) (\<lparr>cfgCluster = [], cfgIndex = 0, cfgId = [], cfgAddress = [], cfgHttp = [], pendingJoin = False\<rparr>, [])) (\<lambda>(cfg, node).
       if node = [] then Inl (LogFatal ''missing required parameter: --node $index'')
       else if cfgHttp cfg = [] then Inl (LogFatal ''missing required parameter: --http $address'')
       else if cfgCluster cfg = []
       then Inl (LogFatal ''missing required parameter: --cluster $node1Id,$node1Address;...;$nodeNId,$nodeNAddress'')
       else chain (checkDuplicates [] (cfgCluster cfg)) (\<lambda>_. Inr cfg))"

text \<open>
  \<^verbatim>\<open>main\<close> up to \<^verbatim>\<open>http.ListenAndServe\<close>: the node that its goroutine starts. The disk that
  \<^verbatim>\<open>NewFileStorage\<close> opens, the generator and the clock are parameters.
\<close>

definition kvMain ::
  "(nat \<Rightarrow> nat \<Rightarrow> nat) \<Rightarrow> panic + 'st Storage \<Rightarrow> (nat \<Rightarrow> nat) \<Rightarrow> (nat \<Rightarrow> time) \<Rightarrow> string list
     \<Rightarrow> exit + (kvMachine, 'st) Node" where
  "kvMain grow openFile rnd clk args =
     chain (getConfig args) (\<lambda>cfg.
     chain (crashes (NewServer (cfgCluster cfg) (kvStateMachine (cfgIndex cfg)) (cfgIndex cfg) rnd clk)) (\<lambda>s.
     crashes (Start grow openFile (s\<lparr>Passive := pendingJoin cfg\<rparr>))))"

section \<open>What the parsers accept\<close>

definition memberText :: "nat \<Rightarrow> string \<Rightarrow> string" where
  "memberText i a = showNat i @ '','' @ a"

lemma showNat_sep [text_simps]: "CHR '','' \<notin> set (showNat n)" "CHR '';'' \<notin> set (showNat n)"
  by (rule showNat_no, simp)+

lemma parseMembers_ok:
  "\<forall>(i, a) \<in> set ias. i < 18446744073709551616 \<and> CHR '','' \<notin> set a \<Longrightarrow>
     parseMembers (map (\<lambda>(i, a). memberText i a) ias) ms
       = Inr (ms @ map (\<lambda>(i, a). newMember (of_nat i) (bytesOf a)) ias)"
proof (induction ias arbitrary: ms)
  case (Cons p ias)
  obtain i a where p: "p = (i, a)" by fastforce
  with Cons.prems have "Split (CHR '','') (memberText i a) = [showNat i, a]"
    by (simp add: memberText_def Split_first Split_none text_simps)
  with Cons p show ?case by (simp add: ParseUint_showNat)
qed simp

lemma checkDuplicates_ok:
  "distinct (map memberId ms) \<Longrightarrow> set seen \<inter> ids ms = {} \<Longrightarrow> checkDuplicates seen ms = Inr ()"
  by (induction ms arbitrary: seen) (auto simp: ids_def)

lemma checkDuplicates_distinct:
  "checkDuplicates seen ms = Inr () \<Longrightarrow> distinct (map memberId ms) \<and> set seen \<inter> ids ms = {}"
proof (induction ms arbitrary: seen)
  case (Cons m ms)
  then have "memberId m \<notin> set seen" "checkDuplicates (memberId m # seen) ms = Inr ()"
    by (auto split: if_splits)
  with Cons.IH [of "memberId m # seen"] show ?case by (auto simp: ids_def)
qed simp

lemma getConfig_distinct: "getConfig args = Inr cfg \<Longrightarrow> distinct (map memberId (cfgCluster cfg)) \<and> cfgCluster cfg \<noteq> []"
  using checkDuplicates_distinct by (fastforce simp: getConfig_def chain_Inr_iff split: if_splits)

end
