(* ===== verification/Compose.thy ===== *)
theory Compose
  imports Kv_Config
begin

text \<open>
  The compose file of navi-cli (cmd/navi-cli/compose.go): the addresses and cluster strings, the
  nodes of a new and of an extended cluster, and the text of the file. Running docker is
  outside; the command line that the file gives to a node's container is \<open>kvArgs\<close>.
\<close>

record composeNode =
  Index :: nat
  NodeArg :: nat
  HostPort :: nat
  Cluster :: string
  PendingJoin :: bool

record composeData =
  Nodes :: "composeNode list"
  DebugFlag :: bool

definition composeFileName :: string where
  "composeFileName = ''docker-compose.generated.yml''"

section \<open>The text of the file\<close>

definition newline :: string where
  "newline = [CHR 0x0A]"

definition quoted :: "string \<Rightarrow> string" where
  "quoted s = CHR 0x22 # s @ [CHR 0x22]"

definition kvArgs :: "composeNode \<Rightarrow> string list" where
  "kvArgs nd = [''--node'', showNat (NodeArg nd), ''--http'', '':2020'', ''--cluster'', Cluster nd] @
     (if PendingJoin nd then [''--pending-join''] else [])"

definition nodeText :: "bool \<Rightarrow> composeNode \<Rightarrow> string" where
  "nodeText debug nd = newline @ Join newline
     [''  node'' @ showNat (Index nd) @ '':'',
      ''    build: .'',
      ''    container_name: kv-node'' @ showNat (Index nd),
      ''    hostname: node'' @ showNat (Index nd),
      ''    command: ['' @ Join '', '' (map quoted (kvArgs nd)) @ '']'',
      ''    ports:'',
      ''      - '' @ quoted (showNat (HostPort nd) @ '':2020''),
      ''    networks:'',
      ''      - raft'',
      ''    deploy:'',
      ''      resources:'',
      ''        limits:'',
      ''          cpus: '' @ quoted ''1'',
      ''          memory: 3G'',
      ''    environment:'',
      ''      DEBUG: '' @ quoted (if debug then ''true'' else ''false'')]"

definition composeText :: "composeData \<Rightarrow> string" where
  "composeText d =
     ''services:'' @ concat (map (nodeText (DebugFlag d)) (Nodes d)) @
     newline @ newline @ ''networks:'' @ newline @ ''  raft:'' @ newline @ ''    driver: bridge'' @ newline"

text \<open>The errors that creating, writing and closing the file may return.\<close>

record fileErrors =
  createErr :: "string option"
  executeErr :: "string option"
  closeErr :: "string option"

definition renderCompose :: "fileErrors \<Rightarrow> composeData \<Rightarrow> string + string" where
  "renderCompose env d =
     (case createErr env of
        Some e \<Rightarrow> Inl (''could not create '' @ composeFileName @ '': '' @ e)
      | None \<Rightarrow>
          (case executeErr env of
             Some e \<Rightarrow> Inl (''could not render compose template: '' @ e)
           | None \<Rightarrow>
               (case closeErr env of
                  Some e \<Rightarrow> Inl (''could not write '' @ composeFileName @ '': '' @ e)
                | None \<Rightarrow> Inr (composeText d))))"

section \<open>Nodes\<close>

definition raftAddress :: "nat \<Rightarrow> string" where
  "raftAddress i = ''node'' @ showNat i @ '':3030''"

definition clusterSpec :: "nat \<Rightarrow> string" where
  "clusterSpec i = showNat i @ '','' @ raftAddress i"

definition clusterString :: "nat \<Rightarrow> string" where
  "clusterString n = Join '';'' (map clusterSpec [1..<Suc n])"

text \<open>The loop over the nodes 1 to \<open>n\<close>, shared by both functions.\<close>

definition composeNodes :: "nat \<Rightarrow> composeNode list" where
  "composeNodes n =
     map (\<lambda>i. \<lparr>Index = i, NodeArg = i - 1, HostPort = 2020 + i, Cluster = clusterString n, PendingJoin = False\<rparr>)
       [1..<Suc n]"

text \<open>An error, or the path, the ports and the text written.\<close>

definition GenerateCompose :: "fileErrors \<Rightarrow> int \<Rightarrow> bool \<Rightarrow> string + (string \<times> nat list \<times> string)" where
  "GenerateCompose env n debug =
     (if n < 1 then Inl (''node count must be at least 1, got '' @ showInt n)
      else chain (renderCompose env \<lparr>Nodes = composeNodes (nat n), DebugFlag = debug\<rparr>) (\<lambda>text.
        Inr (composeFileName, map (\<lambda>i. 2020 + i) [1..<Suc (nat n)], text)))"

definition joiningNode :: "nat \<Rightarrow> composeNode" where
  "joiningNode newIndex =
     \<lparr>Index = newIndex, NodeArg = 0, HostPort = 2020 + newIndex, Cluster = clusterSpec newIndex, PendingJoin = True\<rparr>"

text \<open>An error, or the path, the new index, port and address, and the text written.\<close>

definition AddComposeNode ::
  "fileErrors \<Rightarrow> nat \<Rightarrow> bool \<Rightarrow> string + (string \<times> nat \<times> nat \<times> string \<times> string)" where
  "AddComposeNode env existingN debug =
     (if existingN < 1 then Inl (''no existing nodes to add to (existingN='' @ showNat existingN @ '')'')
      else chain (renderCompose env
               \<lparr>Nodes = composeNodes existingN @ [joiningNode (existingN + 1)], DebugFlag = debug\<rparr>) (\<lambda>text.
        Inr (composeFileName, existingN + 1, 2020 + (existingN + 1), raftAddress (existingN + 1), text)))"

section \<open>Parsing what was generated\<close>

lemma clusterSpec_text: "clusterSpec i = memberText i (raftAddress i)"
  by (simp add: clusterSpec_def memberText_def)

lemma raftAddress_sep: "CHR '','' \<notin> set (raftAddress i)" "CHR '';'' \<notin> set (raftAddress i)"
  by (simp_all add: raftAddress_def text_simps)

lemma clusterSpec_sep: "CHR '';'' \<notin> set (clusterSpec i)"
  by (simp add: clusterSpec_def raftAddress_sep text_simps)

definition memberOf :: "nat \<Rightarrow> ClusterMember" where
  "memberOf i = newMember (of_nat i) (bytesOf (raftAddress i))"

lemma parse_specs:
  assumes "\<forall>i \<in> set is. i < 18446744073709551616"
  shows "parseMembers (map clusterSpec is) [] = Inr (map memberOf is)"
proof -
  have "parseMembers (map (\<lambda>(i, a). memberText i a) (map (\<lambda>i. (i, raftAddress i)) is)) []
      = Inr ([] @ map (\<lambda>(i, a). newMember (of_nat i) (bytesOf a)) (map (\<lambda>i. (i, raftAddress i)) is))"
    using assms by (intro parseMembers_ok) (auto simp: raftAddress_sep)
  moreover have "clusterSpec = (\<lambda>i. memberText i (raftAddress i))" "memberOf = (\<lambda>i. newMember (of_nat i) (bytesOf (raftAddress i)))"
    by (simp_all add: fun_eq_iff clusterSpec_text memberOf_def)
  ultimately show ?thesis by (simp add: comp_def)
qed

lemma Split_specs: "is \<noteq> [] \<Longrightarrow> Split (CHR '';'') (Join '';'' (map clusterSpec is)) = map clusterSpec is"
  by (rule Split_Join) (auto simp: clusterSpec_sep)

lemma starts_with_digit:
  "set (showNat n @ s) \<noteq> {}" "hd (showNat n @ s) \<noteq> CHR ''-''"
  using hd_showNat [of n] showNat_nonempty [of n] by auto

lemma not_option:
  "showNat n @ s \<noteq> ''--node''" "showNat n @ s \<noteq> ''--http''" "showNat n @ s \<noteq> ''--cluster''"
  "showNat n @ s \<noteq> ''--pending-join''"
  using starts_with_digit(2) [of n s] by (metis list.sel(1))+

lemma Join_spec_prefix: "is \<noteq> [] \<Longrightarrow> \<exists>s. Join '';'' (map clusterSpec is) = showNat (hd is) @ s"
proof (cases "is" rule: list.exhaust)
  case (Cons i js)
  then show ?thesis by (cases js) (auto simp: clusterSpec_def)
qed simp

lemma distinct_memberOf:
  "distinct is \<Longrightarrow> \<forall>i \<in> set is. i < 18446744073709551616 \<Longrightarrow> distinct (map memberId (map memberOf is))"
  by (induction "is") (auto simp: memberOf_def newMember_def dest!: arg_cong [where f = unat] simp: unat_of_nat_64)

lemma getConfig_compose:
  assumes "is \<noteq> []" "distinct is" "\<forall>i \<in> set is. i < 18446744073709551616" "k < 9223372036854775808"
  shows "getConfig (prog # [''--node'', showNat k, ''--http'', '':2020'', ''--cluster'',
      Join '';'' (map clusterSpec is)] @ (if pj then [''--pending-join''] else []))
    = Inr \<lparr>cfgCluster = map memberOf is, cfgIndex = int k, cfgId = [], cfgAddress = [], cfgHttp = '':2020'',
        pendingJoin = pj\<rparr>"
proof -
  obtain s where s: "Join '';'' (map clusterSpec is) = showNat (hd is) @ s"
    using Join_spec_prefix [OF assms(1)] by blast
  note n = not_option [of k "[]", simplified] not_option [of "hd is" s]
  have sp: "Split (CHR '';'') (showNat (hd is) @ s) = map clusterSpec is"
    using Split_specs [OF assms(1)] s by simp
  have d: "checkDuplicates [] (map memberOf is) = Inr ()"
    by (rule checkDuplicates_ok [OF distinct_memberOf [OF assms(2,3)]]) simp
  show ?thesis
    unfolding s using n sp parse_specs [OF assms(3)] Atoi_showNat [OF assms(4)] showNat_nonempty [of k] d assms(1)
    by (simp add: getConfig_def)
qed

section \<open>From the compose file to a running node\<close>

lemma memberOf_nonzero: "0 < i \<Longrightarrow> i < 18446744073709551616 \<Longrightarrow> memberId (memberOf i) \<noteq> 0"
  by (simp add: memberOf_def newMember_def) (metis unat_of_nat_64 unat_0 less_not_refl)

lemma kvMain_starts:
  assumes "distinct is" "\<forall>i \<in> set is. 0 < i \<and> i < 18446744073709551616"
    "k < length is" "k < 9223372036854775808"
  obtains nd where "kvMain grow (Inr (memDevice NewMemStorage)) rnd clk
      (prog # [''--node'', showNat k, ''--http'', '':2020'', ''--cluster'', Join '';'' (map clusterSpec is)] @
        (if pj then [''--pending-join''] else [])) = Inr nd"
    "run_inv nd" "selfId (server nd) = of_nat (is ! k)" "cluster (server nd) = map memberOf is"
    "Passive (server nd) = pj"
proof -
  have b: "\<forall>i \<in> set is. i < 18446744073709551616" and ne: "is \<noteq> []" using assms(2,3) by auto
  have c: "\<forall>c \<in> set (map memberOf is). memberId c \<noteq> 0" "k < length (map memberOf is)"
    using assms(2,3) memberOf_nonzero by auto
  obtain s nd where s: "NewServer (map memberOf is) (kvStateMachine (int k)) (int k) rnd clk = Inr s"
    "Start grow (Inr (memDevice NewMemStorage)) (s\<lparr>Passive := pj\<rparr>) = Inr nd" "run_inv nd"
    "selfId (server nd) = memberId (map memberOf is ! k)" "cluster (server nd) = map memberOf is"
    "Passive (server nd) = pj"
    by (rule fresh_start [OF c])
  have "selfId (server nd) = of_nat (is ! k)"
    using s(4) assms(3) by (simp add: memberOf_def newMember_def)
  with s show thesis
    by (intro that [of nd]) (simp_all only: kvMain_def getConfig_compose [OF ne assms(1) b assms(4)]
      chain_simps config.simps crashes_def sum.case)
qed

text \<open>
  C35: Every node that \<^verbatim>\<open>start-navi\<close> describes comes up as a member of the described cluster. For
  each node of \<^verbatim>\<open>GenerateCompose\<close>, \<^verbatim>\<open>main\<close> of the service with the command line of the compose
  file parses it, builds the server and starts it on an empty disk without an error or panic;
  the node satisfies the invariant of a run, has the index in the file as its id, and its
  cluster is the nodes 1 to \<open>n\<close> with their raft addresses. It takes part in elections.
\<close>

theorem composed_node_starts:
  assumes "nd \<in> set (composeNodes n)" "n < 9223372036854775808"
  shows "\<exists>node. kvMain grow (Inr (memDevice NewMemStorage)) rnd clk (prog # kvArgs nd) = Inr node \<and>
    run_inv node \<and> selfId (server node) = of_nat (Index nd) \<and>
    map memberId (cluster (server node)) = map of_nat [1..<Suc n] \<and>
    map Address (cluster (server node)) = map (\<lambda>i. bytesOf (raftAddress i)) [1..<Suc n] \<and>
    \<not> Passive (server node)"
proof -
  obtain i where i: "1 \<le> i" "i < Suc n"
    "nd = \<lparr>Index = i, NodeArg = i - 1, HostPort = 2020 + i, Cluster = clusterString n, PendingJoin = False\<rparr>"
    using assms(1) by (auto simp: composeNodes_def)
  let ?is = "[1..<Suc n]"
  have h: "distinct ?is" "\<forall>i \<in> set ?is. 0 < i \<and> i < 18446744073709551616" "i - 1 < length ?is"
    "i - 1 < 9223372036854775808" "?is ! (i - 1) = i"
    using assms(2) i(1,2) by (auto simp: nth_upt simp del: upt_Suc)
  obtain node where node: "kvMain grow (Inr (memDevice NewMemStorage)) rnd clk
      (prog # [''--node'', showNat (i - 1), ''--http'', '':2020'', ''--cluster'', Join '';'' (map clusterSpec ?is)] @
        (if False then [''--pending-join''] else [])) = Inr node"
    "run_inv node" "selfId (server node) = of_nat (?is ! (i - 1))" "cluster (server node) = map memberOf ?is"
    "Passive (server node) = False"
    by (rule kvMain_starts [OF h(1-4)])
  have "kvArgs nd = [''--node'', showNat (i - 1), ''--http'', '':2020'', ''--cluster'', Join '';'' (map clusterSpec ?is)] @
      (if False then [''--pending-join''] else [])"
    by (simp add: kvArgs_def i(3) clusterString_def del: upt_Suc)
  with node h(5) i(3) show ?thesis
    by (intro exI [of _ node]) (simp add: memberOf_def newMember_def comp_def del: upt_Suc)
qed

theorem composed_node_starts_witness:
  "\<exists>node. kvMain (\<lambda>_ n. n) (Inr (memDevice NewMemStorage)) (\<lambda>_. 0) (\<lambda>_. 0)
      [''kv-api'', ''--node'', ''1'', ''--http'', '':2020'', ''--cluster'',
       ''1,node1:3030;2,node2:3030;3,node3:3030''] = Inr node \<and> run_inv node \<and> selfId (server node) = 2"
proof -
  let ?nd = "\<lparr>Index = 2, NodeArg = 1, HostPort = 2022, Cluster = clusterString 3, PendingJoin = False\<rparr>"
  have m: "?nd \<in> set (composeNodes 3)" by (simp add: composeNodes_def upt_rec)
  have d: "showNat 1 = ''1''" "showNat 2 = ''2''" "showNat 3 = ''3''"
    by (simp_all add: showNat.simps digit_def char_of_def bit_0)
  have "[1..<Suc 3] = [1, 2, 3]" by (simp add: upt_rec)
  then have a: "kvArgs ?nd = [''--node'', ''1'', ''--http'', '':2020'', ''--cluster'',
       ''1,node1:3030;2,node2:3030;3,node3:3030'']"
    by (simp add: kvArgs_def clusterString_def clusterSpec_def raftAddress_def d d(1) [unfolded One_nat_def] del: upt_Suc)
  from composed_node_starts [OF m, of "\<lambda>_ n. n" "\<lambda>_. 0" "\<lambda>_. 0" "''kv-api''"] a
  show ?thesis by auto
qed

text \<open>
  The node that \<^verbatim>\<open>add-node\<close> starts waits to be added. With the command line that
  \<^verbatim>\<open>AddComposeNode\<close> puts in the file the service comes up as a passive node which knows only
  itself, under the new id; \<^verbatim>\<open>timeout\<close> of a passive node starts no election.
\<close>

theorem joining_node_waits:
  assumes "0 < i" "i < 9223372036854775808"
  shows "\<exists>node. kvMain grow (Inr (memDevice NewMemStorage)) rnd clk (prog # kvArgs (joiningNode i)) = Inr node \<and>
    run_inv node \<and> selfId (server node) = of_nat i \<and> map memberId (cluster (server node)) = [of_nat i] \<and>
    timeout (server node) = Inr ([], server node)"
proof -
  have h: "distinct [i]" "\<forall>j \<in> set [i]. 0 < j \<and> j < 18446744073709551616" "0 < length [i]"
    "(0 :: nat) < 9223372036854775808"
    using assms by auto
  obtain node where node: "kvMain grow (Inr (memDevice NewMemStorage)) rnd clk
      (prog # [''--node'', showNat 0, ''--http'', '':2020'', ''--cluster'', Join '';'' (map clusterSpec [i])] @
        (if True then [''--pending-join''] else [])) = Inr node"
    "run_inv node" "selfId (server node) = of_nat ([i] ! 0)" "cluster (server node) = map memberOf [i]"
    "Passive (server node) = True"
    by (rule kvMain_starts [OF h])
  have "kvArgs (joiningNode i) = [''--node'', showNat 0, ''--http'', '':2020'', ''--cluster'', Join '';'' (map clusterSpec [i])] @
      (if True then [''--pending-join''] else [])"
    by (simp add: kvArgs_def joiningNode_def)
  with node show ?thesis
    by (intro exI [of _ node]) (simp add: memberOf_def newMember_def timeout_def)
qed

theorem joining_node_waits_witness:
  "\<exists>node. kvMain (\<lambda>_ n. n) (Inr (memDevice NewMemStorage)) (\<lambda>_. 0) (\<lambda>_. 0)
      [''kv-api'', ''--node'', ''0'', ''--http'', '':2020'', ''--cluster'', ''4,node4:3030'', ''--pending-join'']
    = Inr node \<and> timeout (server node) = Inr ([], server node)"
proof -
  have d: "showNat 0 = ''0''" "showNat 4 = ''4''" by (simp_all add: showNat.simps digit_def char_of_def bit_0)
  have a: "kvArgs (joiningNode 4) = [''--node'', ''0'', ''--http'', '':2020'', ''--cluster'', ''4,node4:3030'', ''--pending-join'']"
    by (simp add: kvArgs_def joiningNode_def clusterSpec_def raftAddress_def d)
  from joining_node_waits [of 4 "\<lambda>_ n. n" "\<lambda>_. 0" "\<lambda>_. 0" "''kv-api''"] a show ?thesis by auto
qed

end
