(* ===== verification/Memory_Network.thy ===== *)
theory Memory_Network
  imports Run
begin

text \<open>
  The in-memory network (navi/transport_memory.go) with its transports and the manual clock
  (navi/clock.go). Transports, servers and the channels of \<^verbatim>\<open>Pause\<close> are shared objects of the Go
  program: here a world maps their numbers to their states. What a node relies on when it
  calls through a transport is the locale \<open>transport\<close>.
\<close>

section \<open>The network\<close>

datatype net_error = ErrNoRoute | ErrPartitioned | ErrDropped

record MemoryNetwork =
  nodes :: "bytes \<Rightarrow> nat option"
  partitioned :: "bytes \<Rightarrow> bool"
  dropped :: "bytes \<times> bytes \<Rightarrow> bool"
  delay :: int

definition NewMemoryNetwork :: MemoryNetwork where
  "NewMemoryNetwork = \<lparr>nodes = (\<lambda>_. None), partitioned = (\<lambda>_. False), dropped = (\<lambda>_. False), delay = 0\<rparr>"

definition register :: "bytes \<Rightarrow> nat \<Rightarrow> MemoryNetwork \<Rightarrow> MemoryNetwork" where
  "register a t n = n\<lparr>nodes := (nodes n)(a \<mapsto> t)\<rparr>"

definition unregister :: "bytes \<Rightarrow> MemoryNetwork \<Rightarrow> MemoryNetwork" where
  "unregister a n = n\<lparr>nodes := (nodes n)(a := None)\<rparr>"

definition Partition :: "bytes \<Rightarrow> MemoryNetwork \<Rightarrow> MemoryNetwork" where
  "Partition a n = n\<lparr>partitioned := (partitioned n)(a := True)\<rparr>"

definition Heal :: "bytes \<Rightarrow> MemoryNetwork \<Rightarrow> MemoryNetwork" where
  "Heal a n = n\<lparr>partitioned := (partitioned n)(a := False)\<rparr>"

definition Drop :: "bytes \<Rightarrow> bytes \<Rightarrow> MemoryNetwork \<Rightarrow> MemoryNetwork" where
  "Drop a b n = n\<lparr>dropped := (dropped n)((a, b) := True)\<rparr>"

definition Undrop :: "bytes \<Rightarrow> bytes \<Rightarrow> MemoryNetwork \<Rightarrow> MemoryNetwork" where
  "Undrop a b n = n\<lparr>dropped := (dropped n)((a, b) := False)\<rparr>"

definition Delay :: "int \<Rightarrow> MemoryNetwork \<Rightarrow> MemoryNetwork" where
  "Delay d n = n\<lparr>delay := d\<rparr>"

definition route :: "bytes \<Rightarrow> bytes \<Rightarrow> MemoryNetwork \<Rightarrow> net_error + (nat \<times> int)" where
  "route src dst n =
     (if partitioned n src \<or> partitioned n dst then Inl ErrPartitioned
      else if dropped n (src, dst) then Inl ErrDropped
      else case nodes n dst of None \<Rightarrow> Inl ErrNoRoute | Some t \<Rightarrow> Inr (t, delay n))"

section \<open>Transports\<close>

record MemoryTransport =
  tAddress :: bytes
  tServer :: "nat option"
  paused :: bool
  resumeCh :: "nat option"

record ('sm, 'st) World =
  network :: MemoryNetwork
  transports :: "nat \<Rightarrow> MemoryTransport"
  servers :: "nat \<Rightarrow> ('sm, 'st) Server"
  chanCount :: nat
  closedChs :: "nat list"

definition NewMemoryTransport :: MemoryTransport where
  "NewMemoryTransport = \<lparr>tAddress = [], tServer = None, paused = False, resumeCh = None\<rparr>"

definition Serve :: "nat \<Rightarrow> nat \<Rightarrow> ('sm, 'st) World \<Rightarrow> ('sm, 'st) World" where
  "Serve t i w =
     w\<lparr>transports := (transports w)(t := (transports w t)\<lparr>tAddress := selfAddress (servers w i), tServer := Some i\<rparr>),
       network := register (selfAddress (servers w i)) t (network w)\<rparr>"

definition CloseTransport :: "nat \<Rightarrow> ('sm, 'st) World \<Rightarrow> ('sm, 'st) World" where
  "CloseTransport t w = w\<lparr>network := unregister (tAddress (transports w t)) (network w)\<rparr>"

definition Pause :: "nat \<Rightarrow> ('sm, 'st) World \<Rightarrow> ('sm, 'st) World" where
  "Pause t w =
     (if paused (transports w t) then w
      else w\<lparr>transports := (transports w)(t := (transports w t)\<lparr>paused := True, resumeCh := Some (chanCount w)\<rparr>),
             chanCount := Suc (chanCount w)\<rparr>)"

definition Resume :: "nat \<Rightarrow> ('sm, 'st) World \<Rightarrow> ('sm, 'st) World" where
  "Resume t w =
     (if \<not> paused (transports w t) then w
      else w\<lparr>transports := (transports w)(t := (transports w t)\<lparr>paused := False, resumeCh := None\<rparr>),
             closedChs := (case resumeCh (transports w t) of None \<Rightarrow> closedChs w | Some c \<Rightarrow> c # closedChs w)\<rparr>)"

text \<open>
  A delivery: it failed, or it waits for a channel to be closed before it calls a server, or
  the server's handler has answered.
\<close>

datatype 'r delivery = Failed net_error | Waiting nat nat | Answered 'r

definition callServer ::
  "nat \<Rightarrow> (('sm, 'st) Server \<Rightarrow> 'f + ('r \<times> ('sm, 'st) Server)) \<Rightarrow> ('sm, 'st) World
     \<Rightarrow> 'f + ('r delivery \<times> ('sm, 'st) World)" where
  "callServer i call w =
     chain (call (servers w i)) (\<lambda>(r, s). Inr (Answered r, w\<lparr>servers := (servers w)(i := s)\<rparr>))"

definition deliverMsg ::
  "nat \<Rightarrow> bytes \<Rightarrow> (('sm, 'st) Server \<Rightarrow> 'f + ('r \<times> ('sm, 'st) Server)) \<Rightarrow> ('sm, 'st) World
     \<Rightarrow> 'f + ('r delivery \<times> ('sm, 'st) World)" where
  "deliverMsg t dst call w =
     (case route (tAddress (transports w t)) dst (network w) of
        Inl err \<Rightarrow> Inr (Failed err, w)
      | Inr (target, d) \<Rightarrow>
          (case tServer (transports w target) of
             None \<Rightarrow> Inr (Failed ErrNoRoute, w)
           | Some i \<Rightarrow>
               (case resumeCh (transports w target) of
                  Some c \<Rightarrow> Inr (Waiting i c, w)
                | None \<Rightarrow> callServer i call w)))"

text \<open>A waiting delivery goes on once its channel is closed.\<close>

definition resumeDelivery ::
  "nat \<Rightarrow> nat \<Rightarrow> (('sm, 'st) Server \<Rightarrow> 'f + ('r \<times> ('sm, 'st) Server)) \<Rightarrow> ('sm, 'st) World
     \<Rightarrow> 'f + ('r delivery \<times> ('sm, 'st) World)" where
  "resumeDelivery i c call w = (if c \<in> set (closedChs w) then callServer i call w else Inr (Waiting i c, w))"

definition RequestVote ::
  "nat \<Rightarrow> bytes \<Rightarrow> RequestVoteRequest \<Rightarrow> ('sm, 'st) World
     \<Rightarrow> ('sm, 'st) fault + (RequestVoteResponse delivery \<times> ('sm, 'st) World)" where
  "RequestVote t a req w = deliverMsg t a (HandleRequestVoteRequest req) w"

definition AppendEntries ::
  "(nat \<Rightarrow> nat \<Rightarrow> nat) \<Rightarrow> nat \<Rightarrow> bytes \<Rightarrow> AppendEntriesRequest \<Rightarrow> ('sm, 'st) World
     \<Rightarrow> ('sm, 'st) fault + (AppendEntriesResponse delivery \<times> ('sm, 'st) World)" where
  "AppendEntries grow t a req w = deliverMsg t a (HandleAppendEntriesRequest grow req) w"

section \<open>The contract of a transport\<close>

text \<open>
  An answer is what the handler of one server gave, and only that server has changed; without
  an answer no server has.
\<close>

locale transport =
  fixes send :: "nat \<Rightarrow> bytes \<Rightarrow> ('s \<Rightarrow> 'f + ('r \<times> 's)) \<Rightarrow> 'w \<Rightarrow> 'f + ('r delivery \<times> 'w)"
    and server_at :: "'w \<Rightarrow> nat \<Rightarrow> 's"
  assumes answered: "send t a call w = Inr (Answered r, w') \<Longrightarrow>
      \<exists>i s'. call (server_at w i) = Inr (r, s') \<and> server_at w' = (server_at w)(i := s')"
    and unanswered: "send t a call w = Inr (d, w') \<Longrightarrow> \<forall>r. d \<noteq> Answered r \<Longrightarrow> server_at w' = server_at w"
begin

lemma send_step:
  assumes "\<And>s r s'. G s \<Longrightarrow> call s = Inr (r, s') \<Longrightarrow> R s s'" "\<And>s. G s \<Longrightarrow> R s s"
    "\<forall>i. G (server_at w i)" "send t a call w = Inr (d, w')"
  shows "R (server_at w i) (server_at w' i)"
proof (cases d)
  case (Answered r)
  then obtain j s' where "call (server_at w j) = Inr (r, s')" "server_at w' = (server_at w)(j := s')"
    using answered assms(4) by blast
  with assms(1-3) show ?thesis by simp
qed (use assms unanswered in auto)

lemma send_keeps:
  assumes "\<And>s r s'. G s \<Longrightarrow> call s = Inr (r, s') \<Longrightarrow> G s'" "\<forall>i. G (server_at w i)" "send t a call w = Inr (d, w')"
  shows "\<forall>i. G (server_at w' i)"
proof
  fix i
  have "G (server_at w i) \<and> G (server_at w' i)"
    by (rule send_step [of G call "\<lambda>s s'. G s \<and> G s'", OF _ _ assms(2,3)]) (use assms(1) in auto)
  then show "G (server_at w' i)" ..
qed

end

lemma callServer_Inr:
  "callServer i call w = Inr (d, w') \<longleftrightarrow>
     (\<exists>r s. call (servers w i) = Inr (r, s) \<and> d = Answered r \<and> w' = w\<lparr>servers := (servers w)(i := s)\<rparr>)"
  by (auto simp: callServer_def chain_Inr_iff)

lemma deliverMsg_cases:
  assumes "deliverMsg t a call w = Inr (d, w')"
  shows "(\<exists>i. callServer i call w = Inr (d, w')) \<or> (w' = w \<and> (\<forall>r. d \<noteq> Answered r))"
  using assms by (auto simp: deliverMsg_def split: sum.splits option.splits)

lemma deliverMsg_answered:
  assumes "deliverMsg t a call w = Inr (Answered r, w')"
  shows "\<exists>i s'. call (servers w i) = Inr (r, s') \<and> servers w' = (servers w)(i := s')"
proof -
  from deliverMsg_cases [OF assms] obtain i s where "call (servers w i) = Inr (r, s)"
    "w' = w\<lparr>servers := (servers w)(i := s)\<rparr>" by (auto simp: callServer_Inr)
  then show ?thesis by (intro exI [of _ i] exI [of _ s]) simp
qed

lemma deliverMsg_unanswered:
  "deliverMsg t a call w = Inr (d, w') \<Longrightarrow> \<forall>r. d \<noteq> Answered r \<Longrightarrow> servers w' = servers w"
  using deliverMsg_cases [of t a call w d w'] by (auto simp: callServer_Inr)

interpretation memory: transport deliverMsg servers
  by unfold_locales (rule deliverMsg_answered, assumption, rule deliverMsg_unanswered)

section \<open>Properties\<close>

text \<open>
  A call keeps every node in its invariant, and changes it as a step of a node may.
\<close>

theorem network_keeps_nodes:
  assumes "\<forall>i. node_good (servers w i)"
    "fits (Suc (unat (PrevLogIndex areq)) + length (Entries areq))"
  shows "(RequestVote t a req w = Inr (d, w') \<longrightarrow> (\<forall>i. step_ok (servers w i) (servers w' i))) \<and>
    (AppendEntries grow t a areq w = Inr (d', w'') \<longrightarrow> (\<forall>i. step_ok (servers w i) (servers w'' i)))"
proof (intro conjI impI allI)
  fix i
  assume s: "RequestVote t a req w = Inr (d, w')"
  show "step_ok (servers w i) (servers w' i)"
    by (rule memory.send_step [OF _ step_ok_refl assms(1) s [unfolded RequestVote_def]])
      (rule on_vote_step_ok)
next
  fix i
  assume s: "AppendEntries grow t a areq w = Inr (d', w'')"
  show "step_ok (servers w i) (servers w'' i)"
    by (rule memory.send_step [OF _ step_ok_refl assms(1) s [unfolded AppendEntries_def]])
      (rule on_append_step_ok, assumption, assumption, use assms(2) in blast)
qed

theorem network_keeps_nodes_witness:
  "\<exists>(w :: (unit, MemStorage) World) rsp w'. RequestVote 1 [] \<lparr>Term = 7, CandidateId = 2, LastLogIndex = 0, LastLogTerm = 0\<rparr> w
      = Inr (Answered rsp, w') \<and> (\<forall>i. step_ok (servers w i) (servers w' i))"
proof -
  let ?req = "\<lparr>Term = 7, CandidateId = 2, LastLogIndex = 0, LastLogTerm = 0\<rparr> :: RequestVoteRequest"
  obtain n k :: "(unit, MemStorage) Node" where f: "reaches (\<lambda>_ n. n) n k" "run_inv k"
    by (rule fresh_steps)
  let ?s = "server k"
  let ?w = "\<lparr>network = register [] 0 NewMemoryNetwork, transports = (\<lambda>_. NewMemoryTransport\<lparr>tServer := Some 3\<rparr>),
    servers = (\<lambda>_. ?s), chanCount = 0, closedChs = []\<rparr>"
  have g: "node_good ?s" using f(2) by (simp add: run_inv_def)
  obtain rsp s' where h: "HandleRequestVoteRequest ?req ?s = Inr (rsp, s')"
    using HandleRequestVoteRequest_ok [OF node_good_ok [OF g], of ?req] by metis
  then have r: "RequestVote 1 [] ?req ?w = Inr (Answered rsp, ?w\<lparr>servers := (servers ?w)(3 := s')\<rparr>)"
    by (simp add: RequestVote_def deliverMsg_def route_def register_def NewMemoryNetwork_def NewMemoryTransport_def callServer_def)
  let ?areq = "\<lparr>Term = 0, LeaderId = 0, PrevLogIndex = 0, PrevLogTerm = 0, Entries = [], LeaderCommit = 0\<rparr> :: AppendEntriesRequest"
  have wf: "fits (Suc (unat (PrevLogIndex ?areq)) + length (Entries ?areq))" by (simp add: fits_def)
  have all: "\<forall>i. node_good (servers ?w i)" using g by simp
  from network_keeps_nodes [OF all wf, THEN conjunct1] r show ?thesis by blast
qed

section \<open>The network by its history\<close>

text \<open>
  What is done to a network of transports and servers: the operations of a test, and any work of
  a server, which keeps its address.
\<close>

datatype ('sm, 'st) control =
    OnServe nat nat | OnClose nat | OnPartition bytes | OnHeal bytes | OnDrop bytes bytes | OnUndrop bytes bytes
  | OnDelay int | OnPause nat | OnResume nat | OnWork nat "('sm, 'st) Server"

fun controlled :: "('sm, 'st) control \<Rightarrow> ('sm, 'st) World \<Rightarrow> ('sm, 'st) World" where
  "controlled (OnServe t i) w = Serve t i w"
| "controlled (OnClose t) w = CloseTransport t w"
| "controlled (OnPartition a) w = w\<lparr>network := Partition a (network w)\<rparr>"
| "controlled (OnHeal a) w = w\<lparr>network := Heal a (network w)\<rparr>"
| "controlled (OnDrop a b) w = w\<lparr>network := Drop a b (network w)\<rparr>"
| "controlled (OnUndrop a b) w = w\<lparr>network := Undrop a b (network w)\<rparr>"
| "controlled (OnDelay d) w = w\<lparr>network := Delay d (network w)\<rparr>"
| "controlled (OnPause t) w = Pause t w"
| "controlled (OnResume t) w = Resume t w"
| "controlled (OnWork i s) w =
     (if selfAddress s = selfAddress (servers w i) then w\<lparr>servers := (servers w)(i := s)\<rparr> else w)"

definition newWorld :: "(nat \<Rightarrow> ('sm, 'st) Server) \<Rightarrow> ('sm, 'st) World" where
  "newWorld srvs = \<lparr>network = NewMemoryNetwork, transports = (\<lambda>_. NewMemoryTransport), servers = srvs,
     chanCount = 0, closedChs = []\<rparr>"

text \<open>
  What a history says, its latest event first: is an address partitioned, is a direction dropped,
  is a transport paused, which server and address has a transport, which transport has an
  address. \<open>at\<close> gives the address of a server.
\<close>

fun cutOff :: "('sm, 'st) control list \<Rightarrow> bytes \<Rightarrow> bool" where
  "cutOff (OnPartition b # es) a = (b = a \<or> cutOff es a)"
| "cutOff (OnHeal b # es) a = (b \<noteq> a \<and> cutOff es a)"
| "cutOff (_ # es) a = cutOff es a"
| "cutOff [] a = False"

fun silenced :: "('sm, 'st) control list \<Rightarrow> bytes \<Rightarrow> bytes \<Rightarrow> bool" where
  "silenced (OnDrop c d # es) a b = ((c, d) = (a, b) \<or> silenced es a b)"
| "silenced (OnUndrop c d # es) a b = ((c, d) \<noteq> (a, b) \<and> silenced es a b)"
| "silenced (_ # es) a b = silenced es a b"
| "silenced [] a b = False"

fun halted :: "('sm, 'st) control list \<Rightarrow> nat \<Rightarrow> bool" where
  "halted (OnPause k # es) t = (k = t \<or> halted es t)"
| "halted (OnResume k # es) t = (k \<noteq> t \<and> halted es t)"
| "halted (_ # es) t = halted es t"
| "halted [] t = False"

fun serverOf :: "('sm, 'st) control list \<Rightarrow> nat \<Rightarrow> nat option" where
  "serverOf (OnServe k i # es) t = (if k = t then Some i else serverOf es t)"
| "serverOf (_ # es) t = serverOf es t"
| "serverOf [] t = None"

definition addressOf :: "(nat \<Rightarrow> bytes) \<Rightarrow> ('sm, 'st) control list \<Rightarrow> nat \<Rightarrow> bytes" where
  "addressOf at es t = (case serverOf es t of None \<Rightarrow> [] | Some i \<Rightarrow> at i)"

fun holder :: "(nat \<Rightarrow> bytes) \<Rightarrow> ('sm, 'st) control list \<Rightarrow> bytes \<Rightarrow> nat option" where
  "holder at (OnServe k i # es) a = (if at i = a then Some k else holder at es a)"
| "holder at (OnClose k # es) a = (if addressOf at es k = a then None else holder at es a)"
| "holder at (_ # es) a = holder at es a"
| "holder at [] a = None"

text \<open>Where a message for address \<open>a\<close> from transport \<open>t\<close> goes.\<close>

datatype fate = Refused net_error | Held nat | Handled nat

definition fateOf :: "(nat \<Rightarrow> bytes) \<Rightarrow> ('sm, 'st) control list \<Rightarrow> nat \<Rightarrow> bytes \<Rightarrow> fate" where
  "fateOf at es t a =
     (if cutOff es (addressOf at es t) \<or> cutOff es a then Refused ErrPartitioned
      else if silenced es (addressOf at es t) a then Refused ErrDropped
      else case holder at es a of
        None \<Rightarrow> Refused ErrNoRoute
      | Some k \<Rightarrow> (case serverOf es k of
          None \<Rightarrow> Refused ErrNoRoute
        | Some i \<Rightarrow> if halted es k then Held i else Handled i))"

text \<open>The world after a history is what the history says.\<close>

abbreviation worldAfter :: "(nat \<Rightarrow> ('sm, 'st) Server) \<Rightarrow> ('sm, 'st) control list \<Rightarrow> ('sm, 'st) World" where
  "worldAfter srvs es \<equiv> foldr controlled es (newWorld srvs)"

lemmas world_defs = Serve_def CloseTransport_def Pause_def Resume_def Partition_def Heal_def Drop_def Undrop_def
  Delay_def register_def unregister_def newWorld_def NewMemoryNetwork_def NewMemoryTransport_def

lemma world_addresses: "selfAddress (servers (worldAfter srvs es) i) = selfAddress (srvs i)"
proof (induction es)
  case (Cons e es)
  then show ?case by (cases e) (auto simp: world_defs)
qed (simp add: world_defs)

lemma world_cutOff: "partitioned (network (worldAfter srvs es)) a = cutOff es a"
proof (induction es)
  case (Cons e es)
  then show ?case by (cases e) (auto simp: world_defs)
qed (simp add: world_defs)

lemma world_silenced: "dropped (network (worldAfter srvs es)) (a, b) = silenced es a b"
proof (induction es)
  case (Cons e es)
  then show ?case by (cases e) (auto simp: world_defs)
qed (simp add: world_defs)

lemma world_serverOf: "tServer (transports (worldAfter srvs es) t) = serverOf es t"
proof (induction es)
  case (Cons e es)
  then show ?case by (cases e) (auto simp: world_defs)
qed (simp add: world_defs)

lemma world_paused:
  "paused (transports (worldAfter srvs es) t) = halted es t \<and>
     (resumeCh (transports (worldAfter srvs es) t) = None) = (\<not> halted es t)"
proof (induction es)
  case (Cons e es)
  then show ?case by (cases e) (auto simp: world_defs)
qed (simp add: world_defs)

lemma world_tAddress: "tAddress (transports (worldAfter srvs es) t) = addressOf (\<lambda>i. selfAddress (srvs i)) es t"
proof (induction es)
  case (Cons e es)
  then show ?case by (cases e) (auto simp: world_defs addressOf_def world_addresses [unfolded world_defs])
qed (simp add: world_defs addressOf_def)

lemma world_nodes: "nodes (network (worldAfter srvs es)) a = holder (\<lambda>i. selfAddress (srvs i)) es a"
proof (induction es)
  case (Cons e es)
  then show ?case
    by (cases e) (auto simp: world_defs world_addresses [unfolded world_defs] world_tAddress [unfolded world_defs])
qed (simp add: world_defs)

lemma world_resume: "resumeCh (transports (worldAfter srvs es) t) = Some c \<Longrightarrow> halted es t"
  using world_paused [of es srvs t] by auto

lemma world_delivers:
  "deliverMsg t a call (worldAfter srvs es) =
    (case fateOf (\<lambda>i. selfAddress (srvs i)) es t a of
       Refused err \<Rightarrow> Inr (Failed err, worldAfter srvs es)
     | Held i \<Rightarrow> Inr (Waiting i (the (resumeCh (transports (worldAfter srvs es)
         (the (holder (\<lambda>i. selfAddress (srvs i)) es a))))), worldAfter srvs es)
     | Handled i \<Rightarrow> callServer i call (worldAfter srvs es))"
  by (auto simp: deliverMsg_def route_def fateOf_def world_cutOff world_silenced world_nodes world_tAddress world_serverOf
      world_paused dest: world_resume split: option.splits)

text \<open>
  C36: The network delivers what it should to whom it should. After any history of serving and
  closing transports, partitions, drops, pauses and their ends, and work of the servers, the fate
  of a vote or append request is what the history says. It is refused, with the error of the
  reason, if the sender's or the receiver's address was partitioned and not healed since, if
  this direction was dropped and not restored, or if no transport serves the address or it was
  closed since; it waits if the transport there was paused and not resumed; in these cases
  nothing changes. Otherwise the handler of the server that this transport serves is run, its
  answer is the answer of the call, and no other server, transport or setting changes.
\<close>

theorem network_delivers:
  "let w = foldr controlled es (newWorld srvs) in
   (case fateOf (\<lambda>i. selfAddress (srvs i)) es t a of
      Refused err \<Rightarrow> RequestVote t a req w = Inr (Failed err, w) \<and> AppendEntries grow t a areq w = Inr (Failed err, w)
    | Held i \<Rightarrow> (\<exists>c. RequestVote t a req w = Inr (Waiting i c, w) \<and> AppendEntries grow t a areq w = Inr (Waiting i c, w))
    | Handled i \<Rightarrow>
        RequestVote t a req w = (case HandleRequestVoteRequest req (servers w i) of
          Inl p \<Rightarrow> Inl p | Inr (rsp, s) \<Rightarrow> Inr (Answered rsp, w\<lparr>servers := (servers w)(i := s)\<rparr>)) \<and>
        AppendEntries grow t a areq w = (case HandleAppendEntriesRequest grow areq (servers w i) of
          Inl p \<Rightarrow> Inl p | Inr (rsp, s) \<Rightarrow> Inr (Answered rsp, w\<lparr>servers := (servers w)(i := s)\<rparr>)))"
  unfolding Let_def RequestVote_def AppendEntries_def world_delivers callServer_def
  by (auto split: fate.split sum.split)

lemma paused_waits:
  "\<not> paused (transports w t) \<Longrightarrow> resumeCh (transports (Pause t w) t) = Some (chanCount w)"
  by (simp add: Pause_def)

lemma resume_releases:
  assumes "paused (transports w t)" "resumeCh (transports w t) = Some c"
  shows "resumeDelivery i c call (Resume t w) = callServer i call (Resume t w)"
    and "resumeDelivery i c call (Pause t (Resume t w)) = callServer i call (Pause t (Resume t w))"
  using assms by (simp_all add: resumeDelivery_def Resume_def Pause_def)

section \<open>The manual clock\<close>

record ManualClock =
  now :: time

definition NewManualClock :: "time \<Rightarrow> ManualClock" where
  "NewManualClock start = \<lparr>now = start\<rparr>"

definition ManualNow :: "ManualClock \<Rightarrow> time" where
  "ManualNow c = now c"

definition Advance :: "int \<Rightarrow> ManualClock \<Rightarrow> ManualClock" where
  "Advance d c = c\<lparr>now := now c + d\<rparr>"

lemma Advance_sum: "ManualNow (foldl (\<lambda>c d. Advance d c) (NewManualClock t) ds) = t + sum_list ds"
  by (induction ds rule: rev_induct) (simp_all add: ManualNow_def NewManualClock_def Advance_def)

end
