(* ===== verification/Rpc_Client.thy ===== *)
theory Rpc_Client
  imports Go_Strings
begin

text \<open>
  The client side of the RPC transport (navi/transport.go): the connection handshake, the cache
  of clients and its eviction. Sockets and \<^verbatim>\<open>net/rpc\<close> are the environment: what dialing and a
  call bring is an argument. A client is any value; \<open>closed\<close> collects those that were closed.
\<close>

record 'c RPCTransport =
  clients :: "string \<Rightarrow> 'c option"
  closed :: "'c list"

definition NewRPCTransport :: "'c RPCTransport" where
  "NewRPCTransport = \<lparr>clients = (\<lambda>_. None), closed = []\<rparr>"

text \<open>What the network answers while a connection is set up.\<close>

record 'c Handshake =
  dialErr :: "string option"
  deadlineErr :: "string option"
  readErr :: "string option"
  respStatus :: string
  clearErr :: "string option"
  client :: 'c

definition dialHTTPTimeout :: "string \<Rightarrow> 'c Handshake \<Rightarrow> string + 'c" where
  "dialHTTPTimeout address h =
     (case dialErr h of Some e \<Rightarrow> Inl e | None \<Rightarrow>
     (case deadlineErr h of Some e \<Rightarrow> Inl e | None \<Rightarrow>
     (if readErr h \<noteq> None \<or> respStatus h \<noteq> ''200 Connected to Go RPC''
      then Inl (case readErr h of Some e \<Rightarrow> e
                | None \<Rightarrow> ''unexpected HTTP response from '' @ address @ '': '' @ respStatus h)
      else (case clearErr h of Some e \<Rightarrow> Inl e | None \<Rightarrow> Inr (client h)))))"

definition dial :: "string \<Rightarrow> 'c Handshake \<Rightarrow> 'c RPCTransport \<Rightarrow> (string + 'c) \<times> 'c RPCTransport" where
  "dial address h t =
     (case clients t address of
        Some c \<Rightarrow> (Inr c, t)
      | None \<Rightarrow>
          (case dialHTTPTimeout address h of
             Inl e \<Rightarrow> (Inl e, t)
           | Inr c \<Rightarrow> (Inr c, t\<lparr>clients := (clients t)(address \<mapsto> c)\<rparr>)))"

definition evict :: "string \<Rightarrow> 'c \<Rightarrow> 'c RPCTransport \<Rightarrow> 'c RPCTransport" where
  "evict address c t = t\<lparr>clients := (clients t)(address := None), closed := closed t @ [c]\<rparr>"

text \<open>How a call on a client ends: done, with an error or not, or no answer within a second.\<close>

datatype callEnd = CallDone "string option" | CallTimeout

definition rpcCall ::
  "string \<Rightarrow> string \<Rightarrow> 'c Handshake \<Rightarrow> ('c \<Rightarrow> callEnd) \<Rightarrow> 'c RPCTransport \<Rightarrow> string option \<times> 'c RPCTransport" where
  "rpcCall address method h ends t =
     (case dial address h t of
        (Inl e, t1) \<Rightarrow> (Some e, t1)
      | (Inr c, t1) \<Rightarrow>
          (case ends c of
             CallDone None \<Rightarrow> (None, t1)
           | CallDone (Some e) \<Rightarrow> (Some e, evict address c t1)
           | CallTimeout \<Rightarrow>
               (Some (''rpc call '' @ method @ '' to '' @ address @ '' timed out after 1s''), evict address c t1)))"

definition rpcRequestVote ::
  "string \<Rightarrow> 'c Handshake \<Rightarrow> ('c \<Rightarrow> callEnd) \<Rightarrow> 'c RPCTransport \<Rightarrow> string option \<times> 'c RPCTransport" where
  "rpcRequestVote address h ends t = rpcCall address ''Server.HandleRequestVoteRequest'' h ends t"

definition rpcAppendEntries ::
  "string \<Rightarrow> 'c Handshake \<Rightarrow> ('c \<Rightarrow> callEnd) \<Rightarrow> 'c RPCTransport \<Rightarrow> string option \<times> 'c RPCTransport" where
  "rpcAppendEntries address h ends t = rpcCall address ''Server.HandleAppendEntriesRequest'' h ends t"

text \<open>
  The cache holds no client that was closed, provided that a fresh connection is a fresh client:
  a client stays cached exactly as long as its calls succeed, and calls to one address leave
  the others alone.
\<close>

definition cache_ok :: "'c RPCTransport \<Rightarrow> bool" where
  "cache_ok t \<longleftrightarrow> (\<forall>a c. clients t a = Some c \<longrightarrow> c \<notin> set (closed t)) \<and>
     (\<forall>a b c. clients t a = Some c \<longrightarrow> clients t b = Some c \<longrightarrow> a = b)"

definition fresh_client :: "'c Handshake \<Rightarrow> 'c RPCTransport \<Rightarrow> bool" where
  "fresh_client h t \<longleftrightarrow> client h \<notin> set (closed t) \<and> (\<forall>a. clients t a \<noteq> Some (client h))"

lemma dialHTTPTimeout_client: "dialHTTPTimeout a h = Inr c \<Longrightarrow> c = client h"
  by (auto simp: dialHTTPTimeout_def split: option.splits if_splits)

lemma cache_ok_new: "cache_ok NewRPCTransport"
  by (simp add: cache_ok_def NewRPCTransport_def)

lemma cache_ok_dial:
  assumes "cache_ok t" "fresh_client h t" "dial a h t = (r, t')"
  shows "cache_ok t' \<and> (\<forall>c. r = Inr c \<longrightarrow> clients t' a = Some c) \<and>
    (\<forall>b. b \<noteq> a \<longrightarrow> clients t' b = clients t b) \<and> closed t' = closed t"
proof (cases "clients t a")
  case None
  show ?thesis
  proof (cases "dialHTTPTimeout a h")
    case (Inl e)
    with None assms show ?thesis by (auto simp: dial_def)
  next
    case (Inr c)
    with None assms have t': "t' = t\<lparr>clients := (clients t)(a \<mapsto> client h)\<rparr>" "r = Inr (client h)"
      using dialHTTPTimeout_client [OF Inr] by (auto simp: dial_def)
    with assms(1,2) show ?thesis
      by (fastforce simp: cache_ok_def fresh_client_def)
  qed
next
  case (Some c)
  with assms show ?thesis by (auto simp: dial_def)
qed

lemma cache_ok_evict: "cache_ok t \<Longrightarrow> clients t a = Some c \<Longrightarrow> cache_ok (evict a c t)"
  by (fastforce simp: cache_ok_def evict_def split: if_splits)

lemma rpcCall_cache:
  assumes "cache_ok t" "fresh_client h t" "rpcCall a m h ends t = (e, t')"
  shows "cache_ok t' \<and> (clients t' a \<noteq> None \<longleftrightarrow> e = None) \<and> (\<forall>b. b \<noteq> a \<longrightarrow> clients t' b = clients t b)"
proof -
  obtain r t1 where d: "dial a h t = (r, t1)" by (metis surj_pair)
  note ok = cache_ok_dial [OF assms(1,2) d]
  show ?thesis
  proof (cases r)
    case (Inl err)
    with d have "clients t a = None \<and> t1 = t" by (auto simp: dial_def split: option.splits sum.splits)
    with Inl d ok assms(3) show ?thesis by (auto simp: rpcCall_def)
  next
    case (Inr c)
    then have c: "clients t1 a = Some c" "cache_ok t1" using ok by auto
    with Inr d ok assms(3) cache_ok_evict [OF c(2,1)] show ?thesis
      by (auto simp: rpcCall_def evict_def split: callEnd.splits option.splits)
  qed
qed

end
