(* ===== verification/Cli_Tabs.thy ===== *)
theory Cli_Tabs
  imports Go_Strings
begin

text \<open>
  The log tabs of navi-cli (cmd/navi-cli/main.go, logs.go): appending lines, search tabs that
  follow their source, and the highlighting of matches. The colours of lipgloss are a parameter
  (\<open>mark\<close> for a match), the viewport is its size and content. No index in this code is ever
  negative, since each decrement is guarded; indices are natural numbers.
\<close>

section \<open>Log lines\<close>

record logLine =
  logNode :: string
  Level :: string
  logText :: string

definition classifyLevel :: "Unicode \<Rightarrow> string \<Rightarrow> string" where
  "classifyLevel u line =
     (let lower = ToLower u line
      in if Contains line ''[WARN]'' then ''WARN''
         else if Contains lower ''error'' \<or> Contains lower ''panic'' then ''ERROR''
         else ''INFO'')"

text \<open>What \<^verbatim>\<open>streamContainerLogs\<close> sends for the lines that the scanner reads.\<close>

definition streamLines :: "Unicode \<Rightarrow> string \<Rightarrow> string list \<Rightarrow> logLine list" where
  "streamLines u node texts =
     map (\<lambda>text. \<lparr>logNode = node, Level = classifyLevel u text, logText = text\<rparr>) texts"

section \<open>Highlighting\<close>

text \<open>
  The loop of \<^verbatim>\<open>renderLine\<close>: the offsets found in \<open>lower\<close> are used as offsets of \<open>line\<close>.
\<close>

function renderLoop ::
  "(string \<Rightarrow> string) \<Rightarrow> string \<Rightarrow> string \<Rightarrow> string \<Rightarrow> string \<Rightarrow> panic + string" where
  "renderLoop mark query lq line lower =
     (if query = [] then Inr line
      else case Index lower lq of
        None \<Rightarrow> Inr line
      | Some i \<Rightarrow>
          if length line < i + length query \<or> length lower < i + length query then Inl SliceOutOfRange
          else chain (renderLoop mark query lq (drop (i + length query) line) (drop (i + length query) lower))
                 (\<lambda>rest. Inr (take i line @ mark (take (length query) (drop i line)) @ rest)))"
  by pat_completeness auto
termination
  by (relation "measure (\<lambda>(mark, query, lq, line, lower). length lower)")
    (auto simp flip: length_greater_0_conv)

declare renderLoop.simps [simp del]

definition renderLine :: "Unicode \<Rightarrow> (string \<Rightarrow> string) \<Rightarrow> string \<Rightarrow> string \<Rightarrow> panic + string" where
  "renderLine u mark line query =
     (if query = [] then Inr line
      else renderLoop mark query (ToLower u query) line (ToLower u line))"

fun renderLines :: "Unicode \<Rightarrow> (string \<Rightarrow> string) \<Rightarrow> string list \<Rightarrow> string \<Rightarrow> panic + string list" where
  "renderLines u mark [] query = Inr []"
| "renderLines u mark (l # ls) query =
     chain (renderLine u mark l query) (\<lambda>r. chain (renderLines u mark ls query) (\<lambda>rs. Inr (r # rs)))"

definition renderTabLines :: "Unicode \<Rightarrow> (string \<Rightarrow> string) \<Rightarrow> string list \<Rightarrow> string \<Rightarrow> panic + string" where
  "renderTabLines u mark lines query =
     (if lines = [] then Inr []
      else chain (renderLines u mark lines query) (\<lambda>rs. Inr (Join [CHR 0x0A] rs @ [CHR 0x0A])))"

section \<open>Tabs\<close>

record tabModel =
  title :: string
  tabNode :: string
  tabLines :: "string list"
  vpContent :: string
  vpWidth :: int
  vpHeight :: int
  isSearch :: bool
  sourceTab :: nat
  tabQuery :: string

definition newTab :: "string \<Rightarrow> string \<Rightarrow> tabModel" where
  "newTab t n = \<lparr>title = t, tabNode = n, tabLines = [], vpContent = [], vpWidth = 0, vpHeight = 0,
     isSearch = False, sourceTab = 0, tabQuery = []\<rparr>"

definition setContent :: "Unicode \<Rightarrow> (string \<Rightarrow> string) \<Rightarrow> tabModel \<Rightarrow> panic + tabModel" where
  "setContent u mark t =
     chain (renderTabLines u mark (tabLines t) (tabQuery t)) (\<lambda>c. Inr (t\<lparr>vpContent := c\<rparr>))"

fun nodeTabFrom :: "nat \<Rightarrow> tabModel list \<Rightarrow> string \<Rightarrow> nat option" where
  "nodeTabFrom i [] node = None"
| "nodeTabFrom i (t # ts) node = (if tabNode t = node then Some i else nodeTabFrom (Suc i) ts node)"

definition nodeTabIndex :: "tabModel list \<Rightarrow> string \<Rightarrow> nat option" where
  "nodeTabIndex ts node = nodeTabFrom 0 ts node"

fun propagateFrom ::
  "Unicode \<Rightarrow> (string \<Rightarrow> string) \<Rightarrow> nat \<Rightarrow> string \<Rightarrow> tabModel list \<Rightarrow> panic + tabModel list" where
  "propagateFrom u mark idx line [] = Inr []"
| "propagateFrom u mark idx line (t # ts) =
     (if \<not> isSearch t \<or> sourceTab t \<noteq> idx \<or> \<not> Contains (ToLower u line) (ToLower u (tabQuery t))
      then chain (propagateFrom u mark idx line ts) (\<lambda>rs. Inr (t # rs))
      else chain (setContent u mark (t\<lparr>tabLines := tabLines t @ [line]\<rparr>)) (\<lambda>t1.
           chain (propagateFrom u mark idx line ts) (\<lambda>rs. Inr (t1 # rs))))"

definition propagateToSearchTabs ::
  "Unicode \<Rightarrow> (string \<Rightarrow> string) \<Rightarrow> nat \<Rightarrow> string \<Rightarrow> tabModel list \<Rightarrow> panic + tabModel list" where
  "propagateToSearchTabs u mark idx line ts = propagateFrom u mark idx line ts"

text \<open>\<^verbatim>\<open>appendToTab\<close>; \<open>None\<close> is the index -1.\<close>

definition appendToTab ::
  "Unicode \<Rightarrow> (string \<Rightarrow> string) \<Rightarrow> nat option \<Rightarrow> string \<Rightarrow> tabModel list \<Rightarrow> panic + tabModel list" where
  "appendToTab u mark idx line ts =
     (case idx of
        None \<Rightarrow> Inr ts
      | Some i \<Rightarrow>
          if length ts \<le> i then Inr ts
          else chain (setContent u mark ((ts ! i)\<lparr>tabLines := tabLines (ts ! i) @ [line]\<rparr>)) (\<lambda>t.
               propagateToSearchTabs u mark i line (ts[i := t])))"

definition resizeTabs :: "int \<Rightarrow> int \<Rightarrow> tabModel list \<Rightarrow> tabModel list" where
  "resizeTabs width height ts =
     map (\<lambda>t. t\<lparr>vpWidth := width, vpHeight := max (height - 2) 0\<rparr>) ts"

definition shiftUp :: "nat \<Rightarrow> tabModel \<Rightarrow> tabModel" where
  "shiftUp insertAt t =
     (if isSearch t \<and> insertAt \<le> sourceTab t then t\<lparr>sourceTab := sourceTab t + 1\<rparr> else t)"

definition shiftDown :: "nat \<Rightarrow> tabModel \<Rightarrow> tabModel" where
  "shiftDown idx t =
     (if isSearch t \<and> idx < sourceTab t then t\<lparr>sourceTab := sourceTab t - 1\<rparr> else t)"

definition searchTab :: "Unicode \<Rightarrow> nat \<Rightarrow> string \<Rightarrow> tabModel \<Rightarrow> tabModel" where
  "searchTab u source query src =
     (newTab (title src @ '' /'' @ query) [])
       \<lparr>isSearch := True, sourceTab := source, tabQuery := query,
        tabLines := filter (\<lambda>l. Contains (ToLower u l) (ToLower u query)) (tabLines src)\<rparr>"

text \<open>The tabs and the active tab after a search tab was opened or closed.\<close>

definition openSearchTab ::
  "Unicode \<Rightarrow> (string \<Rightarrow> string) \<Rightarrow> int \<Rightarrow> int \<Rightarrow> nat \<Rightarrow> string \<Rightarrow> tabModel list \<times> nat
     \<Rightarrow> panic + (tabModel list \<times> nat)" where
  "openSearchTab u mark width height source query = (\<lambda>(ts, active).
     if length ts \<le> source \<or> query = [] then Inr (ts, active)
     else let insertAt = source + 1;
              ts1 = map (shiftUp insertAt) ts;
              nt = searchTab u source query (ts1 ! source);
              ts2 = resizeTabs width height (take insertAt ts1 @ [nt] @ drop insertAt ts1)
          in chain (setContent u mark (ts2 ! insertAt)) (\<lambda>t. Inr (ts2[insertAt := t], insertAt)))"

definition closeSearchTab ::
  "int \<Rightarrow> int \<Rightarrow> nat \<Rightarrow> tabModel list \<times> nat \<Rightarrow> tabModel list \<times> nat" where
  "closeSearchTab width height idx = (\<lambda>(ts, active).
     if length ts \<le> idx \<or> \<not> isSearch (ts ! idx) then (ts, active)
     else let source = sourceTab (ts ! idx);
              ts1 = map (shiftDown idx) (take idx ts @ drop (idx + 1) ts);
              source1 = (if idx < source then source - 1 else source);
              source2 = (if length ts1 \<le> source1 then length ts1 - 1 else source1)
          in (resizeTabs width height ts1, source2))"

section \<open>The invariant of the tabs\<close>

text \<open>
  There is a tab, the first is no search tab, the active tab exists, and the source of a search
  tab is not to its right.
\<close>

definition sources_ok :: "tabModel list \<Rightarrow> bool" where
  "sources_ok ts \<longleftrightarrow> ts \<noteq> [] \<and> \<not> isSearch (ts ! 0) \<and>
     (\<forall>i < length ts. isSearch (ts ! i) \<longrightarrow> sourceTab (ts ! i) \<le> i)"

definition tabs_ok :: "tabModel list \<times> nat \<Rightarrow> bool" where
  "tabs_ok = (\<lambda>(ts, active). sources_ok ts \<and> active < length ts)"

text \<open>Tabs that agree in what the invariant looks at.\<close>

definition same_kind :: "tabModel list \<Rightarrow> tabModel list \<Rightarrow> bool" where
  "same_kind ts ts' \<longleftrightarrow> map isSearch ts' = map isSearch ts \<and> map sourceTab ts' = map sourceTab ts"

lemma same_kind_refl [simp]: "same_kind ts ts"
  by (simp add: same_kind_def)

lemma same_kind_trans: "same_kind a b \<Longrightarrow> same_kind b c \<Longrightarrow> same_kind a c"
  by (simp add: same_kind_def)

lemma same_kind_length: "same_kind ts ts' \<Longrightarrow> length ts' = length ts"
  by (metis same_kind_def length_map)

lemma same_kind_nth:
  assumes "same_kind ts ts'" "i < length ts"
  shows "isSearch (ts' ! i) = isSearch (ts ! i)" "sourceTab (ts' ! i) = sourceTab (ts ! i)"
proof -
  have "map isSearch ts' ! i = map isSearch ts ! i" "map sourceTab ts' ! i = map sourceTab ts ! i"
    using assms(1) by (simp_all add: same_kind_def)
  with assms(2) same_kind_length [OF assms(1)]
  show "isSearch (ts' ! i) = isSearch (ts ! i)" "sourceTab (ts' ! i) = sourceTab (ts ! i)" by simp_all
qed

lemma sources_ok_same_kind:
  assumes "same_kind ts ts'" "sources_ok ts"
  shows "sources_ok ts'"
  using assms same_kind_length [OF assms(1)] same_kind_nth [OF assms(1)]
  by (auto simp: sources_ok_def)

lemma same_kind_update:
  "i < length ts \<Longrightarrow> isSearch t = isSearch (ts ! i) \<Longrightarrow> sourceTab t = sourceTab (ts ! i) \<Longrightarrow>
     same_kind ts (ts[i := t])"
  by (simp add: same_kind_def map_update) (metis list_update_id map_update)

lemma setContent_kind:
  "setContent u mark t = Inr t' \<Longrightarrow> isSearch t' = isSearch t \<and> sourceTab t' = sourceTab t"
  by (auto simp: setContent_def chain_Inr_iff)

lemma same_kind_resize: "same_kind ts (resizeTabs w h ts)"
  by (simp add: same_kind_def resizeTabs_def comp_def)

lemma same_kind_propagate: "propagateFrom u mark i line ts = Inr ts' \<Longrightarrow> same_kind ts ts'"
proof (induction ts arbitrary: ts')
  case (Cons t ts)
  then obtain t1 rs where r: "propagateFrom u mark i line ts = Inr rs" "ts' = t1 # rs"
    "isSearch t1 = isSearch t" "sourceTab t1 = sourceTab t"
    by (auto simp: chain_Inr_iff setContent_def split: if_splits)
  from Cons.IH [OF r(1)] r(2-4) show ?case by (simp add: same_kind_def)
qed simp

lemma same_kind_append:
  assumes "appendToTab u mark idx line ts = Inr ts'"
  shows "same_kind ts ts'"
proof (cases idx)
  case None
  with assms show ?thesis by (simp add: appendToTab_def)
next
  case (Some i)
  show ?thesis
  proof (cases "length ts \<le> i")
    case False
    then obtain t where t: "setContent u mark ((ts ! i)\<lparr>tabLines := tabLines (ts ! i) @ [line]\<rparr>) = Inr t"
      "propagateFrom u mark i line (ts[i := t]) = Inr ts'"
      using assms Some by (auto simp: appendToTab_def propagateToSearchTabs_def chain_Inr_iff)
    have "same_kind ts (ts[i := t])"
      using False t(1) by (intro same_kind_update) (auto simp: setContent_def chain_Inr_iff)
    with same_kind_propagate [OF t(2)] show ?thesis by (rule same_kind_trans [rotated])
  qed (use assms Some in \<open>simp add: appendToTab_def\<close>)
qed

lemma sources_ok_nth: "sources_ok ts \<Longrightarrow> i < length ts \<Longrightarrow> isSearch (ts ! i) \<Longrightarrow> sourceTab (ts ! i) \<le> i"
  by (simp add: sources_ok_def)

lemma shift_fields [simp]: "isSearch (shiftUp k t) = isSearch t" "isSearch (shiftDown k t) = isSearch t"
  by (simp_all add: shiftUp_def shiftDown_def)

lemma sources_ok_insert:
  assumes "sources_ok ts" "0 < k" "k \<le> length ts" "isSearch nt \<longrightarrow> sourceTab nt \<le> k"
  shows "sources_ok (take k (map (shiftUp k) ts) @ nt # drop k (map (shiftUp k) ts))" (is "sources_ok ?L")
proof -
  have len: "length ?L = Suc (length ts)" using assms(3) by simp
  have "sourceTab (?L ! i) \<le> i" if i: "i < length ?L" "isSearch (?L ! i)" for i
  proof (cases "i < k")
    case True
    then have e: "?L ! i = shiftUp k (ts ! i)" using assms(3) by (simp add: nth_append)
    then have "isSearch (ts ! i)" using i(2) by simp
    with sources_ok_nth [OF assms(1), of i] True assms(3) e show ?thesis by (simp add: shiftUp_def)
  next
    case False
    show ?thesis
    proof (cases "i = k")
      case True
      then have "?L ! i = nt" using assms(3) by (simp add: nth_append)
      with assms(4) i(2) True show ?thesis by simp
    next
      case neq: False
      then obtain j where j: "i = Suc j" "k \<le> j" "j < length ts" using False len i(1) by (cases i) auto
      then have "?L ! i = shiftUp k (ts ! j)" using assms(3) by (simp add: nth_append Suc_diff_le)
      with sources_ok_nth [OF assms(1) j(3)] i(2) j(1) show ?thesis by (auto simp: shiftUp_def)
    qed
  qed
  moreover have "\<not> isSearch (?L ! 0)"
    using assms by (simp add: sources_ok_def nth_append)
  ultimately show ?thesis by (simp add: sources_ok_def)
qed

lemma sources_ok_remove:
  assumes "sources_ok ts" "k < length ts" "isSearch (ts ! k)"
  shows "sources_ok (map (shiftDown k) (take k ts @ drop (k + 1) ts))" (is "sources_ok ?L")
proof -
  have k0: "0 < k" using assms(1,3) by (cases k) (auto simp: sources_ok_def)
  have len: "length ?L = length ts - 1" using assms(2) by simp
  have "sourceTab (?L ! i) \<le> i" if i: "i < length ?L" "isSearch (?L ! i)" for i
  proof (cases "i < k")
    case True
    then have e: "?L ! i = shiftDown k (ts ! i)" using assms(2) by (simp add: nth_append)
    then have "isSearch (ts ! i)" using i(2) by simp
    with sources_ok_nth [OF assms(1), of i] True assms(2) e show ?thesis by (simp add: shiftDown_def)
  next
    case False
    then have "?L ! i = shiftDown k (ts ! Suc i)" using assms(2) i(1) by (simp add: nth_append)
    moreover have "Suc i < length ts" using i(1) len by simp
    ultimately show ?thesis
      using sources_ok_nth [OF assms(1), of "Suc i"] False i(2) by (auto simp: shiftDown_def split: if_splits)
  qed
  moreover have "\<not> isSearch (?L ! 0)" "?L \<noteq> []"
    using assms k0 by (auto simp: sources_ok_def nth_append)
  ultimately show ?thesis by (simp add: sources_ok_def)
qed

lemma openSearchTab_ok:
  assumes "tabs_ok (ts, a)" "openSearchTab u mark w h source query (ts, a) = Inr (ts', a')"
  shows "tabs_ok (ts', a')"
proof (cases "length ts \<le> source \<or> query = []")
  case True
  with assms show ?thesis by (auto simp: openSearchTab_def)
next
  case False
  let ?k = "source + 1"
  let ?ts1 = "map (shiftUp ?k) ts"
  let ?nt = "searchTab u source query (?ts1 ! source)"
  let ?L = "take ?k ?ts1 @ ?nt # drop ?k ?ts1"
  let ?ts2 = "resizeTabs w h ?L"
  obtain t where t: "setContent u mark (?ts2 ! ?k) = Inr t" "ts' = ?ts2[?k := t]" "a' = ?k"
    using assms(2) False by (auto simp: openSearchTab_def Let_def chain_Inr_iff)
  have "sources_ok ?L"
    using assms(1) False by (intro sources_ok_insert) (auto simp: tabs_ok_def searchTab_def)
  then have ok2: "sources_ok ?ts2" using same_kind_resize by (rule sources_ok_same_kind [rotated])
  have len: "?k < length ?ts2" using False by (auto simp: resizeTabs_def)
  have "same_kind ?ts2 ts'"
    unfolding t(2) using len setContent_kind [OF t(1)] by (intro same_kind_update) auto
  with ok2 have "sources_ok ts'" by (rule sources_ok_same_kind [rotated])
  then show ?thesis using t(2,3) len by (simp add: tabs_ok_def)
qed

lemma closeSearchTab_ok:
  assumes "tabs_ok (ts, a)" "closeSearchTab w h idx (ts, a) = (ts', a')"
  shows "tabs_ok (ts', a')"
proof (cases "length ts \<le> idx \<or> \<not> isSearch (ts ! idx)")
  case True
  with assms show ?thesis by (auto simp: closeSearchTab_def)
next
  case False
  let ?L = "map (shiftDown idx) (take idx ts @ drop (idx + 1) ts)"
  have ok: "sources_ok ?L" using assms(1) False by (intro sources_ok_remove) (auto simp: tabs_ok_def)
  have e: "ts' = resizeTabs w h ?L" using assms(2) False by (auto simp: closeSearchTab_def Let_def)
  then have "sources_ok ts'" using ok same_kind_resize sources_ok_same_kind by blast
  moreover have len: "length ts' = length ?L" using e by (simp add: resizeTabs_def)
  moreover have "?L \<noteq> []" using ok by (simp add: sources_ok_def)
  then have "0 < length ?L" by (rule length_greater_0_conv [THEN iffD2])
  ultimately show ?thesis
    using assms(2) False by (auto simp: closeSearchTab_def Let_def tabs_ok_def)
qed

section \<open>Highlighting, by position\<close>

definition matches :: "string \<Rightarrow> string \<Rightarrow> bool" where
  "matches q s \<longleftrightarrow> map lowerChar (take (length q) s) = map lowerChar q"

function highlight :: "(string \<Rightarrow> string) \<Rightarrow> string \<Rightarrow> string \<Rightarrow> string" where
  "highlight mark q s =
     (if q = [] \<or> s = [] then s
      else if matches q s then mark (take (length q) s) @ highlight mark q (drop (length q) s)
      else hd s # highlight mark q (tl s))"
  by pat_completeness auto
termination
  by (relation "measure (\<lambda>(mark, q, s). length s)") (auto simp flip: length_greater_0_conv)

declare highlight.simps [simp del]

lemma matches_length: "matches q s \<Longrightarrow> length q \<le> length s"
  by (metis matches_def length_map length_take min.bounded_iff order_refl)

lemma highlight_none: "\<forall>j. \<not> matches q (drop j s) \<Longrightarrow> highlight mark q s = s"
proof (induction mark q s rule: highlight.induct)
  case (1 mark q s)
  show ?case
  proof (cases "q = [] \<or> s = []")
    case False
    have "\<not> matches q s" using "1.prems" [rule_format, of 0] by simp
    moreover have "\<forall>j. \<not> matches q (drop j (tl s))"
      using "1.prems" by (metis drop_Suc)
    ultimately show ?thesis using 1(2) False by (subst highlight.simps) simp
  qed (auto simp: highlight.simps)
qed

lemma highlight_skip:
  "i \<le> length s \<Longrightarrow> \<forall>j < i. \<not> matches q (drop j s) \<Longrightarrow> q \<noteq> [] \<Longrightarrow>
     highlight mark q s = take i s @ highlight mark q (drop i s)"
proof (induction i arbitrary: s)
  case (Suc i)
  then obtain c cs where s: "s = c # cs" by (cases s) auto
  have "\<not> matches q s" using Suc.prems(2) by auto
  then have "highlight mark q s = c # highlight mark q cs"
    using s Suc.prems(3) by (subst highlight.simps) simp
  moreover have "\<forall>j < i. \<not> matches q (drop j cs)"
    using Suc.prems(2) s by auto
  ultimately show ?case using Suc.IH [of cs] Suc.prems s by simp
qed simp

lemma matches_Index:
  "take (length q) (drop j (map lowerChar s)) = map lowerChar q \<longleftrightarrow> matches q (drop j s)"
  by (simp add: matches_def take_map drop_map)

lemma renderLoop_highlight:
  "q \<noteq> [] \<Longrightarrow> renderLoop mark q (map lowerChar q) s (map lowerChar s) = Inr (highlight mark q s)"
proof (induction "length s" arbitrary: s rule: less_induct)
  case less
  show ?case
  proof (cases "Index (map lowerChar s) (map lowerChar q)")
    case None
    have "\<forall>j. \<not> matches q (drop j s)"
      using Index_None [OF None] by (simp add: matches_Index)
    with None less.prems show ?thesis by (subst renderLoop.simps) (simp add: highlight_none)
  next
    case (Some i)
    let ?r = "drop (i + length q) s"
    have le: "i + length q \<le> length s" using Index_bounds [OF Some] by simp
    have "0 < length q" using less.prems by simp
    with le have "i < length s" by linarith
    then have ne: "drop i s \<noteq> []" by simp
    have m: "matches q (drop i s)" using Index_found [OF Some] by (simp add: matches_Index)
    have "\<forall>j < i. \<not> matches q (drop j s)"
      using Index_first [OF Some] by (simp add: matches_Index)
    then have "highlight mark q s = take i s @ highlight mark q (drop i s)"
      using le less.prems by (intro highlight_skip) auto
    also have "highlight mark q (drop i s) = mark (take (length q) (drop i s)) @ highlight mark q ?r"
      using m ne less.prems by (subst highlight.simps) (simp add: add.commute)
    finally have h: "highlight mark q s = take i s @ mark (take (length q) (drop i s)) @ highlight mark q ?r" .
    have "0 < length q" using less.prems by simp
    then have "length ?r < length s" using le by (cases s) auto
    from less.hyps [OF this less.prems]
    have "renderLoop mark q (map lowerChar q) ?r (drop (i + length q) (map lowerChar s)) = Inr (highlight mark q ?r)"
      by (simp add: drop_map)
    with Some le less.prems h show ?thesis by (subst renderLoop.simps) simp
  qed
qed

lemma renderLine_ok:
  assumes "isASCII line" "isASCII query"
  shows "renderLine u mark line query = Inr (highlight mark query line)"
  using assms renderLoop_highlight [of query mark line]
  by (auto simp: renderLine_def ToLower_def highlight.simps [of mark "[]"])

text \<open>
  C37: The highlighter is right on ASCII text. For every line and query of ASCII characters the
  loop of \<^verbatim>\<open>renderLine\<close> ends without a panic, and its text is that of the reference that goes
  through the line once and marks each leftmost occurrence of the query, whatever its case.
\<close>

theorem renderLine_highlights:
  assumes "isASCII line" "isASCII query"
  shows "renderLine u mark line query = Inr (highlight mark query line)"
  by (rule renderLine_ok [OF assms])

theorem renderLine_highlights_witness:
  "renderLine \<lparr>uniLower = id, uniFields = (\<lambda>_. [])\<rparr> (\<lambda>m. ''<'' @ m @ ''>'') ''An error: ERR'' ''err''
    = Inr ''An <err>or: <ERR>''"
proof -
  have "renderLine \<lparr>uniLower = id, uniFields = (\<lambda>_. [])\<rparr> (\<lambda>m. ''<'' @ m @ ''>'') ''An error: ERR'' ''err''
      = Inr (highlight (\<lambda>m. ''<'' @ m @ ''>'') ''err'' ''An error: ERR'')"
    by (rule renderLine_highlights) (simp_all add: isASCII_def)
  moreover have "highlight (\<lambda>m. ''<'' @ m @ ''>'') ''err'' ''An error: ERR'' = ''An <err>or: <ERR>''"
    by (simp add: highlight.simps matches_def lowerChar_def char_of_def bit_0)
  ultimately show ?thesis by simp
qed

text \<open>
  Outside ASCII it is not: \<^verbatim>\<open>strings.ToLower\<close> may lengthen a line, and then an offset found in
  the lower-cased line lies beyond the end of the line itself.
\<close>

lemma renderLine_panics:
  "query \<noteq> [] \<Longrightarrow> Index (ToLower u line) (ToLower u query) = Some i \<Longrightarrow> length line < i + length query \<Longrightarrow>
     renderLine u mark line query = Inl SliceOutOfRange"
  by (simp add: renderLine_def) (subst renderLoop.simps, simp)

end
