(* ===== verification/Cli_Model.thy ===== *)
theory Cli_Model
  imports Cli_Tabs Compose
begin

text \<open>
  The state of navi-cli and its reaction to messages (cmd/navi-cli/main.go, commands.go,
  modals.go): the commands of the prompt, the key handlers, the messages of finished jobs. A
  command that talks to docker or to the nodes returns a job, a value here; theory Cli_Jobs says
  what the jobs do. The widgets and styles of bubbletea and lipgloss are parameters.
\<close>

section \<open>State and messages\<close>

datatype uiMode = modeNormal | modeKillSelect | modeSearchInput

record killNodeInfo =
  killNode :: string
  killPort :: nat
  killUp :: bool

text \<open>\<open>nextCtx\<close> numbers the contexts and channels that \<^verbatim>\<open>Update\<close> makes.\<close>

record model =
  input :: string
  history :: "string list"
  tabs :: "tabModel list"
  activeTab :: nat
  width :: int
  height :: int
  composePath :: string
  nodePorts :: "nat list"
  debugMode :: bool
  logChan :: "nat option"
  logCtx :: "nat option"
  logCancel :: "nat option"
  mode :: uiMode
  killCursor :: nat
  killNodes :: "killNodeInfo list"
  searchInput :: string
  nextCtx :: nat

datatype job =
    StartJob int bool
  | StopJob string
  | ResetJob string
  | StatusJob "nat list"
  | SetJob "nat list" string string
  | GetJob "nat list" string bool
  | KillListJob "nat list"
  | AddNodeJob "nat list" bool
  | KillJob string nat

datatype Cmd = NoCmd | QuitCmd | BlinkCmd | WidgetCmd | WaitForLog "nat option" "nat option" | Job job

text \<open>What \<^verbatim>\<open>Update\<close> does besides: cancel a context, start to stream a container's logs.\<close>

datatype effect = CancelLogs nat | StreamLogs nat string string "nat option"

type_synonym reaction = "model \<times> effect list \<times> Cmd"

datatype keyMsg = KeyUp | KeyDown | KeyEnter | KeyEsc | KeyCtrlC | KeyTab | KeyShiftTab | OtherKey string

datatype Msg =
    WindowSizeMsg int int
  | KeyMsg keyMsg
  | commandResultMsg "string list"
  | killNodesLoadedMsg "killNodeInfo list"
  | nodeKilledMsg string "string option"
  | nodeAddedMsg nat nat "string option"
  | clusterStartedMsg string "nat list" bool "string option"
  | clusterStoppedMsg bool "string option"
  | logLineMsg logLine
  | OtherMsg

record Ui =
  uni :: Unicode
  errorStyle :: "string \<Rightarrow> string"
  promptStyle :: "string \<Rightarrow> string"
  searchMatchStyle :: "string \<Rightarrow> string"
  editText :: "Msg \<Rightarrow> string \<Rightarrow> string"   \<comment> \<open>\<^verbatim>\<open>textinput.Model.Update\<close> on its value\<close>
  composeExists :: bool                  \<comment> \<open>\<^verbatim>\<open>os.Stat\<close> of the compose file\<close>

definition baseTabs :: "tabModel list" where
  "baseTabs = [newTab ''Console'' [], newTab ''Errors/Warnings'' []]"

definition initialModel :: model where
  "initialModel = \<lparr>input = [], history = [], tabs = baseTabs, activeTab = 0, width = 0, height = 0,
     composePath = [], nodePorts = [], debugMode = False, logChan = None, logCtx = None, logCancel = None,
     mode = modeNormal, killCursor = 0, killNodes = [], searchInput = [], nextCtx = 0\<rparr>"

definition errorsTabIndex :: nat where
  "errorsTabIndex = 1"

definition say :: "string \<Rightarrow> model \<Rightarrow> model" where
  "say line m = m\<lparr>history := history m @ [line]\<rparr>"

definition cancelled :: "model \<Rightarrow> effect list" where
  "cancelled m = (case logCancel m of None \<Rightarrow> [] | Some c \<Rightarrow> [CancelLogs c])"

section \<open>Commands\<close>

definition helpLines :: "string list" where
  "helpLines =
    [''start-navi -n N [--debug]  start an N-node cluster (Note: you should start ODD number of nodes in one cluster.)'',
     ''stop-navi                  stop the running cluster'',
     ''reset-navi                 stop the cluster, drop volumes, delete .dat files'',
     ''status                     show leader and per-node health'',
     ''set KEY VALUE              write a key on the cluster leader'',
     ''get KEY [--relaxed]        read a key (relaxed = local, possibly stale)'',
     ''kill-node                  pick a node to kill (raft layer only; container stays up)'',
     ''add-node                   spawn a new container and add it to the running cluster'',
     ''help                       show this message'',
     ''quit / exit                leave the CLI'']"

text \<open>The options of \<^verbatim>\<open>start-navi\<close>: an error message, or the number and the debug flag.\<close>

fun parseStart :: "string list \<Rightarrow> int \<Rightarrow> bool \<Rightarrow> string + (int \<times> bool)" where
  "parseStart [] n debug = Inr (n, debug)"
| "parseStart (a # as) n debug =
     (if a = ''-n''
      then (case as of
              [] \<Rightarrow> Inl ''-n requires a value''
            | v # rest \<Rightarrow>
                (case Atoi v of
                   None \<Rightarrow> Inl (''invalid -n value: '' @ v)
                 | Some k \<Rightarrow> parseStart rest k debug))
      else if a = ''--debug'' then parseStart as n True
      else parseStart as n debug)"

definition debugSuffix :: "bool \<Rightarrow> string" where
  "debugSuffix debug = (if debug then '' (debug)'' else [])"

definition startNaviCommand :: "Ui \<Rightarrow> model \<Rightarrow> string list \<Rightarrow> reaction" where
  "startNaviCommand ui m args =
     (if logCancel m \<noteq> None
      then (say (errorStyle ui ''cluster already running (stop-navi first)'') m, [], NoCmd)
      else case parseStart args 0 False of
        Inl err \<Rightarrow> (say (errorStyle ui err) m, [], NoCmd)
      | Inr (n, debug) \<Rightarrow>
          if n < 1 then (say (errorStyle ui ''usage: start-navi -n N [--debug]'') m, [], NoCmd)
          else (say (''starting '' @ showInt n @ ''-node cluster'' @ debugSuffix debug @ ''...'') m, [],
                Job (StartJob n debug)))"

definition stopNaviCommand :: "Ui \<Rightarrow> model \<Rightarrow> reaction" where
  "stopNaviCommand ui m =
     (if composePath m = [] then (say (errorStyle ui ''no cluster running'') m, [], NoCmd)
      else (m, [], Job (StopJob (composePath m))))"

definition resetNaviCommand :: "Ui \<Rightarrow> model \<Rightarrow> reaction" where
  "resetNaviCommand ui m =
     (if \<not> composeExists ui then (say (errorStyle ui ''no cluster to reset'') m, [], NoCmd)
      else (m, [], Job (ResetJob composeFileName)))"

definition requireRunningCluster :: "Ui \<Rightarrow> model \<Rightarrow> model \<times> bool" where
  "requireRunningCluster ui m =
     (if nodePorts m = [] then (say (errorStyle ui ''no cluster running'') m, False) else (m, True))"

definition statusCommand :: "Ui \<Rightarrow> model \<Rightarrow> reaction" where
  "statusCommand ui m =
     (let (m1, ok) = requireRunningCluster ui m
      in if \<not> ok then (m1, [], NoCmd) else (m1, [], Job (StatusJob (nodePorts m1))))"

definition handleSet :: "Ui \<Rightarrow> model \<Rightarrow> string list \<Rightarrow> reaction" where
  "handleSet ui m args =
     (let (m1, ok) = requireRunningCluster ui m
      in if \<not> ok then (m1, [], NoCmd)
         else if length args \<noteq> 2 then (say (errorStyle ui ''usage: set KEY VALUE'') m1, [], NoCmd)
         else (m1, [], Job (SetJob (nodePorts m1) (args ! 0) (args ! 1))))"

definition handleGet :: "Ui \<Rightarrow> model \<Rightarrow> string list \<Rightarrow> reaction" where
  "handleGet ui m args =
     (let (m1, ok) = requireRunningCluster ui m
      in if \<not> ok then (m1, [], NoCmd)
         else if length args < 1 then (say (errorStyle ui ''usage: get KEY [--relaxed]'') m1, [], NoCmd)
         else (m1, [], Job (GetJob (nodePorts m1) (args ! 0) (1 < length args \<and> args ! 1 = ''--relaxed''))))"

definition killNodeCommand :: "Ui \<Rightarrow> model \<Rightarrow> reaction" where
  "killNodeCommand ui m =
     (let (m1, ok) = requireRunningCluster ui m
      in if \<not> ok then (m1, [], NoCmd) else (m1, [], Job (KillListJob (nodePorts m1))))"

definition addNodeCommand :: "Ui \<Rightarrow> model \<Rightarrow> reaction" where
  "addNodeCommand ui m =
     (let (m1, ok) = requireRunningCluster ui m
      in if \<not> ok then (m1, [], NoCmd)
         else (say ''adding new node...'' m1, [], Job (AddNodeJob (nodePorts m1) (debugMode m1))))"

definition runCommand :: "Ui \<Rightarrow> model \<Rightarrow> string \<Rightarrow> reaction" where
  "runCommand ui m line =
     (case Fields (uni ui) line of
        [] \<Rightarrow> (m, [], NoCmd)
      | name # args \<Rightarrow>
          if name = ''quit'' \<or> name = ''exit'' then (m, cancelled m, QuitCmd)
          else if name = ''help'' then (m\<lparr>history := history m @ helpLines\<rparr>, [], NoCmd)
          else if name = ''start-navi'' then startNaviCommand ui m args
          else if name = ''stop-navi'' then stopNaviCommand ui m
          else if name = ''reset-navi'' then resetNaviCommand ui m
          else if name = ''status'' then statusCommand ui m
          else if name = ''set'' then handleSet ui m args
          else if name = ''get'' then handleGet ui m args
          else if name = ''kill-node'' then killNodeCommand ui m
          else if name = ''add-node'' then addNodeCommand ui m
          else (say (errorStyle ui (''unknown command: '' @ name @ '' (try `help`)'')) m, [], NoCmd))"

section \<open>Modal windows\<close>

definition updateKillSelect :: "keyMsg \<Rightarrow> model \<Rightarrow> panic + reaction" where
  "updateKillSelect msg m =
     (case msg of
        KeyUp \<Rightarrow> Inr (if 0 < killCursor m then m\<lparr>killCursor := killCursor m - 1\<rparr> else m, [], NoCmd)
      | KeyDown \<Rightarrow> Inr (if killCursor m + 1 < length (killNodes m) then m\<lparr>killCursor := killCursor m + 1\<rparr> else m,
                         [], NoCmd)
      | KeyEnter \<Rightarrow>
          chain (index (killNodes m) (killCursor m)) (\<lambda>target.
            Inr (m\<lparr>mode := modeNormal\<rparr>, [], Job (KillJob (killNode target) (killPort target))))
      | KeyEsc \<Rightarrow> Inr (say ''kill-node cancelled'' (m\<lparr>mode := modeNormal\<rparr>), [], NoCmd)
      | KeyCtrlC \<Rightarrow> Inr (say ''kill-node cancelled'' (m\<lparr>mode := modeNormal\<rparr>), [], NoCmd)
      | _ \<Rightarrow> Inr (m, [], NoCmd))"

definition openSearch :: "Ui \<Rightarrow> nat \<Rightarrow> string \<Rightarrow> model \<Rightarrow> panic + model" where
  "openSearch ui source query m =
     chain (openSearchTab (uni ui) (searchMatchStyle ui) (width m) (height m) source query (tabs m, activeTab m))
       (\<lambda>(ts, a). Inr (m\<lparr>tabs := ts, activeTab := a\<rparr>))"

definition closeSearch :: "nat \<Rightarrow> model \<Rightarrow> model" where
  "closeSearch idx m =
     (let (ts, a) = closeSearchTab (width m) (height m) idx (tabs m, activeTab m)
      in m\<lparr>tabs := ts, activeTab := a\<rparr>)"

definition updateSearchInput :: "Ui \<Rightarrow> keyMsg \<Rightarrow> model \<Rightarrow> panic + reaction" where
  "updateSearchInput ui msg m =
     (if msg = KeyEnter
      then chain (openSearch ui (activeTab m) (searchInput m) (m\<lparr>mode := modeNormal, searchInput := []\<rparr>))
             (\<lambda>m1. Inr (m1, [], NoCmd))
      else if msg = KeyEsc \<or> msg = KeyCtrlC
      then Inr (m\<lparr>mode := modeNormal, searchInput := []\<rparr>, [], NoCmd)
      else Inr (m\<lparr>searchInput := editText ui (KeyMsg msg) (searchInput m)\<rparr>, [], WidgetCmd))"

section \<open>Update\<close>

definition updateInput :: "Ui \<Rightarrow> Msg \<Rightarrow> model \<Rightarrow> panic + reaction" where
  "updateInput ui msg m = Inr (m\<lparr>input := editText ui msg (input m)\<rparr>, [], WidgetCmd)"

definition updateKey :: "Ui \<Rightarrow> keyMsg \<Rightarrow> model \<Rightarrow> panic + reaction" where
  "updateKey ui msg m =
     (if mode m = modeKillSelect then updateKillSelect msg m
      else if mode m = modeSearchInput then updateSearchInput ui msg m
      else chain (if activeTab m \<noteq> 0 then chain (index (tabs m) (activeTab m)) (\<lambda>t. Inr (isSearch t)) else Inr False)
        (\<lambda>search.
          if search \<and> msg = KeyEsc then Inr (closeSearch (activeTab m) m, [], NoCmd)
          else if msg = KeyCtrlC \<or> msg = KeyEsc then Inr (m, cancelled m, QuitCmd)
          else if msg = KeyTab then Inr (m\<lparr>activeTab := (activeTab m + 1) mod length (tabs m)\<rparr>, [], NoCmd)
          else if msg = KeyShiftTab
          then Inr (m\<lparr>activeTab := (activeTab m + length (tabs m) - 1) mod length (tabs m)\<rparr>, [], NoCmd)
          else if activeTab m \<noteq> 0
          then if msg = OtherKey ''/'' then Inr (m\<lparr>mode := modeSearchInput, searchInput := []\<rparr>, [], BlinkCmd)
               else Inr (m, [], WidgetCmd)
          else if msg = KeyEnter
          then if input m = [] then Inr (m, [], NoCmd)
               else Inr (runCommand ui (say (promptStyle ui ''navi> '' @ input m) (m\<lparr>input := []\<rparr>)) (input m))
          else updateInput ui (KeyMsg msg) m))"

definition resized :: "model \<Rightarrow> model" where
  "resized m = m\<lparr>tabs := resizeTabs (width m) (height m) (tabs m)\<rparr>"

definition nodeAdded :: "Ui \<Rightarrow> nat \<Rightarrow> nat \<Rightarrow> string option \<Rightarrow> model \<Rightarrow> reaction" where
  "nodeAdded ui idx port err m =
     (case err of
        Some e \<Rightarrow> (say (errorStyle ui (''add-node failed: '' @ e)) m, [], NoCmd)
      | None \<Rightarrow>
          (let node = ''node'' @ showNat idx;
               m1 = resized (m\<lparr>nodePorts := nodePorts m @ [port], tabs := tabs m @ [newTab node node]\<rparr>)
           in (say (node @ '' added: port '' @ showNat port) m1,
               (case logCtx m of
                  Some ctx \<Rightarrow> [StreamLogs ctx (''kv-node'' @ showNat idx) node (logChan m)]
                | None \<Rightarrow> []), NoCmd)))"

definition clusterStarted ::
  "Ui \<Rightarrow> string \<Rightarrow> nat list \<Rightarrow> bool \<Rightarrow> string option \<Rightarrow> model \<Rightarrow> reaction" where
  "clusterStarted ui path ports debug err m =
     (case err of
        Some e \<Rightarrow> (say (errorStyle ui (''start-navi failed: '' @ e)) m, [], NoCmd)
      | None \<Rightarrow>
          (let ixs = [1..<Suc (length ports)];
               node = (\<lambda>i. ''node'' @ showNat i);
               ctx = nextCtx m; ch = Suc (nextCtx m);
               m1 = resized (m\<lparr>composePath := path, nodePorts := ports, debugMode := debug,
                      tabs := baseTabs @ map (\<lambda>i. newTab (node i) (node i)) ixs\<rparr>);
               m2 = m1\<lparr>logCtx := Some ctx, logCancel := Some ctx, logChan := Some ch, nextCtx := Suc ch\<rparr>
           in (say (''cluster started: '' @ showNat (length ports) @ '' node(s), ports ['' @
                    Join '' '' (map showNat ports) @ '']'') m2,
               map (\<lambda>i. StreamLogs ctx (''kv-node'' @ showNat i) (node i) (Some ch)) ixs,
               WaitForLog (Some ctx) (Some ch))))"

definition clusterStopped :: "Ui \<Rightarrow> bool \<Rightarrow> string option \<Rightarrow> model \<Rightarrow> reaction" where
  "clusterStopped ui reset err m =
     (case err of
        Some e \<Rightarrow> (say (errorStyle ui (''stop failed: '' @ e)) m, [], NoCmd)
      | None \<Rightarrow>
          (say (''cluster '' @ (if reset then ''reset'' else ''stopped''))
             (resized (m\<lparr>logChan := None, logCtx := None, logCancel := None, composePath := [], nodePorts := [],
                tabs := baseTabs, activeTab := 0\<rparr>)), cancelled m, NoCmd))"

definition logLineUpdate :: "Ui \<Rightarrow> logLine \<Rightarrow> model \<Rightarrow> panic + reaction" where
  "logLineUpdate ui msg m =
     (if logChan m = None then Inr (m, [], NoCmd)
      else chain (appendToTab (uni ui) (searchMatchStyle ui) (nodeTabIndex (tabs m) (logNode msg)) (logText msg) (tabs m)) (\<lambda>ts.
           chain (if Level msg = ''WARN'' \<or> Level msg = ''ERROR''
                  then appendToTab (uni ui) (searchMatchStyle ui) (Some errorsTabIndex)
                         (''['' @ logNode msg @ ''] '' @ logText msg) ts
                  else Inr ts) (\<lambda>ts1.
           Inr (m\<lparr>tabs := ts1\<rparr>, [], WaitForLog (logCtx m) (logChan m)))))"

fun Update :: "Ui \<Rightarrow> Msg \<Rightarrow> model \<Rightarrow> panic + reaction" where
  "Update ui (WindowSizeMsg w h) m = Inr (resized (m\<lparr>width := w, height := h\<rparr>), [], NoCmd)"
| "Update ui (KeyMsg msg) m = updateKey ui msg m"
| "Update ui (commandResultMsg lines) m = Inr (m\<lparr>history := history m @ lines\<rparr>, [], NoCmd)"
| "Update ui (killNodesLoadedMsg ns) m =
     Inr (m\<lparr>mode := modeKillSelect, killNodes := ns, killCursor := 0\<rparr>, [], NoCmd)"
| "Update ui (nodeKilledMsg node err) m =
     Inr (say (case err of Some e \<Rightarrow> errorStyle ui (''kill '' @ node @ '' failed: '' @ e)
                         | None \<Rightarrow> node @ '' killed'') m, [], NoCmd)"
| "Update ui (nodeAddedMsg idx port err) m = Inr (nodeAdded ui idx port err m)"
| "Update ui (clusterStartedMsg path ports debug err) m = Inr (clusterStarted ui path ports debug err m)"
| "Update ui (clusterStoppedMsg reset err) m = Inr (clusterStopped ui reset err m)"
| "Update ui (logLineMsg msg) m = logLineUpdate ui msg m"
| "Update ui OtherMsg m = updateInput ui OtherMsg m"

text \<open>
  The command \<^verbatim>\<open>waitForLog\<close>: the message it returns (\<open>None\<close> for nil), given whether the context
  is done and what the channel offers: nothing yet, its end (\<open>Some None\<close>), or a line.
\<close>

inductive waitForLog :: "bool \<Rightarrow> logLine option option \<Rightarrow> Msg option \<Rightarrow> bool" where
  received: "waitForLog d (Some (Some line)) (Some (logLineMsg line))"
| at_end: "waitForLog d (Some None) None"
| over: "waitForLog True ch None"

inductive_simps waitForLog_message: "waitForLog d ch (Some msg)"

text \<open>A message is always a line that the channel offered.\<close>

lemma waitForLog_line: "waitForLog d ch (Some msg) \<Longrightarrow> \<exists>line. ch = Some (Some line) \<and> msg = logLineMsg line"
  by (auto simp: waitForLog_message)

end
