(* ===== verification/Cli_Safety.thy ===== *)
theory Cli_Safety
  imports Cli_Model
begin

text \<open>
  The view of navi-cli, and what keeps its indices in range: the invariant of the model, its
  preservation by every message, and the message that breaks it.
\<close>

section \<open>View\<close>

record Look =
  activeTabStyle :: "string \<Rightarrow> string"
  inactiveTabStyle :: "string \<Rightarrow> string"
  welcomeStyle :: "string \<Rightarrow> string"
  vpView :: "tabModel \<Rightarrow> string"
  inputView :: "string \<Rightarrow> string"
  welcomeMessage :: string

fun killLines :: "Look \<Rightarrow> nat \<Rightarrow> nat \<Rightarrow> killNodeInfo list \<Rightarrow> string" where
  "killLines look cursor i [] = []"
| "killLines look cursor i (n # ns) =
     (let line = killNode n @ '' :'' @ showNat (killPort n) @ ''  '' @ (if killUp n then ''up'' else ''down'')
      in (if i = cursor then activeTabStyle look (''> '' @ line) else inactiveTabStyle look (''  '' @ line)) @
         newline @ killLines look cursor (Suc i) ns)"

definition viewKillSelect :: "Look \<Rightarrow> model \<Rightarrow> string" where
  "viewKillSelect look m =
     welcomeStyle look ''kill-node: select a node'' @ newline @ newline @
     killLines look (killCursor m) 0 (killNodes m) @ newline @
     inactiveTabStyle look ''up/down select  enter kill  esc cancel'' @ newline"

fun tabBar :: "Look \<Rightarrow> nat \<Rightarrow> nat \<Rightarrow> tabModel list \<Rightarrow> string" where
  "tabBar look active i [] = []"
| "tabBar look active i (t # ts) =
     (if i = active then activeTabStyle look else inactiveTabStyle look) ('' '' @ title t @ '' '') @
     tabBar look active (Suc i) ts"

definition View :: "Look \<Rightarrow> model \<Rightarrow> panic + string" where
  "View look m =
     (if mode m = modeKillSelect then Inr (viewKillSelect look m)
      else let bar = tabBar look (activeTab m) 0 (tabs m)
      in if activeTab m \<noteq> 0
         then chain (index (tabs m) (activeTab m)) (\<lambda>t.
              let statusLine =
                (if mode m = modeSearchInput then inputView look (searchInput m)
                 else if isSearch t
                 then inactiveTabStyle look (''filtered on /'' @ tabQuery t @ ''  ('' @ showNat (length (tabLines t)) @
                        '' matches)  esc close'')
                 else [])
              in Inr (bar @ newline @ statusLine @ newline @ vpView look t))
         else Inr (bar @ newline @ newline @ welcomeStyle look (welcomeMessage look) @ newline @ newline @
                concat (map (\<lambda>line. line @ newline) (history m)) @ inputView look (input m) @ newline))"

section \<open>The invariant\<close>

definition cli_inv :: "model \<Rightarrow> bool" where
  "cli_inv m \<longleftrightarrow> tabs_ok (tabs m, activeTab m) \<and>
     (mode m = modeKillSelect \<longrightarrow> killCursor m < length (killNodes m))"

text \<open>
  The messages for which it is kept: a list of nodes to kill is not empty, and when a
  cluster has started the active tab is one of the tabs it will have.
\<close>

fun expected :: "Msg \<Rightarrow> model \<Rightarrow> bool" where
  "expected (killNodesLoadedMsg ns) m = (ns \<noteq> [])"
| "expected (clusterStartedMsg path ports debug None) m = (activeTab m < 2 + length ports)"
| "expected _ m = True"

lemma sources_ok_plain: "ts \<noteq> [] \<Longrightarrow> \<forall>t \<in> set ts. \<not> isSearch t \<Longrightarrow> sources_ok ts"
  by (simp add: sources_ok_def)

lemma newTab_plain [simp]: "\<not> isSearch (newTab t n)"
  by (simp add: newTab_def)

lemma cli_inv_initial: "cli_inv initialModel"
  by (auto simp: cli_inv_def initialModel_def tabs_ok_def baseTabs_def intro!: sources_ok_plain)

lemma say_fields [simp]:
  "tabs (say l m) = tabs m" "activeTab (say l m) = activeTab m" "mode (say l m) = mode m"
  "killCursor (say l m) = killCursor m" "killNodes (say l m) = killNodes m"
  "cli_inv (say l m) = cli_inv m"
  by (simp_all add: say_def cli_inv_def)

lemma runCommand_keeps: "runCommand ui m line = (m', eff, cmd) \<Longrightarrow> cli_inv m \<Longrightarrow> cli_inv m'"
  by (auto simp: runCommand_def startNaviCommand_def stopNaviCommand_def resetNaviCommand_def
      statusCommand_def handleSet_def handleGet_def killNodeCommand_def addNodeCommand_def
      requireRunningCluster_def cli_inv_def Let_def
      split: list.splits if_splits sum.splits)

lemma tabs_ok_cong: "same_kind ts ts' \<Longrightarrow> tabs_ok (ts, a) \<Longrightarrow> tabs_ok (ts', a)"
  using sources_ok_same_kind same_kind_length by (fastforce simp: tabs_ok_def)

lemma tabs_ok_resize: "tabs_ok (ts, a) \<Longrightarrow> tabs_ok (resizeTabs w h ts, a)"
  by (rule tabs_ok_cong [OF same_kind_resize])

lemma sources_ok_append: "sources_ok ts \<Longrightarrow> \<not> isSearch t \<Longrightarrow> sources_ok (ts @ [t])"
  by (auto simp: sources_ok_def nth_append less_Suc_eq)

lemma updateKey_keeps:
  assumes "cli_inv m" "updateKey ui k m = Inr (m', eff, cmd)"
  shows "cli_inv m'"
proof -
  have t: "tabs_ok (tabs m, activeTab m)" "0 < length (tabs m)"
    using assms(1) by (auto simp: cli_inv_def tabs_ok_def)
  consider (kill) "mode m = modeKillSelect" | (search) "mode m = modeSearchInput" | (normal) "mode m = modeNormal"
    by (cases "mode m") auto
  then show ?thesis
  proof cases
    case kill
    with assms show ?thesis
      by (cases k) (auto simp: updateKey_def updateKillSelect_def cli_inv_def chain_Inr_iff split: if_splits)
  next
    case search
    then have u: "updateSearchInput ui k m = Inr (m', eff, cmd)" using assms(2) by (simp add: updateKey_def)
    show ?thesis
    proof (cases "k = KeyEnter")
      case True
      then have "openSearch ui (activeTab m) (searchInput m) (m\<lparr>mode := modeNormal, searchInput := []\<rparr>) = Inr m'"
        using u by (auto simp: updateSearchInput_def chain_Inr_iff)
      then obtain ts a where o: "openSearchTab (uni ui) (searchMatchStyle ui) (width m) (height m) (activeTab m)
          (searchInput m) (tabs m, activeTab m) = Inr (ts, a)"
        "m' = m\<lparr>mode := modeNormal, searchInput := [], tabs := ts, activeTab := a\<rparr>"
        by (auto simp: openSearch_def chain_Inr_iff)
      from openSearchTab_ok [OF t(1) o(1)] o(2) show ?thesis by (simp add: cli_inv_def)
    next
      case False
      with u search assms(1) show ?thesis by (auto simp: updateSearchInput_def cli_inv_def split: if_splits)
    qed
  next
    case normal
    show ?thesis
    proof (cases "\<exists>t. activeTab m \<noteq> 0 \<and> index (tabs m) (activeTab m) = Inr t \<and> isSearch t \<and> k = KeyEsc")
      case True
      then have "m' = closeSearch (activeTab m) m" using assms(2) normal by (auto simp: updateKey_def)
      moreover obtain ts a where c: "closeSearchTab (width m) (height m) (activeTab m) (tabs m, activeTab m) = (ts, a)"
        by fastforce
      ultimately show ?thesis
        using closeSearchTab_ok [OF t(1) c] normal by (simp add: closeSearch_def cli_inv_def)
    next
      case False
      have active: "cli_inv (m\<lparr>activeTab := x mod length (tabs m)\<rparr>)" for x
        using assms(1) t(2) by (simp add: cli_inv_def tabs_ok_def)
      show ?thesis
      proof (cases "k = KeyTab \<or> k = KeyShiftTab")
        case True
        with False assms(2) normal
        have "m' = m\<lparr>activeTab := (activeTab m + 1) mod length (tabs m)\<rparr> \<or>
            m' = m\<lparr>activeTab := (activeTab m + length (tabs m) - 1) mod length (tabs m)\<rparr>"
          unfolding updateKey_def chain_Inr_iff by (elim disjE) (simp_all add: chain_Inr_iff split: if_splits)
        with active show ?thesis by (elim disjE) simp_all
      next
        case other: False
        from False other assms(2) normal have "m' = m \<or>
            (\<exists>q. m' = m\<lparr>mode := modeSearchInput, searchInput := q\<rparr>) \<or> (\<exists>i. m' = m\<lparr>input := i\<rparr>) \<or>
            (\<exists>l e c. runCommand ui (say l (m\<lparr>input := []\<rparr>)) (input m) = (m', e, c))"
          by (auto simp: updateKey_def updateInput_def chain_Inr_iff split: if_splits)
        then show ?thesis
        proof (elim disjE exE)
          fix l e c
          assume "runCommand ui (say l (m\<lparr>input := []\<rparr>)) (input m) = (m', e, c)"
          from runCommand_keeps [OF this] assms(1) show ?thesis by (simp add: cli_inv_def)
        qed (use assms(1) in \<open>auto simp: cli_inv_def tabs_ok_def\<close>)
      qed
    qed
  qed
qed

lemma Update_keeps:
  assumes "cli_inv m" "expected msg m" "Update ui msg m = Inr (m', eff, cmd)"
  shows "cli_inv m'"
proof (cases msg)
  case (KeyMsg k)
  with assms updateKey_keeps show ?thesis by auto
next
  case (nodeAddedMsg i port err)
  have "tabs_ok (resizeTabs (width m) (height m) (tabs m @ [newTab x y]), activeTab m)" for x y
    using assms(1) sources_ok_append by (intro tabs_ok_resize) (auto simp: cli_inv_def tabs_ok_def)
  with nodeAddedMsg assms show ?thesis
    by (cases err) (auto simp: nodeAdded_def Let_def cli_inv_def resized_def)
next
  case (clusterStartedMsg path ports debug err)
  show ?thesis
  proof (cases err)
    case None
    have "tabs_ok (resizeTabs (width m) (height m) (baseTabs @ map f [1..<Suc (length ports)]), activeTab m)"
      if "\<And>i. \<not> isSearch (f i)" for f
      using that assms(2) clusterStartedMsg None
      by (intro tabs_ok_resize) (auto simp: tabs_ok_def baseTabs_def intro!: sources_ok_plain)
    with clusterStartedMsg None assms show ?thesis
      by (auto simp: clusterStarted_def Let_def cli_inv_def resized_def simp del: upt_Suc)
  qed (use clusterStartedMsg assms in \<open>auto simp: clusterStarted_def\<close>)
next
  case (clusterStoppedMsg reset err)
  have "tabs_ok (resizeTabs (width m) (height m) baseTabs, 0)"
    by (rule tabs_ok_resize) (auto simp: tabs_ok_def baseTabs_def intro!: sources_ok_plain)
  with clusterStoppedMsg assms show ?thesis
    by (cases err) (auto simp: clusterStopped_def cli_inv_def resized_def)
next
  case (logLineMsg l)
  show ?thesis
  proof (cases "logChan m")
    case None
    with logLineMsg assms show ?thesis by (simp add: logLineUpdate_def)
  next
    case (Some ch)
    then obtain ts ts1 where a: "appendToTab (uni ui) (searchMatchStyle ui) (nodeTabIndex (tabs m) (logNode l)) (logText l) (tabs m) = Inr ts"
      "same_kind ts ts1" "m' = m\<lparr>tabs := ts1\<rparr>"
      using logLineMsg assms(3)
      by (auto simp: logLineUpdate_def chain_Inr_iff split: if_splits intro: same_kind_append same_kind_refl)
    from same_kind_trans [OF same_kind_append [OF a(1)] a(2)] assms(1) a(3) show ?thesis
      by (auto simp: cli_inv_def intro: tabs_ok_cong)
  qed
qed (use assms tabs_ok_resize in \<open>auto simp: cli_inv_def resized_def updateInput_def\<close>)

text \<open>No index is out of range: only a slice of the highlighter can panic.\<close>

lemma renderLoop_panic: "renderLoop mark q lq l lower = Inl p \<Longrightarrow> p = SliceOutOfRange"
proof (induction mark q lq l lower rule: renderLoop.induct)
  case (1 mark q lq l lower)
  from "1.prems" show ?case
    by (subst (asm) renderLoop.simps)
      (auto simp: chain_def dest: "1.IH" split: if_splits option.splits sum.splits)
qed

lemma setContent_panic: "setContent u mark t = Inl p \<Longrightarrow> p = SliceOutOfRange"
proof -
  have lines: "renderLines u mark ls q = Inl p \<Longrightarrow> p = SliceOutOfRange" for ls q p
    by (induction ls) (auto simp: chain_def renderLine_def dest: renderLoop_panic split: if_splits sum.splits)
  assume "setContent u mark t = Inl p"
  then show ?thesis
    by (auto simp: setContent_def renderTabLines_def chain_def dest: lines split: if_splits sum.splits)
qed

lemma propagate_panic: "propagateFrom u mark i line ts = Inl p \<Longrightarrow> p = SliceOutOfRange"
  by (induction ts) (auto simp: chain_def dest: setContent_panic split: if_splits sum.splits)

lemma append_panic: "appendToTab u mark idx line ts = Inl p \<Longrightarrow> p = SliceOutOfRange"
  by (auto simp: appendToTab_def propagateToSearchTabs_def chain_def
      dest: setContent_panic propagate_panic split: option.splits if_splits sum.splits)

lemma open_panic: "openSearchTab u mark w h source q (ts, a) = Inl p \<Longrightarrow> p = SliceOutOfRange"
  by (auto simp: openSearchTab_def chain_def Let_def dest: setContent_panic split: if_splits sum.splits)

lemma index_total: "i < length xs \<Longrightarrow> index xs i \<noteq> Inl p"
  by simp

lemma Update_panic:
  assumes "cli_inv m" "Update ui msg m = Inl p"
  shows "p = SliceOutOfRange"
proof (cases msg)
  case (KeyMsg k)
  have a: "activeTab m < length (tabs m)" using assms(1) by (simp add: cli_inv_def tabs_ok_def)
  consider (kill) "mode m = modeKillSelect" | (search) "mode m = modeSearchInput" | (normal) "mode m = modeNormal"
    by (cases "mode m") auto
  then show ?thesis
  proof cases
    case kill
    with assms KeyMsg show ?thesis
      by (cases k) (auto simp: updateKey_def updateKillSelect_def cli_inv_def)
  next
    case search
    with assms KeyMsg show ?thesis
      by (auto simp: updateKey_def updateSearchInput_def openSearch_def chain_def dest: open_panic
          split: if_splits sum.splits)
  next
    case normal
    with assms KeyMsg a show ?thesis
      by (auto simp: updateKey_def updateInput_def split: if_splits)
  qed
next
  case (logLineMsg l)
  with assms show ?thesis
    by (auto simp: logLineUpdate_def chain_def dest: append_panic split: if_splits sum.splits)
qed (use assms in \<open>auto simp: updateInput_def\<close>)

lemma View_total: "cli_inv m \<Longrightarrow> \<exists>s. View look m = Inr s"
  by (simp add: View_def cli_inv_def tabs_ok_def Let_def)

section \<open>Properties\<close>

text \<open>The messages of a session, one after the other.\<close>

fun session :: "Ui \<Rightarrow> Msg list \<Rightarrow> model \<Rightarrow> panic + model" where
  "session ui [] m = Inr m"
| "session ui (msg # msgs) m = chain (Update ui msg m) (\<lambda>(m1, _). session ui msgs m1)"

fun session_expected :: "Ui \<Rightarrow> Msg list \<Rightarrow> model \<Rightarrow> bool" where
  "session_expected ui [] m = True"
| "session_expected ui (msg # msgs) m =
     (expected msg m \<and> (case Update ui msg m of Inl _ \<Rightarrow> True | Inr (m1, _) \<Rightarrow> session_expected ui msgs m1))"

lemma session_keeps:
  "cli_inv m \<Longrightarrow> session_expected ui msgs m \<Longrightarrow>
     (case session ui msgs m of Inl p \<Rightarrow> p = SliceOutOfRange | Inr m' \<Rightarrow> cli_inv m')"
proof (induction msgs arbitrary: m)
  case (Cons msg msgs)
  show ?case
  proof (cases "Update ui msg m")
    case (Inl p)
    with Update_panic [OF Cons.prems(1) Inl] show ?thesis by simp
  next
    case (Inr r)
    obtain m1 e c where r: "r = (m1, e, c)" by (metis surj_pair)
    have "cli_inv m1"
      by (rule Update_keeps [OF Cons.prems(1) _ Inr [unfolded r]]) (use Cons.prems(2) in simp)
    with Cons.IH [of m1] Cons.prems(2) Inr r show ?thesis by simp
  qed
qed simp

text \<open>
  C38: The screen of navi-cli stays consistent. Whatever keys are pressed, whatever windows,
  jobs, clusters and log lines report, in any order from the start of the program: as long as
  no cluster starts with fewer tabs than the active one and no empty node list is offered,
  every state has an active tab, no source to the right of its search tab and a node under the
  cursor, the view can be drawn, and no index is out of range; the only panic left is a slice
  in the highlighter.
\<close>

theorem cli_stays_consistent:
  assumes "session_expected ui msgs initialModel"
  shows "case session ui msgs initialModel of
      Inl p \<Rightarrow> p = SliceOutOfRange
    | Inr m \<Rightarrow> cli_inv m \<and> (\<exists>s. View look m = Inr s)"
  using session_keeps [OF cli_inv_initial assms] View_total
  by (auto split: sum.splits)

text \<open>The user of the examples: widgets that take every key, no styles.\<close>

definition plainUi :: Ui where
  "plainUi = \<lparr>uni = \<lparr>uniLower = id, uniFields = (\<lambda>_. [])\<rparr>, errorStyle = id, promptStyle = id,
     searchMatchStyle = id, editText = (\<lambda>msg s. case msg of KeyMsg (OtherKey k) \<Rightarrow> s @ k | _ \<Rightarrow> s),
     composeExists = False\<rparr>"

text \<open>To the errors tab, and a search for \<open>a\<close> in it; after it the search tab is active.\<close>

definition searchKeys :: "Msg list" where
  "searchKeys = map KeyMsg [KeyTab, OtherKey ''/'', OtherKey ''a'', KeyEnter]"

lemma searching:
  obtains m where "session plainUi searchKeys initialModel = Inr m" "session_expected plainUi searchKeys initialModel"
    "activeTab m = 2" "mode m = modeNormal" "length (tabs m) = 3"
  using that
  by (simp add: searchKeys_def plainUi_def initialModel_def baseTabs_def newTab_def updateKey_def
      updateSearchInput_def openSearch_def openSearchTab_def setContent_def renderTabLines_def
      searchTab_def shiftUp_def resizeTabs_def index_def Let_def)

theorem cli_stays_consistent_witness:
  "\<exists>m. session plainUi searchKeys initialModel = Inr m \<and> activeTab m = 2 \<and> cli_inv m"
proof -
  obtain m where m: "session plainUi searchKeys initialModel = Inr m"
    "session_expected plainUi searchKeys initialModel" "activeTab m = 2" by (rule searching)
  from cli_stays_consistent [OF m(2)] m show ?thesis by auto
qed

text \<open>
  C39: A cluster that has started can crash navi-cli. While \<^verbatim>\<open>start-navi\<close> runs in the background
  the user can open search tabs; the message of the started cluster replaces the tabs but
  leaves the active one, and if that has no successor, the next view and the next key index
  the tabs out of range.
\<close>

theorem started_cluster_crashes:
  assumes "2 + length ports \<le> activeTab m" "mode m = modeNormal"
  shows "\<exists>m' eff cmd. Update ui (clusterStartedMsg path ports debug None) m = Inr (m', eff, cmd) \<and>
    View look m' = Inl IndexOutOfRange \<and> Update ui (KeyMsg k) m' = Inl IndexOutOfRange"
  using assms
  by (simp add: clusterStarted_def Let_def View_def updateKey_def index_def resized_def say_def
      resizeTabs_def baseTabs_def del: upt_Suc)

theorem started_cluster_crashes_witness:
  "\<exists>m m' eff cmd. session plainUi (searchKeys @ map KeyMsg [OtherKey ''/'', OtherKey ''a'', KeyEnter]) initialModel = Inr m \<and>
    Update plainUi (clusterStartedMsg composeFileName [2021] False None) m = Inr (m', eff, cmd) \<and>
    Update plainUi (KeyMsg KeyTab) m' = Inl IndexOutOfRange"
proof -
  obtain m where m: "session plainUi (searchKeys @ map KeyMsg [OtherKey ''/'', OtherKey ''a'', KeyEnter]) initialModel = Inr m"
    "activeTab m = 3" "mode m = modeNormal"
    by (simp add: searchKeys_def plainUi_def initialModel_def baseTabs_def newTab_def updateKey_def
      updateSearchInput_def openSearch_def openSearchTab_def setContent_def renderTabLines_def
      searchTab_def shiftUp_def resizeTabs_def index_def Let_def)
  have "2 + length [2021 :: nat] \<le> activeTab m" using m(2) by simp
  from started_cluster_crashes [OF this m(3)] m(1) show ?thesis by metis
qed

end
