(* ===== verification/Cli_Jobs.thy ===== *)
theory Cli_Jobs
  imports Cli_Safety
begin

text \<open>
  The jobs of navi-cli (cmd/navi-cli/commands.go, modals.go) and the requests they send to the
  nodes (status.go). The world outside is a state \<open>'w\<close>; what it answers to HTTP requests, what
  docker does to it and its clock are the operations of the record \<open>Env\<close>. A loop that waits for
  the clock may not end, so its value is an option.
\<close>

section \<open>The world\<close>

record httpResp =
  respCode :: nat
  statusLine :: string
  respBody :: string
  bodyErr :: "string option"

record 'w Env =
  httpPost :: "string \<Rightarrow> 'w \<Rightarrow> (string + httpResp) \<times> 'w"
  httpGet :: "string \<Rightarrow> 'w \<Rightarrow> (string + httpResp) \<times> 'w"
  clockNow :: "'w \<Rightarrow> time \<times> 'w"
  sleepFor :: "int \<Rightarrow> 'w \<Rightarrow> 'w"
  composeFile :: "'w \<Rightarrow> fileErrors"
  ComposeUp :: "string \<Rightarrow> 'w \<Rightarrow> string option \<times> 'w"
  ComposeDown :: "string \<Rightarrow> bool \<Rightarrow> 'w \<Rightarrow> string option \<times> 'w"
  removeDat :: "'w \<Rightarrow> 'w"

section \<open>Requests to the nodes\<close>

definition nodeUrl :: "nat \<Rightarrow> string \<Rightarrow> string" where
  "nodeUrl port path = ''http://localhost:'' @ showNat port @ path"

fun probeFrom :: "'w Env \<Rightarrow> nat \<Rightarrow> nat list \<Rightarrow> 'w \<Rightarrow> (string + nat) \<times> 'w" where
  "probeFrom env n [] w = (Inl (''no leader found among '' @ showNat n @ '' node(s)''), w)"
| "probeFrom env n (port # ports) w =
     (case httpPost env (nodeUrl port ''/set?key=__leader_probe__&value=1'') w of
        (Inl err, w1) \<Rightarrow> probeFrom env n ports w1
      | (Inr resp, w1) \<Rightarrow> if respCode resp = 200 then (Inr port, w1) else probeFrom env n ports w1)"

definition probeLeader :: "'w Env \<Rightarrow> nat list \<Rightarrow> 'w \<Rightarrow> (string + nat) \<times> 'w" where
  "probeLeader env ports w = probeFrom env (length ports) ports w"

partial_function (option) retryProbe ::
  "'w Env \<Rightarrow> nat list \<Rightarrow> time \<Rightarrow> string + nat \<Rightarrow> 'w \<Rightarrow> ((string + nat) \<times> 'w) option" where
  "retryProbe env ports deadline r w =
     (case r of
        Inr port \<Rightarrow> Some (Inr port, w)
      | Inl err \<Rightarrow>
          (case clockNow env w of (t, w1) \<Rightarrow>
             if t < deadline
             then (case probeLeader env ports (sleepFor env (500 * Millisecond) w1) of (r1, w2) \<Rightarrow>
                     retryProbe env ports deadline r1 w2)
             else Some (Inl err, w1)))"

definition probeLeaderWithRetry ::
  "'w Env \<Rightarrow> nat list \<Rightarrow> int \<Rightarrow> 'w \<Rightarrow> ((string + nat) \<times> 'w) option" where
  "probeLeaderWithRetry env ports dur w =
     (case clockNow env w of (t, w1) \<Rightarrow>
        (case probeLeader env ports w1 of (r, w2) \<Rightarrow> retryProbe env ports (t + dur) r w2))"

definition nodeUp :: "'w Env \<Rightarrow> nat \<Rightarrow> 'w \<Rightarrow> bool \<times> 'w" where
  "nodeUp env port w =
     (case httpGet env (nodeUrl port ''/get?key=__health_probe__'') w of
        (Inl err, w1) \<Rightarrow> (False, w1)
      | (Inr resp, w1) \<Rightarrow> (True, w1))"

partial_function (option) waitUp :: "'w Env \<Rightarrow> nat \<Rightarrow> time \<Rightarrow> 'w \<Rightarrow> (bool \<times> 'w) option" where
  "waitUp env port deadline w =
     (case clockNow env w of (t, w1) \<Rightarrow>
        if t < deadline
        then (case nodeUp env port w1 of (up, w2) \<Rightarrow>
                if up then Some (True, w2) else waitUp env port deadline (sleepFor env (200 * Millisecond) w2))
        else Some (nodeUp env port w1))"

definition waitForNodeUp :: "'w Env \<Rightarrow> nat \<Rightarrow> int \<Rightarrow> 'w \<Rightarrow> (bool \<times> 'w) option" where
  "waitForNodeUp env port dur w =
     (case clockNow env w of (t, w1) \<Rightarrow> waitUp env port (t + dur) w1)"

text \<open>What \<^verbatim>\<open>doSet\<close>, \<^verbatim>\<open>doKill\<close> and \<^verbatim>\<open>doAddServer\<close> make of the answer: an error or none.\<close>

definition checkOk :: "string \<Rightarrow> string + httpResp \<Rightarrow> string option" where
  "checkOk what r =
     (case r of
        Inl err \<Rightarrow> Some err
      | Inr resp \<Rightarrow>
          if respCode resp \<noteq> 200 then Some (what @ '' failed: '' @ statusLine resp @ '': '' @ respBody resp)
          else None)"

definition doSet :: "'w Env \<Rightarrow> nat \<Rightarrow> string \<Rightarrow> string \<Rightarrow> 'w \<Rightarrow> string option \<times> 'w" where
  "doSet env port k v w =
     (case httpPost env (nodeUrl port (''/set?key='' @ k @ ''&value='' @ v)) w of (r, w1) \<Rightarrow> (checkOk ''set'' r, w1))"

definition doKill :: "'w Env \<Rightarrow> nat \<Rightarrow> 'w \<Rightarrow> string option \<times> 'w" where
  "doKill env port w = (case httpGet env (nodeUrl port ''/kill'') w of (r, w1) \<Rightarrow> (checkOk ''kill'' r, w1))"

definition doAddServer :: "'w Env \<Rightarrow> nat \<Rightarrow> nat \<Rightarrow> string \<Rightarrow> 'w \<Rightarrow> string option \<times> 'w" where
  "doAddServer env port i a w =
     (case httpGet env (nodeUrl port (''/add-server?id='' @ showNat i @ ''&address='' @ a)) w of
        (r, w1) \<Rightarrow> (checkOk ''add-server'' r, w1))"

definition doGet :: "'w Env \<Rightarrow> nat \<Rightarrow> string \<Rightarrow> bool \<Rightarrow> 'w \<Rightarrow> (string + string) \<times> 'w" where
  "doGet env port k relaxed w =
     (case httpGet env (nodeUrl port (''/get?key='' @ k) @ (if relaxed then ''&relaxed=true'' else [])) w of
        (Inl err, w1) \<Rightarrow> (Inl err, w1)
      | (Inr resp, w1) \<Rightarrow>
          (case bodyErr resp of
             Some err \<Rightarrow> (Inl err, w1)
           | None \<Rightarrow>
               if respCode resp \<noteq> 200
               then (Inl (''get failed: '' @ statusLine resp @ '': '' @ respBody resp), w1)
               else (Inr (respBody resp), w1)))"

section \<open>Jobs\<close>

fun statusLines :: "'w Env \<Rightarrow> string + nat \<Rightarrow> nat \<Rightarrow> nat list \<Rightarrow> 'w \<Rightarrow> string list \<times> 'w" where
  "statusLines env leader i [] w = ([], w)"
| "statusLines env leader i (port # ports) w =
     (case nodeUp env port w of (up, w1) \<Rightarrow>
        (case statusLines env leader (Suc i) ports w1 of (ls, w2) \<Rightarrow>
           ((''node'' @ showNat (i + 1) @ '' :'' @ showNat port @ ''  '' @ (if up then ''up'' else ''down'') @
             (if leader = Inr port then '' (leader)'' else [])) # ls, w2)))"

fun killInfos :: "'w Env \<Rightarrow> nat \<Rightarrow> nat list \<Rightarrow> 'w \<Rightarrow> killNodeInfo list \<times> 'w" where
  "killInfos env i [] w = ([], w)"
| "killInfos env i (port # ports) w =
     (case nodeUp env port w of (up, w1) \<Rightarrow>
        (case killInfos env (Suc i) ports w1 of (ks, w2) \<Rightarrow>
           (\<lparr>killNode = ''node'' @ showNat (i + 1), killPort = port, killUp = up\<rparr> # ks, w2)))"

definition startJob :: "'w Env \<Rightarrow> int \<Rightarrow> bool \<Rightarrow> 'w \<Rightarrow> Msg \<times> 'w" where
  "startJob env n debug w =
     (case GenerateCompose (composeFile env w) n debug of
        Inl err \<Rightarrow> (clusterStartedMsg [] [] debug (Some err), w)
      | Inr (path, ports, text) \<Rightarrow>
          (case ComposeUp env path w of (e, w1) \<Rightarrow> (clusterStartedMsg path ports debug e, w1)))"

definition resetJob :: "'w Env \<Rightarrow> string \<Rightarrow> 'w \<Rightarrow> Msg \<times> 'w" where
  "resetJob env path w =
     (case ComposeDown env path True w of (e, w1) \<Rightarrow>
        (clusterStoppedMsg True e, if e = None then removeDat env w1 else w1))"

definition statusJob :: "Ui \<Rightarrow> 'w Env \<Rightarrow> nat list \<Rightarrow> 'w \<Rightarrow> Msg \<times> 'w" where
  "statusJob ui env ports w =
     (case probeLeader env ports w of (leader, w1) \<Rightarrow>
        (case statusLines env leader 0 ports w1 of (ls, w2) \<Rightarrow>
           (commandResultMsg (ls @ (case leader of Inl err \<Rightarrow> [errorStyle ui err] | Inr _ \<Rightarrow> [])), w2)))"

definition setJob :: "Ui \<Rightarrow> 'w Env \<Rightarrow> nat list \<Rightarrow> string \<Rightarrow> string \<Rightarrow> 'w \<Rightarrow> Msg \<times> 'w" where
  "setJob ui env ports k v w =
     (case probeLeader env ports w of
        (Inl err, w1) \<Rightarrow> (commandResultMsg [errorStyle ui err], w1)
      | (Inr leader, w1) \<Rightarrow>
          (case doSet env leader k v w1 of
             (Some err, w2) \<Rightarrow> (commandResultMsg [errorStyle ui err], w2)
           | (None, w2) \<Rightarrow> (commandResultMsg [''ok: '' @ k @ '' = '' @ v], w2)))"

definition getJob :: "Ui \<Rightarrow> 'w Env \<Rightarrow> nat list \<Rightarrow> string \<Rightarrow> bool \<Rightarrow> 'w \<Rightarrow> Msg \<times> 'w" where
  "getJob ui env ports k relaxed w =
     (case probeLeader env ports w of
        (Inl err, w1) \<Rightarrow> (commandResultMsg [errorStyle ui err], w1)
      | (Inr leader, w1) \<Rightarrow>
          (case doGet env leader k relaxed w1 of
             (Inl err, w2) \<Rightarrow> (commandResultMsg [errorStyle ui err], w2)
           | (Inr v, w2) \<Rightarrow> (commandResultMsg [k @ '' = '' @ v], w2)))"

definition addFailed :: "string \<Rightarrow> Msg" where
  "addFailed err = nodeAddedMsg 0 0 (Some err)"

definition addNodeJob :: "'w Env \<Rightarrow> nat list \<Rightarrow> bool \<Rightarrow> 'w \<Rightarrow> (Msg \<times> 'w) option" where
  "addNodeJob env ports debug w =
     Option.bind (probeLeaderWithRetry env ports (10000 * Millisecond) w) (\<lambda>(r, w1).
       case r of Inl err \<Rightarrow> Some (addFailed err, w1)
       | Inr _ \<Rightarrow>
     (case AddComposeNode (composeFile env w1) (length ports) debug of Inl err \<Rightarrow> Some (addFailed err, w1)
       | Inr (path, newIndex, newPort, raftAddr, text) \<Rightarrow>
     (case ComposeUp env path w1 of (Some err, w2) \<Rightarrow> Some (addFailed err, w2)
       | (None, w2) \<Rightarrow>
     Option.bind (waitForNodeUp env newPort (15000 * Millisecond) w2) (\<lambda>(up, w3).
       if \<not> up
       then Some (addFailed (''node'' @ showNat newIndex @ '' did not come up on port '' @ showNat newPort), w3)
       else Option.bind (probeLeaderWithRetry env ports (10000 * Millisecond) w3) (\<lambda>(r1, w4).
       case r1 of Inl err \<Rightarrow> Some (addFailed err, w4)
       | Inr leader \<Rightarrow>
     (case doAddServer env leader newIndex raftAddr w4 of
         (Some err, w5) \<Rightarrow> Some (addFailed err, w5)
       | (None, w5) \<Rightarrow> Some (nodeAddedMsg newIndex newPort None, w5)))))))"

fun runJob :: "Ui \<Rightarrow> 'w Env \<Rightarrow> job \<Rightarrow> 'w \<Rightarrow> (Msg \<times> 'w) option" where
  "runJob ui env (StartJob n debug) w = Some (startJob env n debug w)"
| "runJob ui env (StopJob path) w =
     Some (case ComposeDown env path False w of (e, w1) \<Rightarrow> (clusterStoppedMsg False e, w1))"
| "runJob ui env (ResetJob path) w = Some (resetJob env path w)"
| "runJob ui env (StatusJob ports) w = Some (statusJob ui env ports w)"
| "runJob ui env (SetJob ports k v) w = Some (setJob ui env ports k v w)"
| "runJob ui env (GetJob ports k relaxed) w = Some (getJob ui env ports k relaxed w)"
| "runJob ui env (KillListJob ports) w =
     Some (case killInfos env 0 ports w of (ks, w1) \<Rightarrow> (killNodesLoadedMsg ks, w1))"
| "runJob ui env (AddNodeJob ports debug) w = addNodeJob env ports debug w"
| "runJob ui env (KillJob node port) w =
     Some (case doKill env port w of (e, w1) \<Rightarrow> (nodeKilledMsg node e, w1))"

section \<open>The loops end\<close>

text \<open>
  The clock of the world, as far as the loops rely on it: it does not go back, whatever is
  requested, and a sleep takes at least its time.
\<close>

definition clock_ok :: "'w Env \<Rightarrow> ('w \<Rightarrow> int) \<Rightarrow> bool" where
  "clock_ok env t \<longleftrightarrow>
     (\<forall>w. fst (clockNow env w) \<ge> t w \<and> t (snd (clockNow env w)) \<ge> t w) \<and>
     (\<forall>d w. t (sleepFor env d w) \<ge> t w + d) \<and>
     (\<forall>u w. t (snd (httpPost env u w)) \<ge> t w) \<and> (\<forall>u w. t (snd (httpGet env u w)) \<ge> t w)"

lemma probeFrom_clock: "clock_ok env t \<Longrightarrow> t w \<le> t (snd (probeFrom env n ports w))"
proof (induction ports arbitrary: w)
  case (Cons p ps)
  obtain r w1 where r: "httpPost env (nodeUrl p ''/set?key=__leader_probe__&value=1'') w = (r, w1)" by fastforce
  then have "t w \<le> t w1" using Cons.prems unfolding clock_ok_def by (metis snd_conv)
  moreover have "t w1 \<le> t (snd (probeFrom env n ps w1))" by (rule Cons.IH [OF Cons.prems])
  ultimately show ?case using r by (auto split: sum.split)
qed simp

lemma retryProbe_ends:
  assumes "clock_ok env t"
  shows "\<exists>r' w'. retryProbe env ports deadline r w = Some (r', w')"
proof (induction "nat (deadline - t w)" arbitrary: r w rule: less_induct)
  case less
  show ?case
  proof (cases r)
    case (Inr port)
    then show ?thesis by (subst retryProbe.simps) simp
  next
    case (Inl err)
    obtain n w1 where c: "clockNow env w = (n, w1)" by fastforce
    then have n: "t w \<le> n" "t w \<le> t w1" using assms unfolding clock_ok_def by (metis fst_conv snd_conv)+
    show ?thesis
    proof (cases "n < deadline")
      case False
      with Inl c show ?thesis by (subst retryProbe.simps) simp
    next
      case True
      obtain r1 w2 where p: "probeLeader env ports (sleepFor env (500 * Millisecond) w1) = (r1, w2)" by fastforce
      have "t w1 + 500 * Millisecond \<le> t (sleepFor env (500 * Millisecond) w1)"
        using assms unfolding clock_ok_def by blast
      also have "\<dots> \<le> t w2" using probeFrom_clock [OF assms] p unfolding probeLeader_def by (metis snd_conv)
      finally have "nat (deadline - t w2) < nat (deadline - t w)" using n True by simp
      from less.hyps [OF this, of r1] Inl c True p show ?thesis by (subst retryProbe.simps) simp
    qed
  qed
qed

lemma waitUp_ends:
  assumes "clock_ok env t"
  shows "\<exists>up w'. waitUp env port deadline w = Some (up, w')"
proof (induction "nat (deadline - t w)" arbitrary: w rule: less_induct)
  case less
  obtain n w1 where c: "clockNow env w = (n, w1)" by fastforce
  then have n: "t w \<le> n" "t w \<le> t w1" using assms unfolding clock_ok_def by (metis fst_conv snd_conv)+
  obtain up w2 where u: "nodeUp env port w1 = (up, w2)" by fastforce
  have "t w1 \<le> t (snd (httpGet env (nodeUrl port ''/get?key=__health_probe__'') w1))"
    using assms unfolding clock_ok_def by blast
  then have "t w1 \<le> t w2" using u by (auto simp: nodeUp_def split: prod.splits sum.splits)
  moreover have "t w2 + 200 * Millisecond \<le> t (sleepFor env (200 * Millisecond) w2)"
    using assms unfolding clock_ok_def by blast
  ultimately have "n < deadline \<Longrightarrow>
      nat (deadline - t (sleepFor env (200 * Millisecond) w2)) < nat (deadline - t w)" using n by simp
  with less.hyps [of "sleepFor env (200 * Millisecond) w2"] c u show ?case
    by (subst waitUp.simps) (cases "n < deadline", auto)
qed

lemma runJob_ends:
  assumes "clock_ok env t"
  shows "\<exists>msg w'. runJob ui env j w = Some (msg, w')"
proof -
  have probe: "\<exists>r w'. probeLeaderWithRetry env ports d w = Some (r, w')" for ports d w
    using retryProbe_ends [OF assms] by (auto simp: probeLeaderWithRetry_def split: prod.split)
  have wait: "\<exists>up w'. waitForNodeUp env port d w = Some (up, w')" for port d w
    using waitUp_ends [OF assms] by (auto simp: waitForNodeUp_def split: prod.split)
  have add: "\<exists>msg w'. addNodeJob env ports debug w = Some (msg, w')" for ports debug
  proof -
    obtain r w1 where 1: "probeLeaderWithRetry env ports (10000 * Millisecond) w = Some (r, w1)" using probe by blast
    show ?thesis
    proof (cases r)
      case (Inl err)
      with 1 show ?thesis by (simp add: addNodeJob_def)
    next
      case (Inr p)
      show ?thesis
      proof (cases "AddComposeNode (composeFile env w1) (length ports) debug")
        case (Inl err)
        with 1 Inr show ?thesis by (simp add: addNodeJob_def)
      next
        case A: (Inr a)
        obtain path ni np ra out where a: "a = (path, ni, np, ra, out)" by (metis surj_pair)
        obtain e w2 where 2: "ComposeUp env path w1 = (e, w2)" by fastforce
        obtain up w3 where 3: "waitForNodeUp env np (15000 * Millisecond) w2 = Some (up, w3)" using wait by blast
        obtain r1 w4 where 4: "probeLeaderWithRetry env ports (10000 * Millisecond) w3 = Some (r1, w4)" using probe by blast
        show ?thesis
          using 1 Inr A a 2 3 4
          by (cases e; cases up; cases r1) (simp_all add: addNodeJob_def split: prod.split option.split)
      qed
    qed
  qed
  then show ?thesis by (cases j) (simp_all split: prod.split)
qed

section \<open>Jobs and messages\<close>

lemma killInfos_length: "length (fst (killInfos env i ports w)) = length ports"
proof (induction ports arbitrary: i w)
  case (Cons p ps)
  then show ?case by (simp split: prod.split) (metis fst_conv)
qed simp

lemma kill_list_expected:
  "ports \<noteq> [] \<Longrightarrow> runJob ui env (KillListJob ports) w = Some (msg, w') \<Longrightarrow> expected msg m"
  using killInfos_length [of env 0 ports w] by (auto split: prod.splits)

lemma probeLeader_member: "probeLeader env ports w = (Inr port, w') \<Longrightarrow> port \<in> set ports"
proof -
  have "probeFrom env n ports w = (Inr port, w') \<Longrightarrow> port \<in> set ports" for n w
    by (induction ports arbitrary: w) (auto split: prod.splits sum.splits if_splits)
  then show "probeLeader env ports w = (Inr port, w') \<Longrightarrow> port \<in> set ports" by (simp add: probeLeader_def)
qed

section \<open>Properties\<close>

text \<open>
  C40: Every job of navi-cli ends. In a world whose clock does not go back, whose sleeps last at
  least their time, and in which every call of docker and HTTP returns (docker is run without a
  timeout of its own), each job returns a message for \<^verbatim>\<open>Update\<close>, the two loops that wait for a
  leader and for a node included; and the message of the job behind \<^verbatim>\<open>kill-node\<close> on a running
  cluster offers at least one node, as the screen requires.
\<close>

theorem jobs_end:
  assumes "clock_ok env t"
  shows "\<exists>msg w'. runJob ui env j w = Some (msg, w') \<and>
    (\<forall>ports. j = KillListJob ports \<and> ports \<noteq> [] \<longrightarrow> expected msg m)"
proof -
  obtain msg w' where r: "runJob ui env j w = Some (msg, w')" using runJob_ends [OF assms] by blast
  with kill_list_expected [of _ ui env w msg w' m] show ?thesis by (intro exI [of _ msg] exI [of _ w']) auto
qed

text \<open>A world that is its clock, with a second per request and no node that answers.\<close>

definition deadWorld :: "int Env" where
  "deadWorld = \<lparr>httpPost = (\<lambda>u w. (Inl ''refused'', w + 1000 * Millisecond)),
     httpGet = (\<lambda>u w. (Inl ''refused'', w + 1000 * Millisecond)), clockNow = (\<lambda>w. (w, w)),
     sleepFor = (\<lambda>d w. w + max 0 d), composeFile = (\<lambda>w. \<lparr>createErr = None, executeErr = None, closeErr = None\<rparr>),
     ComposeUp = (\<lambda>p w. (None, w)), ComposeDown = (\<lambda>p v w. (None, w)), removeDat = (\<lambda>w. w)\<rparr>"

theorem jobs_end_witness:
  "\<exists>msg w'. runJob plainUi deadWorld (AddNodeJob [2021, 2022] False) 0 = Some (msg, w')"
proof -
  have "clock_ok deadWorld (\<lambda>w. w)" by (simp add: clock_ok_def deadWorld_def)
  from jobs_end [OF this] show ?thesis by blast
qed

end
