(* ===== verification/Log_Order.thy ===== *)
theory Log_Order
  imports Election
begin

text \<open>
  The order in which the vote handler compares logs: by the term of the last entry, then by its
  index. It is a linear order of positions, so that what \<^verbatim>\<open>HandleRequestVoteRequest\<close> calls
  \<^verbatim>\<open>logOk\<close> is \<open>\<le>\<close>, and the facts about linear orders apply to it.
\<close>

datatype logPos = LogPos (posTerm: u64) (posIndex: u64)

instantiation logPos :: linorder
begin

definition less_eq_logPos :: "logPos \<Rightarrow> logPos \<Rightarrow> bool" where
  "p \<le> q \<longleftrightarrow> posTerm p < posTerm q \<or> posTerm p = posTerm q \<and> posIndex p \<le> posIndex q"

definition less_logPos :: "logPos \<Rightarrow> logPos \<Rightarrow> bool" where
  "(p :: logPos) < q \<longleftrightarrow> p \<le> q \<and> \<not> q \<le> p"

instance
proof
  fix p q r :: logPos
  show "p < q \<longleftrightarrow> p \<le> q \<and> \<not> q \<le> p" by (rule less_logPos_def)
  show "p \<le> p" by (simp add: less_eq_logPos_def)
  show "p \<le> q \<Longrightarrow> q \<le> r \<Longrightarrow> p \<le> r"
    by (cases p; cases q; cases r) (auto simp: less_eq_logPos_def)
  show "p \<le> q \<Longrightarrow> q \<le> p \<Longrightarrow> p = q"
    by (cases p; cases q) (auto simp: less_eq_logPos_def)
  show "p \<le> q \<or> q \<le> p"
    by (auto simp: less_eq_logPos_def)
qed

end

definition lastPos :: "('sm, 'st) Server \<Rightarrow> logPos" where
  "lastPos s = LogPos (lastTerm s) (of_nat (length (raftLog s) - 1))"

definition claimedPos :: "RequestVoteRequest \<Rightarrow> logPos" where
  "claimedPos req = LogPos (LastLogTerm req) (LastLogIndex req)"

lemma upToDate_iff:
  assumes "fits (length (raftLog s))"
  shows "upToDate req s \<longleftrightarrow> lastPos s \<le> claimedPos req"
proof -
  have "fits (length (raftLog s) - 1)" using assms by (rule fits_mono) simp
  then have "small (length (raftLog s) - 1)" by simp
  then show ?thesis
    by (auto simp: upToDate_def less_eq_logPos_def lastPos_def claimedPos_def small_le_iff)
qed

text \<open>A vote goes to a candidate whose position is not behind, and a log ahead of it refuses.\<close>

lemma grantable_position: "node_ok s \<Longrightarrow> grantable req s \<Longrightarrow> lastPos s \<le> claimedPos req"
  by (auto simp: grantable_def node_ok_def upToDate_iff)

lemma ahead_refuses: "node_ok s \<Longrightarrow> claimedPos req < lastPos s \<Longrightarrow> \<not> grantable req s"
  using grantable_position [of s req] by (auto simp: not_le [symmetric])

lemma voters_behind: "\<forall>s \<in> S. node_ok s \<and> grantable req s \<Longrightarrow> finite S \<Longrightarrow> S \<noteq> {} \<Longrightarrow>
    Max (lastPos ` S) \<le> claimedPos req"
  by (auto intro: grantable_position)

end
