(* ===== verification/Node_Moves.thy ===== *)
theory Node_Moves
  imports Run
begin

text \<open>
  How a locked section moves the role, the log and the member list of a node: what a cluster
  needs to know of the steps of its nodes, beyond the guarantees of Node. Together with
  those it is the interface between the program of one node and the argument about many.
\<close>

section \<open>Moves\<close>

definition noConfig :: "Entry list \<Rightarrow> bool" where
  "noConfig es \<longleftrightarrow> (\<forall>e \<in> set es. \<not> isConfigChangeCommand (Command e))"

definition addresses :: "ClusterMember list \<Rightarrow> (u64 \<times> bytes) list" where
  "addresses ms = map (\<lambda>m. (memberId m, Address m)) ms"

text \<open>
  A leader was leader before or has just counted a majority, in the same term; a candidate was
  one before, or has just started an election without the votes of others; a leader stays leader
  in its term.
\<close>

definition role_moves :: "('sm, 'st) Server \<Rightarrow> ('sm, 'st) Server \<Rightarrow> bool" where
  "role_moves s t \<longleftrightarrow>
     (role t = leaderState \<longrightarrow> currentTerm t = currentTerm s \<and>
        (role s = leaderState \<or> majority (length (cluster s)) \<le> length (voters s) \<and>
           raftLog t = raftLog s @ [\<lparr>Command = [], entryTerm = currentTerm s, result = None\<rparr>])) \<and>
     (role t = candidateState \<longrightarrow> role s = candidateState \<and> currentTerm t = currentTerm s \<or>
        currentTerm t = currentTerm s + 1 \<and>
        (\<forall>i < length (cluster t). i \<noteq> clusterIndex t \<longrightarrow> votedFor (cluster t ! i) = 0)) \<and>
     (role s = leaderState \<and> currentTerm t = currentTerm s \<longrightarrow> role t = leaderState)"

text \<open>The log is only extended, by a leader, with entries of its term.\<close>

definition log_moves :: "('sm, 'st) Server \<Rightarrow> ('sm, 'st) Server \<Rightarrow> bool" where
  "log_moves s t \<longleftrightarrow> raftLog t = raftLog s \<or>
     role t = leaderState \<and> (\<exists>ys. raftLog t = raftLog s @ ys \<and> (\<forall>y \<in> set ys. entryTerm y = currentTerm t))"

text \<open>Without a configuration entry in the log the members stay.\<close>

definition members_move :: "('sm, 'st) Server \<Rightarrow> ('sm, 'st) Server \<Rightarrow> bool" where
  "members_move s t \<longleftrightarrow> (noConfig (raftLog t) \<longrightarrow> addresses (cluster t) = addresses (cluster s))"

definition moves :: "('sm, 'st) Server \<Rightarrow> ('sm, 'st) Server \<Rightarrow> bool" where
  "moves s t \<longleftrightarrow> role_moves s t \<and> log_moves s t \<and> members_move s t"

lemma moves_same:
  "role t = role s \<Longrightarrow> currentTerm t = currentTerm s \<Longrightarrow> raftLog t = raftLog s \<Longrightarrow>
     addresses (cluster t) = addresses (cluster s) \<Longrightarrow> moves s t"
  by (auto simp: moves_def role_moves_def log_moves_def members_move_def)

lemma moves_follower:
  "role t = followerState \<Longrightarrow> currentTerm t \<noteq> currentTerm s \<or> role s \<noteq> leaderState \<Longrightarrow>
     raftLog t = raftLog s \<Longrightarrow> addresses (cluster t) = addresses (cluster s) \<Longrightarrow> moves s t"
  by (auto simp: moves_def role_moves_def log_moves_def members_move_def)

lemma moves_refl [simp]: "moves s s"
  by (rule moves_same) simp_all

lemma addresses_set:
  "memberId m = memberId (ms ! i) \<Longrightarrow> Address m = Address (ms ! i) \<Longrightarrow> addresses (ms[i := m]) = addresses ms"
  by (cases "i < length ms")
    (auto simp: addresses_def map_update list_update_beyond nth_list_update intro!: nth_equalityI)

lemma addresses_update [simp]:
  "addresses (ms[i := (ms ! i)\<lparr>votedFor := v\<rparr>]) = addresses ms"
  "addresses (ms[i := (ms ! i)\<lparr>nextIndex := a, matchIndex := b\<rparr>]) = addresses ms"
  "addresses (ms[i := (ms ! i)\<lparr>nextIndex := a\<rparr>]) = addresses ms"
  "addresses (map (\<lambda>m. m\<lparr>nextIndex := a, matchIndex := b\<rparr>) ms) = addresses ms"
  by (auto intro: addresses_set) (simp add: addresses_def)

lemma addresses_length: "addresses ms = addresses ms' \<Longrightarrow> length ms = length ms'"
  by (metis addresses_def length_map)

lemma addresses_nth:
  "addresses ms = addresses ms' \<Longrightarrow> i < length ms \<Longrightarrow>
     memberId (ms ! i) = memberId (ms' ! i) \<and> Address (ms ! i) = Address (ms' ! i)"
  by (auto simp: addresses_def list_eq_iff_nth_eq)

lemma addresses_resetVotes: "addresses (resetVotes s) = addresses (cluster s)"
  by (auto simp: addresses_def resetVotes_nth intro!: nth_equalityI)

lemma noConfig_simps [simp]:
  "noConfig []" "noConfig (e # es) = (\<not> isConfigChangeCommand (Command e) \<and> noConfig es)"
  "noConfig (es @ fs) = (noConfig es \<and> noConfig fs)"
  by (auto simp: noConfig_def)

lemma noConfig_take: "noConfig es \<Longrightarrow> noConfig (take k es)"
  by (auto simp: noConfig_def dest: in_set_takeD)

lemma noConfig_drop: "noConfig es \<Longrightarrow> noConfig (drop k es)"
  by (auto simp: noConfig_def dest: in_set_dropD)

section \<open>The operations of the main loop\<close>

lemma adopt_moves:
  assumes "agree (adoptTerm T s) t"
  shows "moves s t"
proof (cases "currentTerm s < T")
  case True
  with assms show ?thesis by (intro moves_follower) (auto simp: agree_def adoptTerm_def)
next
  case False
  with assms show ?thesis by (intro moves_same) (auto simp: agree_def adoptTerm_def)
qed

lemma agree_moves: "agree s t \<Longrightarrow> moves s t"
  by (rule moves_same) (simp_all add: agree_def)

lemma reset_moves:
  assumes "node_ok s" "resetElectionTimeout s = Inr t"
  shows "moves s t"
proof -
  have "0 < heartbeatMs s" using assms(1) by (simp add: node_ok_def)
  then obtain t' where "resetElectionTimeout s = Inr t'" "agree s t'"
    by (rule resetElectionTimeout_ok)
  with assms(2) agree_moves show ?thesis by simp
qed

lemma heartbeat_moves: "heartbeat s = (is, t) \<Longrightarrow> moves s t"
  by (rule moves_same) (auto simp: heartbeat_def Now_def Let_def split: if_splits)

lemma advance_moves:
  assumes "node_ok s" "advanceCommitIndex s = Inr t"
  shows "moves s t"
proof -
  have f: "raftLog s \<noteq> []" "fits (length (raftLog s))" using assms(1) by (auto simp: node_ok_def)
  obtain c where c: "advanceLeaderCommit s = s\<lparr>commitIndex := c\<rparr>"
    using advanceLeaderCommit_ok [OF f] by blast
  show ?thesis
  proof (cases "lastApplied s \<le> c")
    case False
    with assms(2) advance_idle [OF f c] have "t = s\<lparr>commitIndex := c\<rparr>" by simp
    then show ?thesis by (intro moves_same) simp_all
  next
    case True
    obtain u where "applyEntry (raftLog s ! unat (lastApplied s)) (s\<lparr>commitIndex := c\<rparr>) = Inr u"
      "t = u\<lparr>lastApplied := lastApplied u + 1\<rparr>"
      using assms(2) c True by (auto simp: advanceCommitIndex_def chain_Inr_iff Let_def split: if_splits)
    then show ?thesis
      by (intro moves_same)
        (auto simp: applyEntry_def deliver_def chain_Inr_iff split: if_splits option.splits sum.splits prod.splits)
  qed
qed

lemma timeout_moves:
  assumes "node_ok s" "timeout s = Inr (is, t)"
  shows "moves s t"
proof (cases "\<not> Passive s \<and> electionTimeout s < clock s 0")
  case True
  then obtain t' where t': "timeout s = Inr (requestVote s, t')" "currentTerm t' = currentTerm s + 1"
    "role t' = candidateState" "raftLog t' = raftLog s" "cluster t' = resetVotes s"
    "clusterIndex t' = clusterIndex s"
    using timeout_starts_election [OF assms(1)] by metis
  with assms(2) have t: "t = t'" by simp
  show ?thesis
    unfolding t moves_def role_moves_def log_moves_def members_move_def
    using t' by (simp add: addresses_resetVotes resetVotes_nth)
next
  case False
  show ?thesis
  proof (cases "Passive s")
    case True
    with assms(2) timeout_waits(1) [of s] show ?thesis by simp
  next
    case P: False
    with False have "clock s 0 \<le> electionTimeout s" by simp
    from assms(2) timeout_waits(2) [OF P this] show ?thesis by (intro moves_same) auto
  qed
qed

lemma becomeLeader_moves:
  assumes "node_ok s" "fits (Suc (length (raftLog s)))" "becomeLeader grow s = Inr t"
  shows "moves s t"
proof (cases "majority (length (cluster s)) \<le> length (voters s)")
  case True
  obtain t' where t': "becomeLeader grow s = Inr t'" "currentTerm t' = currentTerm s"
    "role t' = leaderState"
    "raftLog t' = raftLog s @ [\<lparr>Command = [], entryTerm = currentTerm s, result = None\<rparr>]"
    "cluster t' = map (\<lambda>m. m\<lparr>nextIndex := of_nat (length (raftLog s) + 1), matchIndex := 0\<rparr>) (cluster s)"
    by (rule becomeLeader_wins [OF assms(1,2) True])
  with assms(3) have t: "t = t'" by simp
  show ?thesis
    unfolding t moves_def role_moves_def log_moves_def members_move_def
    using t'(2-5) True by simp
next
  case False
  with assms(3) becomeLeader_waits [of s grow] show ?thesis by simp
qed

section \<open>Handlers and responses\<close>

lemma updateTerm_moves:
  assumes "node_ok s" "updateTerm msg s = Inr (b, t)"
  shows "moves s t \<and> (\<not> b \<longrightarrow> t = s)"
proof -
  obtain t' where "updateTerm msg s = Inr (currentTerm s < Term msg, t')"
    "agree (adoptTerm (Term msg) s) t'" "\<not> currentTerm s < Term msg \<longrightarrow> t' = s"
    by (rule updateTerm_ok [OF assms(1)])
  with assms(2) adopt_moves show ?thesis by auto
qed

lemma vote_response_moves:
  assumes "node_ok s" "handleVoteResponse i req rsp s = Inr t"
  shows "moves s t"
proof -
  obtain b s1 where u: "updateTerm rsp s = Inr (b, s1)"
    using assms(2) by (auto simp: handleVoteResponse_def chain_Inr_iff)
  have "t = s1 \<or> \<not> b \<and> t = s1\<lparr>cluster := (cluster s1)[i := (cluster s1 ! i)\<lparr>votedFor := selfId s1\<rparr>]\<rparr>"
    using assms(2) u by (auto simp: handleVoteResponse_def split: if_splits)
  with updateTerm_moves [OF assms(1) u] show ?thesis by (auto intro!: moves_same)
qed

lemma append_response_moves:
  assumes "node_ok s" "handleAppendResponse i req rsp s = Inr t"
  shows "moves s t"
proof -
  obtain b s1 where u: "updateTerm rsp s = Inr (b, s1)"
    using assms(2) by (auto simp: handleAppendResponse_def chain_Inr_iff)
  let ?n = "max (PrevLogIndex req + of_nat (length (Entries req)) + 1) 1"
  have "t = s1 \<or> \<not> b \<and>
      (t = s1\<lparr>cluster := (cluster s1)[i := (cluster s1 ! i)\<lparr>nextIndex := ?n, matchIndex := ?n - 1\<rparr>]\<rparr> \<or>
       t = s1\<lparr>cluster := (cluster s1)[i :=
              (cluster s1 ! i)\<lparr>nextIndex := max (nextIndex (cluster s1 ! i) - 1) 1\<rparr>]\<rparr>)"
    using assms(2) u by (auto simp: handleAppendResponse_def Let_def split: if_splits)
  with updateTerm_moves [OF assms(1) u] show ?thesis by (auto intro!: moves_same)
qed

lemma on_vote_moves:
  assumes "node_ok s" "HandleRequestVoteRequest req s = Inr (rsp, t)"
  shows "moves s t" "VoteGranted rsp \<longrightarrow> Term rsp = Term req \<and> currentTerm t = Term req \<and> ownVote t = CandidateId req"
proof -
  obtain t' where t': "HandleRequestVoteRequest req s
       = Inr (\<lparr>Term = max (currentTerm s) (Term req), VoteGranted = grantable req s\<rparr>, t')"
    "agree (if grantable req s then castVote (CandidateId req) (adoptTerm (Term req) s)
            else adoptTerm (Term req) s) t'"
    by (rule HandleRequestVoteRequest_ok [OF assms(1)])
  with assms(2) have t: "t = t'" "rsp = \<lparr>Term = max (currentTerm s) (Term req), VoteGranted = grantable req s\<rparr>"
    by simp_all
  let ?a = "adoptTerm (Term req) s"
  have ci: "clusterIndex s < length (cluster s)" using assms(1) by (simp add: node_ok_def)
  have a: "moves s ?a" by (rule adopt_moves) (rule agree_refl)
  have "moves s (castVote c ?a)" for c
  proof (cases "currentTerm s < Term req")
    case True
    with ci show ?thesis by (intro moves_follower) (auto simp: castVote_def adoptTerm_def)
  next
    case False
    then show ?thesis by (intro moves_same) (simp_all add: castVote_def adoptTerm_def)
  qed
  with a have u: "moves s (if grantable req s then castVote (CandidateId req) ?a else ?a)" (is "moves s ?u")
    by simp
  have "role t = role ?u" "currentTerm t = currentTerm ?u" "raftLog t = raftLog ?u"
    "cluster t = cluster ?u" "clusterIndex t = clusterIndex ?u"
    using t'(2) t(1) unfolding agree_def by blast+
  with u show "moves s t" unfolding moves_def role_moves_def log_moves_def members_move_def by metis
  show "VoteGranted rsp \<longrightarrow> Term rsp = Term req \<and> currentTerm t = Term req \<and> ownVote t = CandidateId req"
  proof
    assume "VoteGranted rsp"
    then have g: "grantable req s" using t(2) by simp
    then have m: "max (currentTerm s) (Term req) = Term req" by (auto simp: grantable_def)
    have a: "agree (castVote (CandidateId req) ?a) t" using g t'(2) t(1) by simp
    have "currentTerm t = Term req" using a m by (simp add: agree_def)
    moreover have "ownVote t = CandidateId req"
      using agree_ownVote [OF a] ci by (simp add: ownVote_castVote)
    ultimately show "Term rsp = Term req \<and> currentTerm t = Term req \<and> ownVote t = CandidateId req"
      using t(2) m by simp
  qed
qed

section \<open>The append handler\<close>

text \<open>
  The handler accepts as a follower, or refuses; a node that is no follower when it answers has
  not changed its role.
\<close>

lemma static_rebuild:
  assumes "noConfig (raftLog s)" "rebuildClusterFromLog v s = Inr t"
  shows "cluster t = baseCluster s \<and> raftLog t = raftLog s \<and> baseCluster t = baseCluster s"
proof -
  have "rebuildLoop k es cl i v = Inr cl" if "noConfig es" for k es cl i
    using that by (induction es arbitrary: k) simp_all
  with assms show ?thesis by (auto simp: rebuildClusterFromLog_def Let_def chain_Inr_iff split: sum.splits)
qed

definition static :: "('sm, 'st) Server \<Rightarrow> bool" where
  "static s \<longleftrightarrow> noConfig (raftLog s) \<and> addresses (cluster s) = addresses (baseCluster s)"

lemma appendLoop_static:
  assumes "appendLoop grow T i rs v n s = Inr (k, t)" "static s" "noConfig rs"
  shows "static t \<and> baseCluster t = baseCluster s"
  using assms
proof (induction rs arbitrary: i n s)
  case Nil
  then show ?case by simp
next
  case (Cons r rs)
  let ?e = "r\<lparr>result := None\<rparr>"
  obtain s1 s2 d s3 s4 where st: "reserveLog T i s = Inr s1" "truncateLog i ?e v s1 = Inr s2"
    "placeEntry grow i ?e s2 = Inr (d, s3)" "adoptConfig i ?e v s3 = Inr s4"
    "appendLoop grow T (i + 1) rs v (n + d) s4 = Inr (k, t)"
    using Cons.prems(1) by (auto simp: Let_def chain_Inr_iff)
  have "noConfig (replicate m dummyEntry)" for m
    by (simp add: noConfig_def dummyEntry_def isConfigChangeCommand_def)
  then have s1: "static s1" "baseCluster s1 = baseCluster s"
    using st(1) Cons.prems(2) by (auto simp: reserveLog_def static_def noConfig_take split: if_splits)
  have s2: "static s2" "baseCluster s2 = baseCluster s"
  proof (atomize (full), cases "unat i < length (raftLog s1) \<and> entryTerm (raftLog s1 ! unat i) \<noteq> entryTerm ?e")
    case True
    have nc: "noConfig (raftLog (s1\<lparr>raftLog := take (unat i) (raftLog s1)\<rparr>))"
      using s1(1) by (simp add: static_def noConfig_take)
    from st(2) True have "rebuildClusterFromLog v (s1\<lparr>raftLog := take (unat i) (raftLog s1)\<rparr>) = Inr s2"
      unfolding truncateLog_def by (simp only: if_True simp_thms)
    from static_rebuild [OF nc this] nc s1(2) show "static s2 \<and> baseCluster s2 = baseCluster s"
      by (simp add: static_def)
  next
    case False
    with st(2) have "s2 = s1" unfolding truncateLog_def by (simp only: if_False) simp
    with s1 show "static s2 \<and> baseCluster s2 = baseCluster s" by simp
  qed
  have s3: "static s3" "baseCluster s3 = baseCluster s"
    using st(3) s2 Cons.prems(3)
    by (auto simp: placeEntry_def appendLog_def static_def Let_def split: if_splits)
  have "s4 = s3" using st(4) Cons.prems(3) by (simp add: adoptConfig_def)
  with Cons.IH [OF st(5)] s3 Cons.prems(3) show ?case by simp
qed

lemma persist_frame:
  "persist w n s = Inr t \<Longrightarrow> raftLog t = raftLog s \<and> cluster t = cluster s \<and> baseCluster t = baseCluster s"
  by (auto simp: persist_def Let_def split: option.splits sum.splits prod.splits if_splits)

lemma on_append_members:
  assumes "node_inv s" "HandleAppendEntriesRequest grow req s = Inr (rsp, t)" "static s" "noConfig (Entries req)"
  shows "static t"
proof -
  obtain b s1 where u: "updateTerm req s = Inr (b, s1)"
    using assms(2) by (auto simp: HandleAppendEntriesRequest_def chain_Inr_iff)
  have ok: "node_ok s" using assms(1) by (simp add: node_inv_def)
  obtain s1' where s1': "updateTerm req s = Inr (currentTerm s < Term req, s1')" "node_ok s1'"
    "agree (adoptTerm (Term req) s) s1'" by (rule updateTerm_ok [OF ok])
  have "static (adoptTerm (Term req) s)" using assms(3) by (simp add: static_def adoptTerm_def)
  then have st1: "static (stepDown req s1)" "node_ok s1"
    using s1' u by (auto simp: static_def agree_def)
  let ?s2 = "stepDown req s1"
  show ?thesis
  proof (cases "role ?s2 \<noteq> followerState \<or> Term req < currentTerm s1")
    case True
    from append_refuses [OF u this] assms(2) st1 show ?thesis by simp
  next
    case False
    then have fo: "role ?s2 = followerState" "\<not> Term req < currentTerm s1" by simp_all
    have "0 < heartbeatMs ?s2" using st1(2) by (simp add: node_ok_def)
    then obtain s3 where s3: "resetElectionTimeout ?s2 = Inr s3" "agree ?s2 s3"
      by (rule resetElectionTimeout_ok)
    let ?s4 = "s3\<lparr>Passive := False\<rparr>"
    have st4: "static ?s4" using s3(2) st1(1) by (simp add: static_def agree_def)
    show ?thesis
    proof (cases "validPreviousLog req ?s4")
      case False
      from append_resets(1) [OF u fo s3(1) False] assms(2) st4 show ?thesis by simp
    next
      case True
      note eq = HandleAppendEntriesRequest_def [of grow req s, unfolded u chain_simps prod.case Let_def,
        folded stepDown_def]
      obtain v n s5 s7 where l: "appendLoop grow (PrevLogIndex req + 1 + of_nat (length (Entries req)))
          (PrevLogIndex req + 1) (Entries req) v 0 ?s4 = Inr (n, s5)"
        "persist (n \<noteq> 0) (int n) (if commitIndex s5 < LeaderCommit req
        then s5\<lparr>commitIndex := min (LeaderCommit req) (logLast (raftLog s5))\<rparr> else s5) = Inr s7" "t = s7"
        using assms(2) fo s3(1) True unfolding eq by (auto simp: chain_Inr_iff split: sum.splits)
      from appendLoop_static [OF l(1) st4 assms(4)] have "static s5" by simp
      moreover have "raftLog s7 = raftLog s5 \<and> cluster s7 = cluster s5 \<and> baseCluster s7 = baseCluster s5"
        using persist_frame [OF l(2)] by (simp split: if_splits)
      ultimately show ?thesis using l(3) by (simp add: static_def)
    qed
  qed
qed

lemma on_append_moves:
  assumes "node_inv s" "HandleAppendEntriesRequest grow req s = Inr (rsp, t)" "wf_request req"
  shows "role_moves s t" "raftLog t = (if accepts req s then mergedLog req s else raftLog s)"
    "accepts req s \<longrightarrow> role t = followerState"
proof -
  obtain t' where t': "HandleAppendEntriesRequest grow req s
       = Inr (\<lparr>Term = max (currentTerm s) (Term req), Success = accepts req s\<rparr>, t')"
    "currentTerm t' = max (currentTerm s) (Term req)"
    "raftLog t' = (if accepts req s then mergedLog req s else raftLog s)"
    "role t' = (if currentTerm s < Term req \<or> Term req = currentTerm s \<and> role s = candidateState
       then followerState else role s)"
    by (rule HandleAppendEntriesRequest_ok [OF assms(1,3)])
  with assms(2) have t: "t = t'" by simp
  show "raftLog t = (if accepts req s then mergedLog req s else raftLog s)" using t t'(3) by simp
  show a: "accepts req s \<longrightarrow> role t = followerState"
    using t'(4) by (auto simp: t accepts_iff)
  have same: "currentTerm t = currentTerm s" "role s = role t" if "role t \<noteq> followerState"
    using that t'(2,4) by (auto simp: t max_def split: if_splits)
  show "role_moves s t"
    unfolding role_moves_def
  proof (intro conjI impI)
    assume "role s = leaderState \<and> currentTerm t = currentTerm s"
    moreover then have "\<not> currentTerm s < Term req" using t'(2) by (metis max_same t)
    ultimately show "role t = leaderState" using t'(4) by (simp add: t)
  qed (use same in auto)
qed

section \<open>Clients\<close>

lemma leader_writes:
  assumes "role s = leaderState" "role t = leaderState" "currentTerm t = currentTerm s"
    "raftLog t = raftLog s @ ys" "\<forall>y \<in> set ys. entryTerm y = currentTerm s"
    "noConfig ys \<longrightarrow> addresses (cluster t) = addresses (cluster s)"
  shows "moves s t"
  using assms by (auto simp: moves_def role_moves_def log_moves_def members_move_def)

lemma clientEntries_terms: "\<forall>e \<in> set (clientEntries t ch cs). entryTerm e = t"
  by (induction cs arbitrary: ch) auto

lemma client_moves:
  assumes "node_ok s" "Apply grow cs s = Inr (r, t)" "cs \<noteq> []" "fits (length (raftLog s) + length cs)"
  shows "moves s t"
proof (cases "role s = leaderState")
  case False
  with assms(2) show ?thesis by (simp add: Apply_def)
next
  case True
  obtain t' where t': "Apply grow cs s = Inr (Inr ([nextChan s..<nextChan s + length cs], appendEntries t'), t')"
    "role t' = leaderState" "raftLog t' = raftLog s @ clientEntries (currentTerm s) (nextChan s) cs"
    "cluster t' = cluster s" "currentTerm t' = currentTerm s"
    by (rule Apply_leader [OF assms(1) True assms(3) Apply_fit [OF assms(2) True assms(3)] assms(4)])
  with assms(2) have t: "t = t'" by simp
  show ?thesis
    unfolding t by (rule leader_writes [OF True t'(2,5,3) clientEntries_terms]) (simp add: t'(4))
qed

lemma add_moves:
  assumes "node_inv s" "AddServer grow i a s = Inr (q, t)" "fits (Suc (length (raftLog s)))"
  shows "moves s t"
proof (cases "i \<noteq> 0 \<and> role s = leaderState \<and> pendingConfigChangeIndex s = 0 \<and> i \<notin> ids (cluster s) \<and>
    (\<exists>payload. encodeConfigChange (cluster s @ [newMember i a]) = Inr payload)")
  case False
  then have "t = s"
    using assms(2) by (cases "encodeConfigChange (cluster s @ [newMember i a])")
      (auto simp: AddServer_def ids_def split: if_splits)
  then show ?thesis by simp
next
  case True
  then obtain payload where req: "i \<noteq> 0" "role s = leaderState" "pendingConfigChangeIndex s = 0"
    "i \<notin> ids (cluster s)" "encodeConfigChange (cluster s @ [newMember i a]) = Inr payload" by blast
  obtain t' where t': "AddServer grow i a s = Inr (Inr (Some (nextChan s, appendEntries t')), t')"
    "raftLog t' = raftLog s @ [\<lparr>Command = payload, entryTerm = currentTerm s, result = Some (nextChan s)\<rparr>]"
    "currentTerm t' = currentTerm s" "role t' = role s"
    by (rule AddServer_appends [OF assms(1) req assms(3)])
  with assms(2) have t: "t = t'" by simp
  have "isConfigChangeCommand payload" by (rule encoded_isConfigChange [OF req(5)])
  with t' req(2) show ?thesis unfolding t by (intro leader_writes [OF req(2) _ t'(3,2)]) simp_all
qed

section \<open>The steps of a node\<close>

lemma stop_moves: "moves s (Stop s)"
  by (rule moves_same) (simp_all add: Stop_def)

lemmas loop_moves = reset_moves heartbeat_moves advance_moves timeout_moves becomeLeader_moves

lemma loopStep_moves:
  assumes "node_ok s" "fits (Suc (length (raftLog s)))" "loopStep grow p s = Inr (p', gs, t)"
  shows "moves s t"
  using assms by (cases p) (auto simp: chain_Inr_iff Let_def split: prod.splits intro: loop_moves)

lemma run_inv_parts:
  "run_inv n \<Longrightarrow> node_good (server n)" "run_inv n \<Longrightarrow> node_inv (server n)" "run_inv n \<Longrightarrow> node_ok (server n)"
  by (simp_all add: run_inv_def node_good_def node_inv_def)

lemma local_moves:
  assumes "local_step grow n m" "run_inv n"
  shows "moves (server n) (server m)"
  using assms(1)
proof cases
  case (loop p gs s')
  with loopStep_moves [OF run_inv_parts(3) [OF assms(2)]] show ?thesis by simp
next
  case (client cs r s')
  with client_moves [OF run_inv_parts(3) [OF assms(2)]] show ?thesis by simp
next
  case (add i addr q s')
  with add_moves [OF run_inv_parts(2) [OF assms(2)]] show ?thesis by simp
qed (simp_all add: stop_moves)

end
