(* ===== verification/Raft_Spec.thy ===== *)
theory Raft_Spec
  imports Leader
begin

text \<open>
  What Raft promises, without servers and messages: the history of a cluster as the ballots that
  were cast, the candidates that were elected, and for every term the log of its leader. A
  history grows by votes, elections and writes of leaders. Its safety properties: at most one
  leader per term, and Log Matching.
\<close>

section \<open>Histories\<close>

text \<open>An entry without the channel of the client that waits for it.\<close>

type_synonym plainEntry = "u64 \<times> bytes"

definition plainLog :: "Entry list \<Rightarrow> plainEntry list" where
  "plainLog es = map (\<lambda>e. (entryTerm e, Command e)) es"

text \<open>
  Ballots are triples of term, voter (its position among the members) and candidate (its id).
\<close>

record history =
  ballots :: "(u64 \<times> nat \<times> u64) set"
  elected :: "(u64 \<times> u64) set"
  canon :: "u64 \<Rightarrow> plainEntry list"

definition emptyHistory :: history where
  "emptyHistory = \<lparr>ballots = {}, elected = {}, canon = \<lambda>_. [(0, [])]\<rparr>"

definition votersOf :: "nat \<Rightarrow> history \<Rightarrow> u64 \<Rightarrow> u64 \<Rightarrow> nat set" where
  "votersOf n h t c = {v. v < n \<and> (t, v, c) \<in> ballots h}"

text \<open>
  A log is legal if it starts with the dummy entry and, up to each of its entries, is the log of
  the leader of that entry's term.
\<close>

definition legal :: "history \<Rightarrow> plainEntry list \<Rightarrow> bool" where
  "legal h l \<longleftrightarrow> take 1 l = [(0, [])] \<and>
     (\<forall>j < length l. (fst (l ! j) = 0 \<or> fst (l ! j) \<in> fst ` elected h) \<and>
        take (Suc j) l = take (Suc j) (canon h (fst (l ! j))))"

inductive spec_step :: "nat \<Rightarrow> history \<Rightarrow> history \<Rightarrow> bool" for n h where
  vote: "\<forall>c'. (t, v, c') \<in> ballots h \<longrightarrow> c' = c \<Longrightarrow>
    spec_step n h (h\<lparr>ballots := insert (t, v, c) (ballots h)\<rparr>)"
| elect: "n < 2 * card (votersOf n h t c) \<Longrightarrow> t \<noteq> 0 \<Longrightarrow> (t, c) \<notin> elected h \<Longrightarrow> legal h l \<Longrightarrow> fst e = t \<Longrightarrow>
    spec_step n h (h\<lparr>elected := insert (t, c) (elected h), canon := (canon h)(t := l @ [e])\<rparr>)"
| lead: "(t, c) \<in> elected h \<Longrightarrow> \<forall>e \<in> set es. fst e = t \<Longrightarrow>
    spec_step n h (h\<lparr>canon := (canon h)(t := canon h t @ es)\<rparr>)"

inductive spec_run :: "nat \<Rightarrow> history \<Rightarrow> history \<Rightarrow> bool" for n h where
  refl: "spec_run n h h"
| step: "spec_run n h h' \<Longrightarrow> spec_step n h' h'' \<Longrightarrow> spec_run n h h''"

inductive_cases spec_stepE: "spec_step n h h'"

section \<open>The invariant\<close>

definition spec_inv :: "nat \<Rightarrow> history \<Rightarrow> bool" where
  "spec_inv n h \<longleftrightarrow>
     (\<forall>t v c c'. (t, v, c) \<in> ballots h \<longrightarrow> (t, v, c') \<in> ballots h \<longrightarrow> c = c') \<and>
     (\<forall>t c. (t, c) \<in> elected h \<longrightarrow> t \<noteq> 0 \<and> n < 2 * card (votersOf n h t c)) \<and>
     canon h 0 = [(0, [])] \<and> (\<forall>t c. (t, c) \<in> elected h \<longrightarrow> legal h (canon h t))"

lemma finite_votersOf [simp]: "finite (votersOf n h t c)"
  by (rule finite_subset [of _ "{..<n}"]) (auto simp: votersOf_def)

text \<open>Two majorities meet, and the voter in both has one candidate.\<close>

lemma majorities_agree:
  assumes "\<forall>t v c c'. (t, v, c) \<in> ballots h \<longrightarrow> (t, v, c') \<in> ballots h \<longrightarrow> c = c'"
    and "n < 2 * card (votersOf n h t c)" "n < 2 * card (votersOf n h t c')"
  shows "c = c'"
proof -
  have "votersOf n h t c \<inter> votersOf n h t c' \<noteq> {}"
  proof
    assume "votersOf n h t c \<inter> votersOf n h t c' = {}"
    then have "card (votersOf n h t c \<union> votersOf n h t c') = card (votersOf n h t c) + card (votersOf n h t c')"
      by (intro card_Un_disjoint) auto
    moreover have "card (votersOf n h t c \<union> votersOf n h t c') \<le> card {..<n}"
      by (intro card_mono) (auto simp: votersOf_def)
    ultimately show False using assms(2,3) by simp
  qed
  then obtain v where "(t, v, c) \<in> ballots h" "(t, v, c') \<in> ballots h"
    by (auto simp: votersOf_def)
  with assms(1) show ?thesis by blast
qed

lemma one_elected:
  assumes "spec_inv n h" "(t, c) \<in> elected h" "(t, c') \<in> elected h"
  shows "c = c'"
proof (rule majorities_agree)
  show "\<forall>t v c c'. (t, v, c) \<in> ballots h \<longrightarrow> (t, v, c') \<in> ballots h \<longrightarrow> c = c'"
    using assms(1) unfolding spec_inv_def by blast
  show "n < 2 * card (votersOf n h t c)" "n < 2 * card (votersOf n h t c')"
    using assms unfolding spec_inv_def by blast+
qed

lemma new_term:
  assumes "spec_inv n h" "n < 2 * card (votersOf n h t c)" "(t, c) \<notin> elected h"
  shows "t \<notin> fst ` elected h"
proof
  assume "t \<in> fst ` elected h"
  then obtain c' where e: "(t, c') \<in> elected h" by force
  have "c' = c"
  proof (rule majorities_agree)
    show "\<forall>t v c c'. (t, v, c) \<in> ballots h \<longrightarrow> (t, v, c') \<in> ballots h \<longrightarrow> c = c'"
      using assms(1) unfolding spec_inv_def by blast
    show "n < 2 * card (votersOf n h t c')" using assms(1) e unfolding spec_inv_def by blast
  qed (rule assms(2))
  with e assms(3) show False by simp
qed

section \<open>Legal logs\<close>

lemma legal_dummy: "canon h 0 = [(0, [])] \<Longrightarrow> legal h [(0, [])]"
  by (simp add: legal_def)

lemma legal_take:
  assumes "legal h l" "k \<noteq> 0"
  shows "legal h (take k l)"
  using assms by (auto simp: legal_def min_def)

lemma legal_canon_length:
  assumes "legal h l" "j < length l"
  shows "j < length (canon h (fst (l ! j)))"
proof -
  have "take (Suc j) l = take (Suc j) (canon h (fst (l ! j)))" using assms by (simp add: legal_def)
  then have "length (take (Suc j) l) = length (take (Suc j) (canon h (fst (l ! j))))" by simp
  with assms(2) show ?thesis by simp
qed

text \<open>Log Matching: where two legal logs have the same term they are the same up to there.\<close>

lemma legal_match:
  assumes "legal h l" "legal h l'" "j < length l" "j < length l'" "fst (l ! j) = fst (l' ! j)"
  shows "take (Suc j) l = take (Suc j) l'"
  using assms unfolding legal_def by metis

text \<open>
  A legal log stays legal when elections are added and the leaders' logs of the terms it
  mentions are kept or extended.
\<close>

lemma legal_mono:
  assumes "legal h l" "elected h \<subseteq> elected h'"
    and "\<And>t. t = 0 \<or> t \<in> fst ` elected h \<Longrightarrow> \<exists>es. canon h' t = canon h t @ es"
  shows "legal h' l"
  unfolding legal_def
proof (intro conjI allI impI)
  show "take 1 l = [(0, [])]" using assms(1) by (simp add: legal_def)
next
  fix j assume j: "j < length l"
  with assms(1) have t: "fst (l ! j) = 0 \<or> fst (l ! j) \<in> fst ` elected h"
    "take (Suc j) l = take (Suc j) (canon h (fst (l ! j)))" by (auto simp: legal_def)
  from t(1) assms(2) show "fst (l ! j) = 0 \<or> fst (l ! j) \<in> fst ` elected h'" by blast
  obtain es where "canon h' (fst (l ! j)) = canon h (fst (l ! j)) @ es" using assms(3) t(1) by blast
  with t(2) legal_canon_length [OF assms(1) j]
  show "take (Suc j) l = take (Suc j) (canon h' (fst (l ! j)))" by simp
qed

lemma legal_step:
  assumes "spec_inv n h" "spec_step n h h'" "legal h l"
  shows "legal h' l"
  using assms(2)
proof cases
  case (vote t v c)
  then show ?thesis using assms(3) by (auto intro: legal_mono [OF assms(3)])
next
  case (elect t c l' e)
  have fresh: "t \<notin> fst ` elected h" by (rule new_term [OF assms(1) elect(2,4)])
  show ?thesis
  proof (rule legal_mono [OF assms(3)])
    show "elected h \<subseteq> elected h'" using elect by auto
    fix u assume "u = 0 \<or> u \<in> fst ` elected h"
    with fresh elect(3) have "u \<noteq> t" by blast
    with elect(1) show "\<exists>es. canon h' u = canon h u @ es" by simp
  qed
next
  case (lead t c es)
  then show ?thesis by (auto intro!: legal_mono [OF assms(3)])
qed

text \<open>The log that a leader writes in its term is legal if what it started from is.\<close>

lemma legal_extend:
  assumes "legal h l" "\<forall>e \<in> set es. fst e = t" "canon h t = l @ es" "t \<in> fst ` elected h"
  shows "legal h (l @ es)"
  unfolding legal_def
proof (intro conjI allI impI)
  have "l \<noteq> []" using assms(1) by (auto simp: legal_def)
  then show "take 1 (l @ es) = [(0, [])]" using assms(1) by (cases l) (auto simp: legal_def)
next
  fix j assume j: "j < length (l @ es)"
  have "(fst ((l @ es) ! j) = 0 \<or> fst ((l @ es) ! j) \<in> fst ` elected h) \<and>
      take (Suc j) (l @ es) = take (Suc j) (canon h (fst ((l @ es) ! j)))"
  proof (cases "j < length l")
    case True
    with assms(1) show ?thesis by (simp add: legal_def nth_append)
  next
    case False
    with j have "(l @ es) ! j \<in> set es" by (simp add: nth_append)
    with assms(2-4) show ?thesis by simp
  qed
  then show "fst ((l @ es) ! j) = 0 \<or> fst ((l @ es) ! j) \<in> fst ` elected h"
    "take (Suc j) (l @ es) = take (Suc j) (canon h (fst ((l @ es) ! j)))" by blast+
qed

section \<open>Preservation\<close>

lemma spec_inv_empty: "spec_inv n emptyHistory"
  by (simp add: spec_inv_def emptyHistory_def)

lemma votersOf_mono: "ballots h \<subseteq> ballots h' \<Longrightarrow> card (votersOf n h t c) \<le> card (votersOf n h' t c)"
  by (intro card_mono) (auto simp: votersOf_def)

lemma spec_step_grows: "spec_step n h h' \<Longrightarrow> ballots h \<subseteq> ballots h' \<and> elected h \<subseteq> elected h'"
  by (erule spec_stepE) auto

lemma spec_inv_step:
  assumes "spec_step n h h'" "spec_inv n h"
  shows "spec_inv n h'"
  using assms(1)
proof cases
  case (vote t v c)
  have m: "card (votersOf n h t c) \<le> card (votersOf n h' t c)" for t c
    using spec_step_grows [OF assms(1)] by (intro votersOf_mono) simp
  show ?thesis
    unfolding spec_inv_def
  proof (intro conjI allI impI)
    fix u w x y assume "(u, w, x) \<in> ballots h'" "(u, w, y) \<in> ballots h'"
    with vote assms(2) show "x = y" unfolding spec_inv_def by auto
  next
    fix u x assume "(u, x) \<in> elected h'"
    with vote assms(2) have e: "u \<noteq> 0" "n < 2 * card (votersOf n h u x)" "legal h (canon h u)"
      unfolding spec_inv_def by auto
    with m [of u x] show "u \<noteq> 0" "n < 2 * card (votersOf n h' u x)" by auto
    from legal_step [OF assms(2,1) e(3)] vote show "legal h' (canon h' u)" by simp
  next
    show "canon h' 0 = [(0, [])]" using vote assms(2) unfolding spec_inv_def by simp
  qed
next
  case (elect t c l e)
  have fresh: "t \<notin> fst ` elected h" by (rule new_term [OF assms(2) elect(2,4)])
  have b: "votersOf n h' u x = votersOf n h u x" for u x using elect by (simp add: votersOf_def)
  show ?thesis
    unfolding spec_inv_def
  proof (intro conjI allI impI)
    fix u w x y assume "(u, w, x) \<in> ballots h'" "(u, w, y) \<in> ballots h'"
    with elect assms(2) show "x = y" unfolding spec_inv_def by auto
  next
    fix u x assume e: "(u, x) \<in> elected h'"
    with elect assms(2) show "u \<noteq> 0" "n < 2 * card (votersOf n h' u x)"
      unfolding b unfolding spec_inv_def by auto
    show "legal h' (canon h' u)"
    proof (cases "u = t")
      case True
      have "legal h' (l @ [e])"
        using legal_step [OF assms(2,1) elect(5)] elect by (intro legal_extend [of _ _ _ t]) auto
      with True elect show ?thesis by simp
    next
      case False
      with e elect have "(u, x) \<in> elected h" by simp
      with assms(2) have "legal h (canon h u)" unfolding spec_inv_def by blast
      with legal_step [OF assms(2,1)] False elect show ?thesis by simp
    qed
  next
    show "canon h' 0 = [(0, [])]" using elect assms(2) unfolding spec_inv_def by simp
  qed
next
  case (lead t c es)
  have b: "votersOf n h' u x = votersOf n h u x" for u x using lead by (simp add: votersOf_def)
  show ?thesis
    unfolding spec_inv_def
  proof (intro conjI allI impI)
    fix u w x y assume "(u, w, x) \<in> ballots h'" "(u, w, y) \<in> ballots h'"
    with lead assms(2) show "x = y" unfolding spec_inv_def by auto
  next
    fix u x assume e: "(u, x) \<in> elected h'"
    with lead assms(2) show "u \<noteq> 0" "n < 2 * card (votersOf n h' u x)"
      unfolding b unfolding spec_inv_def by auto
    from e lead have "(u, x) \<in> elected h" by simp
    with assms(2) have "legal h (canon h u)" unfolding spec_inv_def by blast
    note old = legal_step [OF assms(2,1) this]
    show "legal h' (canon h' u)"
    proof (cases "u = t")
      case True
      have "t \<in> fst ` elected h'" using lead by force
      have "legal h' (canon h t @ es)"
        by (rule legal_extend [of _ _ _ t]) (use old True lead \<open>t \<in> fst ` elected h'\<close> in simp_all)
      with True lead show ?thesis by simp
    next
      case False
      with old lead show ?thesis by simp
    qed
  next
    have "t \<noteq> 0" using lead assms(2) unfolding spec_inv_def by auto
    then show "canon h' 0 = [(0, [])]" using lead assms(2) unfolding spec_inv_def by simp
  qed
qed

lemma spec_run_inv: "spec_run n h h' \<Longrightarrow> spec_inv n h \<Longrightarrow> spec_inv n h'"
  by (induction rule: spec_run.induct) (auto intro: spec_inv_step)

lemma spec_run_elected: "spec_run n h h' \<Longrightarrow> elected h \<subseteq> elected h'"
  by (induction rule: spec_run.induct) (auto dest: spec_step_grows)

lemma spec_run_ballots: "spec_run n h h' \<Longrightarrow> ballots h \<subseteq> ballots h'"
  by (induction rule: spec_run.induct) (auto dest: spec_step_grows)

lemma spec_run_trans: "spec_run n h' h'' \<Longrightarrow> spec_run n h h' \<Longrightarrow> spec_run n h h''"
  by (induction rule: spec_run.induct) (auto intro: spec_run.step)

lemma spec_run_legal: "spec_run n h h' \<Longrightarrow> spec_inv n h \<Longrightarrow> legal h l \<Longrightarrow> legal h' l"
  by (induction rule: spec_run.induct) (auto intro: legal_step spec_run_inv)

section \<open>Entries and plain entries\<close>

lemma plainLog_simps [simp]:
  "plainLog [] = []" "plainLog (e # es) = (entryTerm e, Command e) # plainLog es"
  "plainLog (es @ fs) = plainLog es @ plainLog fs" "length (plainLog es) = length es"
  "plainLog (take k es) = take k (plainLog es)" "plainLog (map eraseResult es) = plainLog es"
  by (simp_all add: plainLog_def take_map)

lemma plainLog_nth: "j < length es \<Longrightarrow> plainLog es ! j = (entryTerm (es ! j), Command (es ! j))"
  by (simp add: plainLog_def)

lemma plainLog_terms: "(\<forall>p \<in> set (plainLog es). fst p = t) = (\<forall>e \<in> set es. entryTerm e = t)"
  by (simp add: plainLog_def)

lemma erased_plain: "map eraseResult es = map eraseResult fs \<longleftrightarrow> plainLog es = plainLog fs"
proof
  assume "map eraseResult es = map eraseResult fs"
  then show "plainLog es = plainLog fs" by (metis plainLog_simps(6))
next
  assume p: "plainLog es = plainLog fs"
  then have len: "length es = length fs" by (metis plainLog_simps(4))
  show "map eraseResult es = map eraseResult fs"
  proof (rule nth_equalityI)
    fix i assume "i < length (map eraseResult es)"
    with len have i: "i < length es" "i < length fs" by simp_all
    from p have "plainLog es ! i = plainLog fs ! i" by simp
    with i show "map eraseResult es ! i = map eraseResult fs ! i"
      by (simp add: plainLog_nth eraseResult_def)
  qed (simp add: len)
qed

lemma same_upto_plain: "same_upto n es fs \<longleftrightarrow> take n (plainLog es) = take n (plainLog fs)"
  by (simp add: same_upto_def erased_plain flip: plainLog_simps(5))

lemma legal_log_matching:
  assumes "legal h (plainLog es)" "legal h (plainLog fs)"
  shows "log_matching es fs"
  unfolding log_matching_def same_upto_plain
proof (intro conjI allI impI)
  show "take 1 (plainLog es) = take 1 (plainLog fs)" using assms by (simp add: legal_def)
next
  fix k assume "k < length es" "k < length fs" "entryTerm (es ! k) = entryTerm (fs ! k)"
  then show "take (Suc k) (plainLog es) = take (Suc k) (plainLog fs)"
    by (intro legal_match [OF assms]) (simp_all add: plainLog_nth)
qed

text \<open>The follower's log stays legal when it takes a piece of a legal log that fits its own.\<close>

lemma legal_merge:
  assumes "legal h (plainLog es)" "legal h (plainLog fs)" "p < length fs" "Suc p + n \<le> length es"
    and "p = 0 \<or> entryTerm (fs ! p) = entryTerm (es ! p)"
  shows "legal h (plainLog (mergeLog fs (Suc p) (take n (drop (Suc p) es))))"
proof -
  note m = legal_log_matching [OF assms(1,2)]
  have same: "same_upto (Suc p) es fs"
    using m assms(3-5) by (cases "p = 0") (auto simp: log_matching_def)
  from merge_same_upto [OF m _ same assms(4)] assms(3)
  have up: "take (Suc p + n) (plainLog es) = take (Suc p + n) (plainLog (mergeLog fs (Suc p) (take n (drop (Suc p) es))))"
    (is "_ = take _ (plainLog ?m)") by (simp add: same_upto_plain)
  have "?m = fs \<or> length ?m = Suc p + n"
    using mergeLog_kept_or_cut [of "Suc p" fs "take n (drop (Suc p) es)"] assms(3,4) by auto
  then show ?thesis
  proof
    assume "length ?m = Suc p + n"
    with up have "plainLog ?m = take (Suc p + n) (plainLog es)" by simp
    with legal_take [OF assms(1), of "Suc p + n"] show ?thesis by simp
  qed (simp add: assms(2))
qed

end
