(* ===== verification/Cluster.thy ===== *)
theory Cluster
  imports Node_Moves Raft_Spec
begin

text \<open>
  A cluster: the nodes of one founding configuration, and the calls and answers that are under
  way between them. A request is built by a goroutine of the caller, is served by the node at
  its address, and the answer is taken by the goroutine that waits for it, each in a locked
  section of its own, in any order with everything else the nodes do. Requests are no longer
  arbitrary: what arrives was sent.
\<close>

section \<open>The machine\<close>

text \<open>
  A call is known by its caller, the index of the member it is for, the address, and the request.
  Calls are kept: a network may deliver one late or not at all; that it delivers it twice is
  allowed here, although Go's transports do not.
\<close>

record ('sm, 'st) Cluster =
  nodes :: "nat \<Rightarrow> ('sm, 'st) Node"
  voteCalls :: "(nat \<times> nat \<times> bytes \<times> RequestVoteRequest) set"
  voteAnswers :: "(nat \<times> nat \<times> RequestVoteRequest \<times> RequestVoteResponse) set"
  appendCalls :: "(nat \<times> nat \<times> bytes \<times> AppendEntriesRequest) set"
  appendAnswers :: "(nat \<times> nat \<times> AppendEntriesRequest \<times> AppendEntriesResponse) set"

abbreviation srv :: "('sm, 'st) Cluster \<Rightarrow> nat \<Rightarrow> ('sm, 'st) Server" where
  "srv c a \<equiv> server (nodes c a)"

text \<open>
  The program of the cluster. The nodes are numbered as in the configuration \<open>cfg\<close>; \<open>grow\<close> is
  the runtime's choice of capacities.
\<close>

inductive cluster_step ::
  "ClusterMember list \<Rightarrow> (nat \<Rightarrow> nat \<Rightarrow> nat) \<Rightarrow> ('sm, 'st) Cluster \<Rightarrow> ('sm, 'st) Cluster \<Rightarrow> bool"
  for cfg grow c where
  own: "a < length cfg \<Longrightarrow> local_step grow (nodes c a) m \<Longrightarrow>
    cluster_step cfg grow c (c\<lparr>nodes := (nodes c)(a := m)\<rparr>)"
| vote_call: "a < length cfg \<Longrightarrow> routines (nodes c a) = xs @ VoteTo i # ys \<Longrightarrow>
    buildRequestVote i (srv c a) = Inr (addr, req) \<Longrightarrow>
    cluster_step cfg grow c (c\<lparr>nodes := (nodes c)(a := (nodes c a)\<lparr>routines := xs @ VoteSent i req # ys\<rparr>),
      voteCalls := insert (a, i, addr, req) (voteCalls c)\<rparr>)"
| vote_serve: "(a, i, addr, req) \<in> voteCalls c \<Longrightarrow> b < length cfg \<Longrightarrow> Address (cfg ! b) = addr \<Longrightarrow>
    HandleRequestVoteRequest req (srv c b) = Inr (rsp, s') \<Longrightarrow>
    cluster_step cfg grow c (c\<lparr>nodes := (nodes c)(b := (nodes c b)\<lparr>server := s'\<rparr>),
      voteAnswers := insert (a, i, req, rsp) (voteAnswers c)\<rparr>)"
| vote_return: "a < length cfg \<Longrightarrow> routines (nodes c a) = xs @ VoteSent i req # ys \<Longrightarrow>
    (a, i, req, rsp) \<in> voteAnswers c \<Longrightarrow> handleVoteResponse i req rsp (srv c a) = Inr s' \<Longrightarrow>
    cluster_step cfg grow c (c\<lparr>nodes := (nodes c)(a := (nodes c a)\<lparr>routines := xs @ ys, server := s'\<rparr>)\<rparr>)"
| append_call: "a < length cfg \<Longrightarrow> routines (nodes c a) = xs @ AppendTo i # ys \<Longrightarrow>
    buildAppendEntries i (srv c a) = Inr (addr, areq) \<Longrightarrow>
    cluster_step cfg grow c (c\<lparr>nodes := (nodes c)(a := (nodes c a)\<lparr>routines := xs @ AppendSent i areq # ys\<rparr>),
      appendCalls := insert (a, i, addr, areq) (appendCalls c)\<rparr>)"
| append_serve: "(a, i, addr, areq) \<in> appendCalls c \<Longrightarrow> b < length cfg \<Longrightarrow> Address (cfg ! b) = addr \<Longrightarrow>
    HandleAppendEntriesRequest grow areq (srv c b) = Inr (arsp, s') \<Longrightarrow>
    cluster_step cfg grow c (c\<lparr>nodes := (nodes c)(b := (nodes c b)\<lparr>server := s'\<rparr>),
      appendAnswers := insert (a, i, areq, arsp) (appendAnswers c)\<rparr>)"
| append_return: "a < length cfg \<Longrightarrow> routines (nodes c a) = xs @ AppendSent i areq # ys \<Longrightarrow>
    (a, i, areq, arsp) \<in> appendAnswers c \<Longrightarrow> handleAppendResponse i areq arsp (srv c a) = Inr s' \<Longrightarrow>
    cluster_step cfg grow c (c\<lparr>nodes := (nodes c)(a := (nodes c a)\<lparr>routines := xs @ ys, server := s'\<rparr>)\<rparr>)"

inductive_cases cluster_stepE: "cluster_step cfg grow c c'"

inductive cluster_run ::
  "ClusterMember list \<Rightarrow> (nat \<Rightarrow> nat \<Rightarrow> nat) \<Rightarrow> ('sm, 'st) Cluster \<Rightarrow> ('sm, 'st) Cluster \<Rightarrow> bool"
  for cfg grow c where
  start: "cluster_run cfg grow c c"
| step: "cluster_run cfg grow c c' \<Longrightarrow> cluster_step cfg grow c' c'' \<Longrightarrow> cluster_run cfg grow c c''"

text \<open>
  A fresh cluster: every node made by \<^verbatim>\<open>NewServer\<close> from the configuration and started by \<^verbatim>\<open>Start\<close>
  on an empty disk, with a state machine, a generator and a clock of its own; no call is made.
\<close>

definition fresh_cluster ::
  "ClusterMember list \<Rightarrow> (nat \<Rightarrow> nat \<Rightarrow> nat) \<Rightarrow> (nat \<Rightarrow> 'sm StateMachine) \<Rightarrow> (nat \<Rightarrow> nat \<Rightarrow> nat) \<Rightarrow>
     (nat \<Rightarrow> nat \<Rightarrow> int) \<Rightarrow> ('sm, MemStorage) Cluster \<Rightarrow> bool" where
  "fresh_cluster cfg grow machine rnd clk c \<longleftrightarrow>
     voteCalls c = {} \<and> voteAnswers c = {} \<and> appendCalls c = {} \<and> appendAnswers c = {} \<and>
     (\<forall>a < length cfg. \<exists>s. NewServer cfg (machine a) (int a) (rnd a) (clk a) = Inr s \<and>
        Start grow (Inr (memDevice NewMemStorage)) s = Inr (nodes c a))"

section \<open>Requests\<close>

text \<open>A request of a leader is a piece of its log.\<close>

definition piece_of :: "AppendEntriesRequest \<Rightarrow> Entry list \<Rightarrow> bool" where
  "piece_of req es \<longleftrightarrow> unat (PrevLogIndex req) < length es \<and>
     PrevLogTerm req = entryTerm (es ! unat (PrevLogIndex req)) \<and>
     Suc (unat (PrevLogIndex req)) + length (Entries req) \<le> length es \<and>
     Entries req = take (length (Entries req)) (drop (Suc (unat (PrevLogIndex req))) es)"

lemma built_piece:
  assumes "node_ok s" "buildAppendEntries i s = Inr (addr, req)"
  shows "piece_of req (raftLog s)"
proof -
  let ?es = "raftLog s" and ?next = "nextIndex (cluster s ! i)"
  let ?p = "?next - 1"
  have f: "?es \<noteq> []" "fits (length ?es)" using assms(1) by (auto simp: node_ok_def)
  have p: "unat ?p < length ?es"
    using assms(2) by (auto simp: buildAppendEntries_def Let_def split: if_splits)
  have n: "unat ?next = Suc (unat ?p)"
  proof -
    have "unat (?p + 1) = Suc (unat ?p)" using p f(2) by (intro unat_add_one) (simp add: fits_def)
    then show ?thesis by simp
  qed
  have "(if ?next \<le> logLast ?es then drop (unat ?next) ?es else []) = drop (Suc (unat ?p)) ?es"
    using f n by (auto simp: word_le_nat_alt)
  then have q: "PrevLogIndex req = ?p" "PrevLogTerm req = entryTerm (?es ! unat ?p)"
    "Entries req = take MAX_APPEND_ENTRIES_BATCH (drop (Suc (unat ?p)) ?es)"
    using assms(2) by (auto simp: buildAppendEntries_def Let_def split: if_splits)
  have "take m d = take (length (take m d)) d" for m and d :: "Entry list"
    by (cases "m \<le> length d") simp_all
  then have "Entries req = take (length (Entries req)) (drop (Suc (unat ?p)) ?es)"
    unfolding q(3) .
  moreover have "length (Entries req) \<le> length ?es - Suc (unat ?p)" unfolding q(3) by simp
  ultimately show ?thesis using p unfolding piece_of_def q(1,2)
    by (intro conjI; (assumption | rule HOL.refl | arith))
qed

lemma piece_set: "piece_of req es \<Longrightarrow> set (Entries req) \<subseteq> set es"
  unfolding piece_of_def by (metis order_trans set_drop_subset set_take_subset)

lemma built_wf:
  assumes "node_inv s" "buildAppendEntries i s = Inr (addr, req)"
  shows "wf_request req"
proof -
  have ok: "node_ok s" "loop_ok s" using assms(1) by (auto simp: node_inv_def)
  note p = built_piece [OF ok(1) assms(2)]
  have "\<forall>e \<in> set (raftLog s). entry_ok e"
    using ok(1) by (auto simp: node_ok_def log_durable_def logImage_def stored_def in_set_conv_nth)
  moreover have "\<forall>e \<in> set (raftLog s). wf_command (Command e)" using ok(2) by (simp add: loop_ok_def)
  moreover have "fits (Suc (unat (PrevLogIndex req)) + length (Entries req))"
    using p ok(1) by (auto simp: piece_of_def node_ok_def fits_def)
  ultimately show ?thesis using piece_set [OF p] unfolding wf_request_def by blast
qed

section \<open>Every node stays well\<close>

definition cluster_inv :: "ClusterMember list \<Rightarrow> ('sm, MemStorage) Cluster \<Rightarrow> bool" where
  "cluster_inv cfg c \<longleftrightarrow> (\<forall>a < length cfg. run_inv (nodes c a)) \<and>
     (\<forall>(a, i, addr, req) \<in> appendCalls c. wf_request req) \<and>
     (\<forall>(a, i, req, rsp) \<in> appendAnswers c. wf_request req)"

text \<open>A step of the cluster is a step of one of its nodes.\<close>

lemma cluster_node_step:
  assumes "cluster_inv cfg c" "cluster_step cfg grow c c'"
  obtains b where "b < length cfg" "node_step grow (nodes c b) (nodes c' b)"
    "\<And>a. a \<noteq> b \<Longrightarrow> nodes c' a = nodes c a"
  using assms(2)
proof cases
  case (own a m)
  have "node_step grow (nodes c a) m" by (rule node_step.own [OF own(3)])
  with own show thesis using that [of a] by simp
next
  case (vote_call a xs i ys addr req)
  then show thesis using that [of a] node_step.vote_send [OF vote_call(3,4)] by simp
next
  case (vote_serve a i addr req b rsp s')
  then show thesis using that [of b] node_step.on_vote [OF vote_serve(5)] by simp
next
  case (vote_return a xs i req ys rsp s')
  then show thesis using that [of a] node_step.vote_response [OF vote_return(3,5)] by simp
next
  case (append_call a xs i ys addr req)
  then show thesis using that [of a] node_step.append_send [OF append_call(3,4)] by simp
next
  case (append_serve a i addr req b rsp s')
  have "wf_request req" using assms(1) append_serve(2) unfolding cluster_inv_def by blast
  then show thesis
    using append_serve that [of b] node_step.on_append [OF append_serve(5)] by (simp add: wf_request_def)
next
  case (append_return a xs i req ys rsp s')
  then show thesis using that [of a] node_step.append_response [OF append_return(3,5)] by simp
qed

lemma cluster_inv_step:
  assumes "cluster_step cfg grow c c'" "cluster_inv cfg c"
  shows "cluster_inv cfg c'"
proof -
  obtain b where b: "b < length cfg" "node_step grow (nodes c b) (nodes c' b)"
    "\<And>a. a \<noteq> b \<Longrightarrow> nodes c' a = nodes c a"
    using assms by (metis cluster_node_step)
  have "run_inv (nodes c' a)" if "a < length cfg" for a
    using that b(3) assms(2) node_step_ok [OF b(2)] b(1)
    by (cases "a = b") (auto simp: cluster_inv_def)
  moreover have "\<forall>(a, i, addr, req) \<in> appendCalls c'. wf_request req"
    using assms(1)
  proof cases
    case (append_call a xs i ys addr req)
    have "node_inv (srv c a)"
      using assms(2) append_call(2) run_inv_parts(2) unfolding cluster_inv_def by blast
    from built_wf [OF this append_call(4)] append_call(1) assms(2) show ?thesis
      by (simp add: cluster_inv_def)
  qed (use assms(2) in \<open>simp_all add: cluster_inv_def\<close>)
  moreover have "\<forall>(a, i, req, rsp) \<in> appendAnswers c'. wf_request req"
    using assms(1)
  proof cases
    case (append_serve a i addr req b rsp s')
    have "wf_request req" using assms(2) append_serve(2) unfolding cluster_inv_def by blast
    with append_serve(1) assms(2) show ?thesis by (simp add: cluster_inv_def)
  qed (use assms(2) in \<open>simp_all add: cluster_inv_def\<close>)
  ultimately show ?thesis by (simp add: cluster_inv_def)
qed

lemma cluster_run_inv: "cluster_run cfg grow c c' \<Longrightarrow> cluster_inv cfg c \<Longrightarrow> cluster_inv cfg c'"
  by (induction rule: cluster_run.induct) (auto intro: cluster_inv_step)

lemma cluster_run_trans:
  "cluster_run cfg grow c' c'' \<Longrightarrow> cluster_run cfg grow c c' \<Longrightarrow> cluster_run cfg grow c c''"
  by (induction rule: cluster_run.induct) (auto intro: cluster_run.step)

lemma new_not_passive: "NewServer cfg machine k rnd clk = Inr s \<Longrightarrow> s\<lparr>Passive := False\<rparr> = s"
  by (auto simp: NewServer_def chain_Inr_iff Let_def split: if_splits)

text \<open>Fresh clusters exist, and what a fresh node is.\<close>

lemma fresh_exists:
  assumes "\<forall>m \<in> set cfg. memberId m \<noteq> 0"
  obtains c where "fresh_cluster cfg grow machine rnd clk c"
proof -
  have "\<exists>n. \<exists>s. NewServer cfg (machine a) (int a) (rnd a) (clk a) = Inr s \<and>
      Start grow (Inr (memDevice NewMemStorage)) s = Inr n" if a: "a < length cfg" for a
  proof -
    obtain s n where "NewServer cfg (machine a) (int a) (rnd a) (clk a) = Inr s"
      "Start grow (Inr (memDevice NewMemStorage)) (s\<lparr>Passive := False\<rparr>) = Inr n"
      by (rule fresh_start [OF assms a])
    with new_not_passive show ?thesis by metis
  qed
  then obtain N where "\<forall>a < length cfg. \<exists>s. NewServer cfg (machine a) (int a) (rnd a) (clk a) = Inr s \<and>
      Start grow (Inr (memDevice NewMemStorage)) s = Inr (N a)" by metis
  then show thesis
    by (intro that [of "\<lparr>nodes = N, voteCalls = {}, voteAnswers = {}, appendCalls = {}, appendAnswers = {}\<rparr>"])
      (simp add: fresh_cluster_def)
qed

lemma fresh_member:
  assumes "\<forall>m \<in> set cfg. memberId m \<noteq> 0" "fresh_cluster cfg grow machine rnd clk c" "a < length cfg"
  shows "run_inv (nodes c a) \<and> routines (nodes c a) = [] \<and> point (nodes c a) = AtReset \<and>
    raftLog (srv c a) = [dummyEntry] \<and> currentTerm (srv c a) = 0 \<and> selfId (srv c a) = memberId (cfg ! a) \<and>
    cluster (srv c a) = cfg \<and> role (srv c a) = followerState \<and> baseCluster (srv c a) = cfg \<and>
    Passive (srv c a) = False \<and> clock (srv c a) = clk a \<and> heartbeatMs (srv c a) = 300 \<and>
    commitIndex (srv c a) = 0 \<and> lastApplied (srv c a) = 0 \<and> stopped (srv c a) = False \<and>
    electionTimeout (srv c a) = 0"
proof -
  obtain s where s: "NewServer cfg (machine a) (int a) (rnd a) (clk a) = Inr s"
    "Start grow (Inr (memDevice NewMemStorage)) s = Inr (nodes c a)"
    using assms(2,3) unfolding fresh_cluster_def by blast
  obtain s1 n where f: "NewServer cfg (machine a) (int a) (rnd a) (clk a) = Inr s1"
    "Start grow (Inr (memDevice NewMemStorage)) (s1\<lparr>Passive := False\<rparr>) = Inr n" "run_inv n" "routines n = []"
    "point n = AtReset" "raftLog (server n) = [dummyEntry]" "currentTerm (server n) = 0"
    "selfId (server n) = memberId (cfg ! a)" "cluster (server n) = cfg" "Passive (server n) = False"
    "role (server n) = followerState" "baseCluster (server n) = cfg" "clock (server n) = clk a"
    "heartbeatMs (server n) = 300" "commitIndex (server n) = 0" "lastApplied (server n) = 0" "stopped (server n) = False"
    "electionTimeout (server n) = 0"
    by (rule fresh_start [OF assms(1,3)])
  have "s1 = s" using s(1) f(1) by simp
  moreover have "s\<lparr>Passive := False\<rparr> = s" by (rule new_not_passive [OF s(1)])
  ultimately have "n = nodes c a" using s(2) f(2) by simp
  with f show ?thesis by simp
qed

lemma fresh_cluster_inv:
  "\<forall>m \<in> set cfg. memberId m \<noteq> 0 \<Longrightarrow> fresh_cluster cfg grow machine rnd clk c \<Longrightarrow> cluster_inv cfg c"
  by (simp add: cluster_inv_def fresh_member) (simp add: fresh_cluster_def)

end
