(* ===== verification/Vote_Moves.thy ===== *)
theory Vote_Moves
  imports Node_Moves
begin

text \<open>
  How a locked section moves the votes that a node has recorded of others. A candidate or leader
  records a new one only when it takes an answer, and then because the answer grants it: that
  every counted vote was given is a consequence of the program, not of the choice of runs.
\<close>

section \<open>Moves of the votes\<close>

definition counted :: "('sm, 'st) Server \<Rightarrow> nat \<Rightarrow> bool" where
  "counted s i \<longleftrightarrow> votedFor (cluster s ! i) = selfId s"

text \<open>No vote of another member is recorded that was not recorded before.\<close>

definition votes_kept :: "('sm, 'st) Server \<Rightarrow> ('sm, 'st) Server \<Rightarrow> bool" where
  "votes_kept s t \<longleftrightarrow> (role t \<in> {candidateState, leaderState} \<longrightarrow>
     (\<forall>i < length (cluster t). i \<noteq> clusterIndex t \<longrightarrow> votedFor (cluster t ! i) \<noteq> 0 \<longrightarrow>
        i < length (cluster s) \<and> votedFor (cluster t ! i) = votedFor (cluster s ! i)))"

lemma votes_keptD:
  assumes "votes_kept s t" "role t \<in> {candidateState, leaderState}" "i < length (cluster t)" "i \<noteq> clusterIndex t"
    "counted t i" "selfId t \<noteq> 0" "selfId t = selfId s"
  shows "counted s i"
  using assms unfolding votes_kept_def counted_def by metis

lemma votes_kept_same: "cluster t = cluster s \<Longrightarrow> votes_kept s t"
  by (simp add: votes_kept_def)

lemma votes_kept_refl [simp]: "votes_kept s s"
  by (rule votes_kept_same) simp

lemma votes_kept_follower: "role t = followerState \<Longrightarrow> votes_kept s t"
  by (simp add: votes_kept_def)

lemma votes_kept_map:
  "map votedFor (cluster t) = map votedFor (cluster s) \<Longrightarrow> votes_kept s t"
  unfolding votes_kept_def by (metis length_map nth_map)

section \<open>The operations of the main loop\<close>

lemma reset_votes:
  assumes "node_ok s" "resetElectionTimeout s = Inr t"
  shows "votes_kept s t"
proof -
  have "0 < heartbeatMs s" using assms(1) by (simp add: node_ok_def)
  then obtain t' where "resetElectionTimeout s = Inr t'" "agree s t'"
    by (rule resetElectionTimeout_ok)
  with assms(2) show ?thesis by (intro votes_kept_same) (simp add: agree_def)
qed

lemma heartbeat_votes: "heartbeat s = (is, t) \<Longrightarrow> votes_kept s t"
  by (rule votes_kept_same) (auto simp: heartbeat_def Now_def Let_def split: if_splits)

lemma applyEntry_cluster: "applyEntry e s = Inr t \<Longrightarrow> cluster t = cluster s"
  by (auto simp: applyEntry_def deliver_def chain_Inr_iff split: if_splits option.splits sum.splits prod.splits)

lemma advance_votes:
  assumes "advanceCommitIndex s = Inr t"
  shows "votes_kept s t"
proof -
  obtain c where c: "advanceLeaderCommit s = s\<lparr>commitIndex := c\<rparr>" using advanceLeaderCommit_frame by blast
  show ?thesis
    using assms unfolding advanceCommitIndex_def Let_def c
    by (intro votes_kept_same) (auto simp: chain_Inr_iff dest!: applyEntry_cluster split: if_splits)
qed

lemma timeout_votes:
  assumes "node_ok s" "timeout s = Inr (is, t)"
  shows "votes_kept s t"
proof (cases "\<not> Passive s \<and> electionTimeout s < clock s 0")
  case True
  then obtain t' where t': "timeout s = Inr (requestVote s, t')" "cluster t' = resetVotes s"
    "clusterIndex t' = clusterIndex s"
    using timeout_starts_election [OF assms(1)] by metis
  with assms(2) show ?thesis by (simp add: votes_kept_def resetVotes_nth)
next
  case False
  show ?thesis
  proof (cases "Passive s")
    case True
    with assms(2) timeout_waits(1) [of s] show ?thesis by simp
  next
    case P: False
    with False have "clock s 0 \<le> electionTimeout s" by simp
    from assms(2) timeout_waits(2) [OF P this] show ?thesis by (intro votes_kept_same) auto
  qed
qed

lemma becomeLeader_votes:
  assumes "node_ok s" "fits (Suc (length (raftLog s)))" "becomeLeader grow s = Inr t"
  shows "votes_kept s t"
proof (cases "majority (length (cluster s)) \<le> length (voters s)")
  case True
  obtain t' where t': "becomeLeader grow s = Inr t'"
    "cluster t' = map (\<lambda>m. m\<lparr>nextIndex := of_nat (length (raftLog s) + 1), matchIndex := 0\<rparr>) (cluster s)"
    by (rule becomeLeader_wins [OF assms(1,2) True])
  with assms(3) have "t = t'" by simp
  with t'(2) show ?thesis by (intro votes_kept_map) (simp add: comp_def)
next
  case False
  with assms(3) becomeLeader_waits [of s grow] show ?thesis by simp
qed

section \<open>Responses, handlers, clients\<close>

lemma updateTerm_votes:
  assumes "node_ok s" "updateTerm msg s = Inr (b, t)"
  shows "if b then role t = followerState \<and> currentTerm s < Term msg else t = s"
proof -
  obtain t' where t': "updateTerm msg s = Inr (currentTerm s < Term msg, t')"
    "agree (adoptTerm (Term msg) s) t'" "\<not> currentTerm s < Term msg \<longrightarrow> t' = s"
    by (rule updateTerm_ok [OF assms(1)])
  with assms(2) show ?thesis by (auto simp: agree_def adoptTerm_def)
qed

text \<open>The answer of a member: its vote is recorded only if the answer, to this request, grants it.\<close>

lemma vote_response_votes:
  assumes "node_ok s" "handleVoteResponse i req rsp s = Inr t"
  shows "votes_kept s t \<or> VoteGranted rsp \<and> Term rsp = Term req \<and>
    t = s\<lparr>cluster := (cluster s)[i := (cluster s ! i)\<lparr>votedFor := selfId s\<rparr>]\<rparr>"
proof -
  obtain b s1 where u: "updateTerm rsp s = Inr (b, s1)"
    using assms(2) by (auto simp: handleVoteResponse_def chain_Inr_iff)
  note r = updateTerm_votes [OF assms(1) u]
  show ?thesis
  proof (cases b)
    case True
    with assms(2) u r show ?thesis by (intro disjI1 votes_kept_follower) (auto simp: handleVoteResponse_def)
  next
    case False
    with r have "s1 = s" by simp
    with assms(2) u False show ?thesis by (auto simp: handleVoteResponse_def split: if_splits)
  qed
qed

lemma append_response_votes:
  assumes "node_ok s" "handleAppendResponse i req rsp s = Inr t"
  shows "votes_kept s t"
proof -
  obtain b s1 where u: "updateTerm rsp s = Inr (b, s1)"
    using assms(2) by (auto simp: handleAppendResponse_def chain_Inr_iff)
  note r = updateTerm_votes [OF assms(1) u]
  show ?thesis
  proof (cases b)
    case True
    with assms(2) u r show ?thesis by (intro votes_kept_follower) (auto simp: handleAppendResponse_def)
  next
    case False
    with r have s1: "s1 = s" by simp
    have m: "map votedFor ((cluster s)[i := m]) = map votedFor (cluster s)"
      if "votedFor m = votedFor (cluster s ! i)" for m
      using that by (simp add: map_update) (metis list_update_id map_update)
    show ?thesis
      using assms(2) u False s1
      by (auto simp: handleAppendResponse_def Let_def m split: if_splits intro!: votes_kept_map)
  qed
qed

lemma on_vote_votes:
  assumes "node_ok s" "HandleRequestVoteRequest req s = Inr (rsp, t)"
  shows "votes_kept s t"
proof -
  obtain t' where t': "HandleRequestVoteRequest req s
       = Inr (\<lparr>Term = max (currentTerm s) (Term req), VoteGranted = grantable req s\<rparr>, t')"
    "agree (if grantable req s then castVote (CandidateId req) (adoptTerm (Term req) s)
            else adoptTerm (Term req) s) t'"
    by (rule HandleRequestVoteRequest_ok [OF assms(1)])
  with assms(2) have t: "t = t'" by simp
  show ?thesis
  proof (cases "currentTerm s < Term req")
    case True
    with t'(2) t show ?thesis
      by (intro votes_kept_follower) (simp add: agree_def adoptTerm_def castVote_def split: if_splits)
  next
    case False
    then have "adoptTerm (Term req) s = s" by (simp add: adoptTerm_def)
    with t'(2) t have "cluster t = cluster s \<or> clusterIndex t = clusterIndex s \<and>
        cluster t = (cluster s)[clusterIndex s := (cluster s ! clusterIndex s)\<lparr>votedFor := CandidateId req\<rparr>]"
      by (auto simp: agree_def castVote_def split: if_splits)
    then show ?thesis by (auto simp: votes_kept_def)
  qed
qed

lemma on_append_votes:
  assumes "node_inv s" "HandleAppendEntriesRequest grow req s = Inr (rsp, t)" "wf_request req"
  shows "votes_kept s t"
proof (cases "role t = followerState")
  case False
  obtain t' where t': "HandleAppendEntriesRequest grow req s
       = Inr (\<lparr>Term = max (currentTerm s) (Term req), Success = accepts req s\<rparr>, t')"
    "role t' = (if currentTerm s < Term req \<or> Term req = currentTerm s \<and> role s = candidateState
       then followerState else role s)"
    by (rule HandleAppendEntriesRequest_ok [OF assms(1,3)])
  with assms(2) False have r: "\<not> currentTerm s < Term req" "\<not> (Term req = currentTerm s \<and> role s = candidateState)"
    "role s \<noteq> followerState" by (auto split: if_splits)
  then have "updateTerm req s = Inr (False, s)" "stepDown req s = s" by (simp_all add: updateTerm_def stepDown_def)
  from append_refuses [OF this(1)] this(2) r(3) assms(2) show ?thesis by simp
qed (rule votes_kept_follower)

lemma client_votes:
  assumes "node_ok s" "Apply grow cs s = Inr (r, t)" "cs \<noteq> []" "fits (length (raftLog s) + length cs)"
  shows "votes_kept s t"
proof (cases "role s = leaderState")
  case False
  with assms(2) show ?thesis by (simp add: Apply_def)
next
  case True
  obtain t' where t': "Apply grow cs s = Inr (Inr ([nextChan s..<nextChan s + length cs], appendEntries t'), t')"
    "cluster t' = cluster s"
    by (rule Apply_leader [OF assms(1) True assms(3) Apply_fit [OF assms(2) True assms(3)] assms(4)])
  with assms(2) show ?thesis by (intro votes_kept_same) simp
qed

lemma add_votes:
  assumes "node_inv s" "AddServer grow i a s = Inr (q, t)" "fits (Suc (length (raftLog s)))"
  shows "votes_kept s t"
proof (cases "i \<noteq> 0 \<and> role s = leaderState \<and> pendingConfigChangeIndex s = 0 \<and> i \<notin> ids (cluster s) \<and>
    (\<exists>payload. encodeConfigChange (cluster s @ [newMember i a]) = Inr payload)")
  case False
  then have "t = s"
    using assms(2) by (cases "encodeConfigChange (cluster s @ [newMember i a])")
      (auto simp: AddServer_def ids_def split: if_splits)
  then show ?thesis by simp
next
  case True
  then obtain payload where req: "i \<noteq> 0" "role s = leaderState" "pendingConfigChangeIndex s = 0"
    "i \<notin> ids (cluster s)" "encodeConfigChange (cluster s @ [newMember i a]) = Inr payload" by blast
  obtain t' where t': "AddServer grow i a s = Inr (Inr (Some (nextChan s, appendEntries t')), t')"
    "cluster t' = cluster s @ [\<lparr>memberId = i, Address = a, nextIndex = of_nat (length (raftLog s)) + 1,
       matchIndex = 0, votedFor = 0\<rparr>]"
    by (rule AddServer_appends [OF assms(1) req assms(3)])
  with assms(2) show ?thesis by (auto simp: votes_kept_def nth_append less_Suc_eq)
qed

section \<open>The steps of a node\<close>

lemmas loop_votes = reset_votes heartbeat_votes advance_votes timeout_votes becomeLeader_votes

lemma loopStep_votes:
  assumes "node_ok s" "fits (Suc (length (raftLog s)))" "loopStep grow p s = Inr (p', gs, t)"
  shows "votes_kept s t"
  using assms by (cases p) (auto simp: chain_Inr_iff Let_def split: prod.splits intro: loop_votes)

lemma local_votes:
  assumes "local_step grow n m" "run_inv n"
  shows "votes_kept (server n) (server m)"
  using assms(1)
proof cases
  case (loop p gs s')
  with loopStep_votes [OF run_inv_parts(3) [OF assms(2)]] show ?thesis by simp
next
  case (client cs r s')
  with client_votes [OF run_inv_parts(3) [OF assms(2)]] show ?thesis by simp
next
  case (add i addr q s')
  with add_votes [OF run_inv_parts(2) [OF assms(2)]] show ?thesis by simp
qed (simp_all add: votes_kept_same Stop_def)

end
