(* ===== verification/Cluster_Safety.thy ===== *)
theory Cluster_Safety
  imports Cluster Vote_Moves "HOL-Library.Multiset"
begin

text \<open>
  The cluster implements the specification of Raft_Spec, as long as it is spared the behaviours
  that the properties of kind error exhibit: a history is carried along every such run, by a
  simulation, and gives one leader per term and Log Matching for the nodes.
\<close>

section \<open>Regular steps\<close>

text \<open>A goroutine of the node ends in a step.\<close>

definition ended :: "('sm, 'st) Node \<Rightarrow> ('sm, 'st) Node \<Rightarrow> goroutine \<Rightarrow> bool" where
  "ended n n' g \<longleftrightarrow> g \<in># mset (routines n) - mset (routines n')"

text \<open>
  In a regular step: only a candidate becomes leader (\<^verbatim>\<open>becomeLeader\<close> does not look at the role,
  see \<open>two_leaders\<close>); the term does not wrap; the log of a node that has voted is not truncated
  in the term of its vote (which is forgotten then, see \<open>truncation_drops_vote\<close>); an answer that
  is counted as a vote answers a request of the present term (see \<open>stale_vote_elects\<close>); and the
  membership is static: no log holds a config change. Nothing is said of whether votes are kept,
  or were given: that follows from the program.
\<close>

definition regular_node :: "('sm, 'st) Node \<Rightarrow> ('sm, 'st) Node \<Rightarrow> bool" where
  "regular_node n n' \<longleftrightarrow> (let s = server n; t = server n' in
     (role t = leaderState \<longrightarrow> role s = leaderState \<or> role s = candidateState) \<and>
     (currentTerm s = - 1 \<longrightarrow> currentTerm t = - 1) \<and>
     (currentTerm t = currentTerm s \<and> ownVote s \<noteq> 0 \<longrightarrow> (\<exists>ys. raftLog t = raftLog s @ ys)) \<and>
     (\<forall>i req. ended n n' (VoteSent i req) \<and> \<not> counted s i \<and> counted t i \<longrightarrow> Term req = currentTerm t) \<and>
     noConfig (raftLog t))"

definition regular :: "ClusterMember list \<Rightarrow> ('sm, 'st) Cluster \<Rightarrow> ('sm, 'st) Cluster \<Rightarrow> bool" where
  "regular cfg c c' \<longleftrightarrow> (\<forall>a < length cfg. regular_node (nodes c a) (nodes c' a))"

inductive regular_run ::
  "ClusterMember list \<Rightarrow> (nat \<Rightarrow> nat \<Rightarrow> nat) \<Rightarrow> ('sm, 'st) Cluster \<Rightarrow> ('sm, 'st) Cluster \<Rightarrow> bool"
  for cfg grow c where
  start: "regular_run cfg grow c c"
| step: "regular_run cfg grow c c' \<Longrightarrow> cluster_step cfg grow c' c'' \<Longrightarrow> regular cfg c' c'' \<Longrightarrow>
    regular_run cfg grow c c''"

lemma regular_cluster_run: "regular_run cfg grow c c' \<Longrightarrow> cluster_run cfg grow c c'"
  by (induction rule: regular_run.induct) (auto intro: cluster_run.intros)

section \<open>The simulation\<close>

text \<open>Members: every node is where the configuration says, and knows the others.\<close>

definition members_ok :: "ClusterMember list \<Rightarrow> ('sm, 'st) Cluster \<Rightarrow> bool" where
  "members_ok cfg c \<longleftrightarrow> (\<forall>a < length cfg. selfId (srv c a) = memberId (cfg ! a) \<and>
     clusterIndex (srv c a) = a \<and> baseCluster (srv c a) = cfg \<and> static (srv c a))"

text \<open>Calls and answers: whose they are and what they carry.\<close>

definition calls_ok :: "ClusterMember list \<Rightarrow> ('sm, 'st) Cluster \<Rightarrow> bool" where
  "calls_ok cfg c \<longleftrightarrow>
     (\<forall>a i addr req. (a, i, addr, req) \<in> voteCalls c \<longrightarrow>
        a < length cfg \<and> i < length cfg \<and> addr = Address (cfg ! i) \<and> CandidateId req = memberId (cfg ! a)) \<and>
     (\<forall>a i req rsp. (a, i, req, rsp) \<in> voteAnswers c \<longrightarrow>
        a < length cfg \<and> i < length cfg \<and> CandidateId req = memberId (cfg ! a)) \<and>
     (\<forall>a i addr req. (a, i, addr, req) \<in> appendCalls c \<longrightarrow> noConfig (Entries req))"

lemma calls_okD:
  assumes "calls_ok cfg c"
  shows "(a, i, addr, req) \<in> voteCalls c \<Longrightarrow>
      a < length cfg \<and> i < length cfg \<and> addr = Address (cfg ! i) \<and> CandidateId req = memberId (cfg ! a)"
    "(a, i, req, rsp) \<in> voteAnswers c \<Longrightarrow> a < length cfg \<and> i < length cfg \<and> CandidateId req = memberId (cfg ! a)"
    "(a, i, addr, areq) \<in> appendCalls c \<Longrightarrow> noConfig (Entries areq)"
  using assms unfolding calls_ok_def by blast+

lemma calls_okI:
  assumes "\<And>a i addr req. (a, i, addr, req) \<in> voteCalls c \<Longrightarrow>
      a < length cfg \<and> i < length cfg \<and> addr = Address (cfg ! i) \<and> CandidateId req = memberId (cfg ! a)"
    and "\<And>a i req rsp. (a, i, req, rsp) \<in> voteAnswers c \<Longrightarrow>
      a < length cfg \<and> i < length cfg \<and> CandidateId req = memberId (cfg ! a)"
    and "\<And>a i addr req. (a, i, addr, req) \<in> appendCalls c \<Longrightarrow> noConfig (Entries req)"
  shows "calls_ok cfg c"
  using assms unfolding calls_ok_def by blast

text \<open>Ballots: a node's vote and the votes it counts are in the history, older ones are past.\<close>

definition ballots_ok :: "ClusterMember list \<Rightarrow> ('sm, 'st) Cluster \<Rightarrow> history \<Rightarrow> bool" where
  "ballots_ok cfg c h \<longleftrightarrow>
     (\<forall>t v x. (t, v, x) \<in> ballots h \<longrightarrow> v < length cfg \<and> x \<noteq> 0 \<and>
        (t < currentTerm (srv c v) \<or> t = currentTerm (srv c v) \<and> x = ownVote (srv c v))) \<and>
     (\<forall>v < length cfg. ownVote (srv c v) \<noteq> 0 \<longrightarrow> (currentTerm (srv c v), v, ownVote (srv c v)) \<in> ballots h) \<and>
     (\<forall>a < length cfg. \<forall>i < length cfg. role (srv c a) \<in> {candidateState, leaderState} \<longrightarrow>
        counted (srv c a) i \<longrightarrow> (currentTerm (srv c a), i, selfId (srv c a)) \<in> ballots h) \<and>
     (\<forall>a i req rsp. (a, i, req, rsp) \<in> voteAnswers c \<longrightarrow> VoteGranted rsp \<longrightarrow>
        (Term req, i, CandidateId req) \<in> ballots h)"

text \<open>Leaders: they are elected in their term, and its log is theirs.\<close>

definition leaders_ok :: "ClusterMember list \<Rightarrow> ('sm, 'st) Cluster \<Rightarrow> history \<Rightarrow> bool" where
  "leaders_ok cfg c h \<longleftrightarrow> (\<forall>a < length cfg.
     (role (srv c a) = leaderState \<longrightarrow> (currentTerm (srv c a), selfId (srv c a)) \<in> elected h \<and>
        plainLog (raftLog (srv c a)) = canon h (currentTerm (srv c a))) \<and>
     (\<forall>t. (t, selfId (srv c a)) \<in> elected h \<longrightarrow>
        t < currentTerm (srv c a) \<or> t = currentTerm (srv c a) \<and> role (srv c a) = leaderState) \<and>
     (role (srv c a) \<in> {candidateState, leaderState} \<longrightarrow> currentTerm (srv c a) \<noteq> 0))"

text \<open>Logs: those of the nodes are legal, and requests are pieces of legal ones.\<close>

definition logs_ok :: "ClusterMember list \<Rightarrow> ('sm, 'st) Cluster \<Rightarrow> history \<Rightarrow> bool" where
  "logs_ok cfg c h \<longleftrightarrow> (\<forall>a < length cfg. legal h (plainLog (raftLog (srv c a)))) \<and>
     (\<forall>a i addr req. (a, i, addr, req) \<in> appendCalls c \<longrightarrow> (\<exists>es. legal h (plainLog es) \<and> piece_of req es))"

definition tracks :: "ClusterMember list \<Rightarrow> ('sm, MemStorage) Cluster \<Rightarrow> history \<Rightarrow> bool" where
  "tracks cfg c h \<longleftrightarrow> cluster_inv cfg c \<and> members_ok cfg c \<and> calls_ok cfg c \<and>
     ballots_ok cfg c h \<and> leaders_ok cfg c h \<and> logs_ok cfg c h \<and> spec_inv (length cfg) h"

section \<open>What a step of the cluster is to the specification\<close>

definition acts ::
  "ClusterMember list \<Rightarrow> ('sm, 'st) Cluster \<Rightarrow> nat \<Rightarrow> ('sm, 'st) Cluster \<Rightarrow> bool" where
  "acts cfg c b c' \<longleftrightarrow> b < length cfg \<and> (\<forall>a. a \<noteq> b \<longrightarrow> nodes c' a = nodes c a) \<and>
     role_moves (srv c b) (srv c' b) \<and>
     (log_moves (srv c b) (srv c' b) \<or> role (srv c' b) = followerState \<and>
        (\<exists>a i addr req. (a, i, addr, req) \<in> appendCalls c \<and> validPreviousLog req (srv c b) \<and>
           raftLog (srv c' b) = mergedLog req (srv c b))) \<and>
     (\<forall>a i req rsp. (a, i, req, rsp) \<in> voteAnswers c' \<longrightarrow> (a, i, req, rsp) \<in> voteAnswers c \<or>
        i = b \<and> (VoteGranted rsp \<longrightarrow>
          currentTerm (srv c' b) = Term req \<and> ownVote (srv c' b) = CandidateId req)) \<and>
     (\<forall>a i addr req. (a, i, addr, req) \<in> appendCalls c' \<longrightarrow>
        (a, i, addr, req) \<in> appendCalls c \<or> piece_of req (raftLog (srv c b)))"

lemma acts_answer:
  "acts cfg c b c' \<Longrightarrow> (a, i, req, rsp) \<in> voteAnswers c' \<Longrightarrow> (a, i, req, rsp) \<notin> voteAnswers c \<Longrightarrow>
     i = b \<and> (VoteGranted rsp \<longrightarrow> currentTerm (srv c' b) = Term req \<and> ownVote (srv c' b) = CandidateId req)"
  unfolding acts_def by blast

lemma moves_parts: "moves s t \<Longrightarrow> role_moves s t" "moves s t \<Longrightarrow> log_moves s t" "moves s t \<Longrightarrow> members_move s t"
  by (simp_all add: moves_def)

lemma inv_node:
  assumes "cluster_inv cfg c" "a < length cfg"
  shows "run_inv (nodes c a)" "node_good (srv c a)" "node_inv (srv c a)" "node_ok (srv c a)"
proof -
  show r: "run_inv (nodes c a)" using assms by (simp add: cluster_inv_def)
  show "node_good (srv c a)" "node_inv (srv c a)" "node_ok (srv c a)" by (rule run_inv_parts [OF r])+
qed

text \<open>Addresses tell members apart, so a call reaches the member it is for.\<close>

lemma served_by:
  assumes "distinct (map Address cfg)" "calls_ok cfg c" "(a, i, addr, req) \<in> voteCalls c"
    "b < length cfg" "Address (cfg ! b) = addr"
  shows "i = b"
proof -
  have "i < length cfg" "Address (cfg ! i) = Address (cfg ! b)"
    using calls_okD(1) [OF assms(2,3)] assms(5) by simp_all
  with assms(1,4) show ?thesis by (simp add: distinct_conv_nth) (metis length_map nth_map)
qed

lemma step_acts:
  assumes "cluster_step cfg grow c c'" "cluster_inv cfg c" "calls_ok cfg c" "distinct (map Address cfg)"
  obtains b where "acts cfg c b c'"
  using assms(1)
proof cases
  case (own a m)
  have "moves (srv c a) (server m)"
    using local_moves [OF own(3)] own(2) assms(2) by (simp add: cluster_inv_def)
  with own that [of a] moves_parts(1,2) [OF this] show thesis by (simp add: acts_def)
next
  case (vote_call a xs i ys addr req)
  from vote_call that [of a] moves_parts(1,2) [OF moves_refl [of "srv c a"]] show thesis by (simp add: acts_def)
next
  case (vote_serve a i addr req b rsp s')
  have ok: "node_ok (srv c b)"
    by (rule inv_node(4) [OF assms(2) vote_serve(3)])
  note m = on_vote_moves [OF ok vote_serve(5)]
  have "i = b" by (rule served_by [OF assms(4,3) vote_serve(2,3,4)])
  with vote_serve that [of b] moves_parts(1,2) [OF m(1)] m(2) show thesis by (simp add: acts_def)
next
  case (vote_return a xs i req ys rsp s')
  have ok: "node_ok (srv c a)"
    by (rule inv_node(4) [OF assms(2) vote_return(2)])
  from vote_return that [of a] moves_parts(1,2) [OF vote_response_moves [OF ok vote_return(5)]]
  show thesis by (simp add: acts_def)
next
  case (append_call a xs i ys addr req)
  have ok: "node_ok (srv c a)"
    by (rule inv_node(4) [OF assms(2) append_call(2)])
  from append_call that [of a] moves_parts(1,2) [OF moves_refl [of "srv c a"]] built_piece [OF ok append_call(4)] show thesis
    by (simp add: acts_def)
next
  case (append_serve a i addr req b rsp s')
  have inv: "node_inv (srv c b)" "wf_request req"
    using inv_node(3) [OF assms(2) append_serve(3)] append_serve(2) assms(2) unfolding cluster_inv_def by blast+
  note m = on_append_moves [OF inv(1) append_serve(5) inv(2)]
  have "log_moves (srv c b) s' \<or> role s' = followerState \<and>
      (\<exists>a i addr req. (a, i, addr, req) \<in> appendCalls c \<and> validPreviousLog req (srv c b) \<and>
         raftLog s' = mergedLog req (srv c b))"
  proof (cases "accepts req (srv c b)")
    case True
    with m(2,3) append_serve(2) show ?thesis unfolding accepts_iff by auto
  next
    case False
    with m(2) show ?thesis by (simp add: log_moves_def)
  qed
  with append_serve that [of b] m(1) show thesis by (simp add: acts_def)
next
  case (append_return a xs i req ys rsp s')
  have ok: "node_ok (srv c a)"
    by (rule inv_node(4) [OF assms(2) append_return(2)])
  from append_return that [of a] moves_parts(1,2) [OF append_response_moves [OF ok append_return(5)]]
  show thesis by (simp add: acts_def)
qed

section \<open>Members and calls\<close>

lemma static_moves:
  "members_move s t \<Longrightarrow> baseCluster t = baseCluster s \<Longrightarrow> static s \<Longrightarrow> noConfig (raftLog t) \<Longrightarrow> static t"
  by (simp add: members_move_def static_def)

lemma step_static:
  assumes "cluster_step cfg grow c c'" "cluster_inv cfg c" "calls_ok cfg c" "members_ok cfg c"
    "a < length cfg" "noConfig (raftLog (srv c' a))" "baseCluster (srv c' a) = baseCluster (srv c a)"
  shows "static (srv c' a)"
proof -
  have st: "static (srv c a)" using assms(4,5) by (simp add: members_ok_def)
  have run: "run_inv (nodes c a)" using assms(2,5) by (simp add: cluster_inv_def)
  note mv = static_moves [OF _ assms(7) st assms(6)]
  show ?thesis
    using assms(1)
  proof cases
    case (own b m)
    show ?thesis
    proof (cases "a = b")
      case True
      with own have l: "local_step grow (nodes c a) (nodes c' a)" by simp
      from mv [OF moves_parts(3) [OF local_moves [OF l run]]] show ?thesis .
    qed (use own st in simp)
  next
    case (vote_call b xs i ys addr req)
    with st show ?thesis by (cases "a = b") simp_all
  next
    case (vote_serve b i addr req d rsp s')
    show ?thesis
    proof (cases "a = d")
      case True
      with vote_serve have l: "HandleRequestVoteRequest req (srv c a) = Inr (rsp, srv c' a)" by simp
      from mv [OF moves_parts(3) [OF on_vote_moves(1) [OF run_inv_parts(3) [OF run] l]]] show ?thesis .
    qed (use vote_serve st in simp)
  next
    case (vote_return b xs i req ys rsp s')
    show ?thesis
    proof (cases "a = b")
      case True
      with vote_return have l: "handleVoteResponse i req rsp (srv c a) = Inr (srv c' a)" by simp
      from mv [OF moves_parts(3) [OF vote_response_moves [OF run_inv_parts(3) [OF run] l]]] show ?thesis .
    qed (use vote_return st in simp)
  next
    case (append_call b xs i ys addr req)
    with st show ?thesis by (cases "a = b") simp_all
  next
    case (append_serve b i addr req d rsp s')
    show ?thesis
    proof (cases "a = d")
      case True
      with append_serve have l: "HandleAppendEntriesRequest grow req (srv c a) = Inr (rsp, srv c' a)" by simp
      have "noConfig (Entries req)" by (rule calls_okD(3) [OF assms(3) append_serve(2)])
      from on_append_members [OF run_inv_parts(2) [OF run] l st this] show ?thesis .
    qed (use append_serve st in simp)
  next
    case (append_return b xs i req ys rsp s')
    show ?thesis
    proof (cases "a = b")
      case True
      with append_return have l: "handleAppendResponse i req rsp (srv c a) = Inr (srv c' a)" by simp
      from mv [OF moves_parts(3) [OF append_response_moves [OF run_inv_parts(3) [OF run] l]]] show ?thesis .
    qed (use append_return st in simp)
  qed
qed

lemma step_guarantee:
  assumes "cluster_step cfg grow c c'" "cluster_inv cfg c" "a < length cfg"
  shows "step_ok (srv c a) (srv c' a)"
proof -
  obtain b where b: "b < length cfg" "node_step grow (nodes c b) (nodes c' b)"
    "\<And>a. a \<noteq> b \<Longrightarrow> nodes c' a = nodes c a"
    using cluster_node_step [OF assms(2,1)] by metis
  note inv = inv_node [OF assms(2,3)]
  show ?thesis
  proof (cases "a = b")
    case True
    with node_step_ok [OF b(2)] inv(1) show ?thesis by simp
  next
    case False
    with b(3) step_ok_refl inv(2) show ?thesis by simp
  qed
qed

lemma members_step:
  assumes "cluster_step cfg grow c c'" "cluster_inv cfg c" "calls_ok cfg c" "members_ok cfg c" "regular cfg c c'"
  shows "members_ok cfg c'"
  unfolding members_ok_def
proof (intro allI impI)
  fix a assume a: "a < length cfg"
  have old: "selfId (srv c a) = memberId (cfg ! a)" "clusterIndex (srv c a) = a" "baseCluster (srv c a) = cfg"
    using assms(4) a by (simp_all add: members_ok_def)
  have run: "run_inv (nodes c a)" using assms(2) a by (simp add: cluster_inv_def)
  have s: "step_ok (srv c a) (srv c' a)" by (rule step_guarantee [OF assms(1,2) a])
  then have new: "selfId (srv c' a) = memberId (cfg ! a)" "baseCluster (srv c' a) = cfg"
    using old by (simp_all add: step_ok_def identity_kept_def)
  moreover have "clusterIndex (srv c' a) = a"
    using same_index [OF run_inv_parts(1) [OF run] s] old by simp
  moreover have "noConfig (raftLog (srv c' a))"
    using assms(5) a by (simp add: regular_def regular_node_def Let_def)
  ultimately show "selfId (srv c' a) = memberId (cfg ! a) \<and> clusterIndex (srv c' a) = a \<and>
      baseCluster (srv c' a) = cfg \<and> static (srv c' a)"
    using step_static [OF assms(1-4) a] old(3) by simp
qed

lemma calls_step:
  assumes "cluster_step cfg grow c c'" "cluster_inv cfg c" "calls_ok cfg c" "members_ok cfg c"
  shows "calls_ok cfg c'"
  using assms(1)
proof cases
  case (vote_call a xs i ys addr req)
  have i: "i < length (cluster (srv c a))" "addr = Address (cluster (srv c a) ! i)" "CandidateId req = selfId (srv c a)"
    using vote_call(4) by (auto simp: buildRequestVote_def split: if_splits)
  have st: "addresses (cluster (srv c a)) = addresses cfg" "selfId (srv c a) = memberId (cfg ! a)"
    using assms(4) vote_call(2) by (simp_all add: members_ok_def static_def)
  have len: "length (cluster (srv c a)) = length cfg" by (rule addresses_length [OF st(1)])
  have "Address (cluster (srv c a) ! i) = Address (cfg ! i)" using addresses_nth [OF st(1) i(1)] by blast
  with vote_call(2) i st(2) len
  have "a < length cfg \<and> i < length cfg \<and> addr = Address (cfg ! i) \<and> CandidateId req = memberId (cfg ! a)"
    by metis
  then show ?thesis
    using calls_okD [OF assms(3)] by (intro calls_okI) (auto simp: vote_call(1) simp del: One_nat_def)
next
  case (vote_serve a i addr req b rsp s')
  have "a < length cfg \<and> i < length cfg \<and> CandidateId req = memberId (cfg ! a)"
    using calls_okD(1) [OF assms(3) vote_serve(2)] by blast
  then show ?thesis
    using calls_okD [OF assms(3)] by (intro calls_okI) (auto simp: vote_serve(1))
next
  case (append_call a xs i ys addr req)
  have "run_inv (nodes c a)" using assms(2) append_call(2) by (simp add: cluster_inv_def)
  from piece_set [OF built_piece [OF run_inv_parts(3) [OF this] append_call(4)]]
  have "set (Entries req) \<subseteq> set (raftLog (srv c a))" .
  moreover have "noConfig (raftLog (srv c a))"
    using assms(4) append_call(2) by (simp add: members_ok_def static_def)
  ultimately have "noConfig (Entries req)" unfolding noConfig_def by blast
  then show ?thesis
    using calls_okD [OF assms(3)] by (intro calls_okI) (auto simp: append_call(1))
qed (use assms(3) in \<open>simp_all add: calls_ok_def\<close>)

section \<open>What a regular step does to votes\<close>

text \<open>
  A vote stays as long as its term, terms grow, and a vote that a candidate or leader counts
  anew was granted for its present term.
\<close>

definition lawful_node :: "('sm, 'st) Cluster \<Rightarrow> nat \<Rightarrow> ('sm, 'st) Server \<Rightarrow> ('sm, 'st) Server \<Rightarrow> bool" where
  "lawful_node c a s t \<longleftrightarrow>
     (role t = leaderState \<longrightarrow> role s = leaderState \<or> role s = candidateState) \<and>
     currentTerm s \<le> currentTerm t \<and>
     (currentTerm t = currentTerm s \<and> ownVote s \<noteq> 0 \<longrightarrow> ownVote t = ownVote s) \<and>
     (role t \<in> {candidateState, leaderState} \<longrightarrow>
       (\<forall>i < length (cluster t). i \<noteq> clusterIndex t \<and> counted t i \<and> \<not> counted s i \<longrightarrow>
         (\<exists>req rsp. (a, i, req, rsp) \<in> voteAnswers c \<and> VoteGranted rsp \<and> Term req = currentTerm t)))"

definition lawful :: "ClusterMember list \<Rightarrow> ('sm, 'st) Cluster \<Rightarrow> ('sm, 'st) Cluster \<Rightarrow> bool" where
  "lawful cfg c c' \<longleftrightarrow> (\<forall>a < length cfg. lawful_node c a (srv c a) (srv c' a))"

lemma lawful_at: "lawful cfg c c' \<Longrightarrow> a < length cfg \<Longrightarrow> lawful_node c a (srv c a) (srv c' a)"
  by (simp add: lawful_def)

text \<open>Votes of others are kept, or a granting answer has just been taken.\<close>

lemma step_votes:
  assumes "cluster_step cfg grow c c'" "cluster_inv cfg c" "a < length cfg"
  shows "votes_kept (srv c a) (srv c' a) \<or> (\<exists>i req rsp. (a, i, req, rsp) \<in> voteAnswers c \<and> VoteGranted rsp \<and>
    ended (nodes c a) (nodes c' a) (VoteSent i req) \<and>
    srv c' a = (srv c a)\<lparr>cluster := (cluster (srv c a))[i := (cluster (srv c a) ! i)\<lparr>votedFor := selfId (srv c a)\<rparr>]\<rparr>)"
proof (cases "nodes c' a = nodes c a")
  case False
  note inv = inv_node [OF assms(2,3)]
  show ?thesis
    using assms(1)
  proof cases
    case (own b m)
    with False have "a = b" "nodes c' a = m" by (simp_all split: if_splits)
    with local_votes [of grow "nodes c a" m] own(3) inv(1) show ?thesis by simp
  next
    case (vote_call b xs i ys addr req)
    with False have "srv c' a = srv c a" by (simp split: if_splits)
    then show ?thesis by simp
  next
    case (vote_serve b i addr req d rsp s')
    with False have "a = d" "srv c' a = s'" by (simp_all split: if_splits)
    with on_vote_votes [OF inv(4)] vote_serve(5) show ?thesis by simp
  next
    case (vote_return b xs i req ys rsp s')
    with False have e: "a = b" "srv c' a = s'" "routines (nodes c' a) = xs @ ys" by (simp_all split: if_splits)
    have "ended (nodes c a) (nodes c' a) (VoteSent i req)"
      using e(1,3) vote_return(3) by (simp add: ended_def)
    with vote_response_votes [OF inv(4)] vote_return(4,5) e(1,2) show ?thesis by metis
  next
    case (append_call b xs i ys addr req)
    with False have "srv c' a = srv c a" by (simp split: if_splits)
    then show ?thesis by simp
  next
    case (append_serve b i addr req d rsp s')
    with False have "a = d" "srv c' a = s'" by (simp_all split: if_splits)
    moreover have "wf_request req" using append_serve(2) assms(2) unfolding cluster_inv_def by blast
    ultimately show ?thesis using on_append_votes [OF inv(3)] append_serve(5) by blast
  next
    case (append_return b xs i req ys rsp s')
    with False have "a = b" "srv c' a = s'" by (simp_all split: if_splits)
    with append_response_votes [OF inv(4)] append_return(5) show ?thesis by simp
  qed
qed simp

lemma step_lawful:
  assumes "cluster_step cfg grow c c'" "cluster_inv cfg c" "members_ok cfg c" "regular cfg c c'"
    "\<forall>m \<in> set cfg. memberId m \<noteq> 0"
  shows "lawful cfg c c'"
  unfolding lawful_def
proof (intro allI impI)
  fix a assume a: "a < length cfg"
  let ?s = "srv c a" and ?t = "srv c' a"
  have r: "role ?t = leaderState \<longrightarrow> role ?s = leaderState \<or> role ?s = candidateState"
    "currentTerm ?s = - 1 \<longrightarrow> currentTerm ?t = - 1"
    "currentTerm ?t = currentTerm ?s \<and> ownVote ?s \<noteq> 0 \<longrightarrow> (\<exists>ys. raftLog ?t = raftLog ?s @ ys)"
    "\<And>i req. ended (nodes c a) (nodes c' a) (VoteSent i req) \<and> \<not> counted ?s i \<and> counted ?t i \<longrightarrow> Term req = currentTerm ?t"
    using assms(4) a by (simp_all add: regular_def regular_node_def Let_def)
  have g: "identity_kept ?s ?t" "term_grows ?s ?t" "vote_kept ?s ?t"
    using step_guarantee [OF assms(1,2) a] by (simp_all add: step_ok_def)
  have id: "selfId ?t \<noteq> 0" "selfId ?t = selfId ?s"
    using assms(3,5) a g(1) by (simp_all add: members_ok_def identity_kept_def)
  have "\<exists>req rsp. (a, i, req, rsp) \<in> voteAnswers c \<and> VoteGranted rsp \<and> Term req = currentTerm ?t"
    if i: "role ?t \<in> {candidateState, leaderState}" "i < length (cluster ?t)" "i \<noteq> clusterIndex ?t"
      "counted ?t i" "\<not> counted ?s i" for i
  proof -
    have "\<not> votes_kept ?s ?t" using votes_keptD [OF _ i(1-4) id] i(5) by blast
    with step_votes [OF assms(1,2) a] obtain j req rsp where j: "(a, j, req, rsp) \<in> voteAnswers c" "VoteGranted rsp"
      "ended (nodes c a) (nodes c' a) (VoteSent j req)"
      "?t = ?s\<lparr>cluster := (cluster ?s)[j := (cluster ?s ! j)\<lparr>votedFor := selfId ?s\<rparr>]\<rparr>" by blast
    have "i = j"
    proof (rule ccontr)
      assume "i \<noteq> j"
      then have "cluster ?t ! i = cluster ?s ! i" by (subst j(4)) simp
      with i(4,5) id(2) show False by (simp add: counted_def)
    qed
    with j(1-3) r(4) i(4,5) show ?thesis by blast
  qed
  moreover have "currentTerm ?s \<le> currentTerm ?t" using g(2) r(2) by (auto simp: term_grows_def)
  moreover have "currentTerm ?t = currentTerm ?s \<and> ownVote ?s \<noteq> 0 \<longrightarrow> ownVote ?t = ownVote ?s"
    using g(3) r(3) by (auto simp: vote_kept_def)
  ultimately show "lawful_node c a ?s ?t" using r(1) unfolding lawful_node_def by blast
qed

section \<open>Ballots\<close>

text \<open>The history after the node's vote.\<close>

definition voted :: "('sm, 'st) Server \<Rightarrow> nat \<Rightarrow> history \<Rightarrow> history" where
  "voted s b h = (if ownVote s = 0 then h else h\<lparr>ballots := insert (currentTerm s, b, ownVote s) (ballots h)\<rparr>)"

lemma voted_fields [simp]:
  "elected (voted s b h) = elected h" "canon (voted s b h) = canon h"
  "ballots h \<subseteq> ballots (voted s b h)"
  "(t, v, x) \<in> ballots (voted s b h) \<longleftrightarrow>
     (t, v, x) \<in> ballots h \<or> t = currentTerm s \<and> v = b \<and> x = ownVote s \<and> x \<noteq> 0"
  by (auto simp: voted_def)

lemma ballots_okD:
  assumes "ballots_ok cfg c h"
  shows "(a, i, req, rsp) \<in> voteAnswers c \<Longrightarrow> VoteGranted rsp \<Longrightarrow> (Term req, i, CandidateId req) \<in> ballots h"
    "a < length cfg \<Longrightarrow> i < length cfg \<Longrightarrow> role (srv c a) \<in> {candidateState, leaderState} \<Longrightarrow>
       counted (srv c a) i \<Longrightarrow> (currentTerm (srv c a), i, selfId (srv c a)) \<in> ballots h"
  using assms unfolding ballots_ok_def by blast+

text \<open>What a ballot of the history says of its voter stays true.\<close>

lemma ballot_kept:
  assumes "ballots_ok cfg c h" "acts cfg c b c'" "lawful cfg c c'" "(t, v, x) \<in> ballots h"
  shows "v < length cfg \<and> x \<noteq> 0 \<and>
    (t < currentTerm (srv c' v) \<or> t = currentTerm (srv c' v) \<and> x = ownVote (srv c' v))"
proof -
  have old: "v < length cfg" "x \<noteq> 0"
    "t < currentTerm (srv c v) \<or> t = currentTerm (srv c v) \<and> x = ownVote (srv c v)"
    using assms(1,4) unfolding ballots_ok_def by blast+
  from lawful_at [OF assms(3) old(1)]
  have r: "currentTerm (srv c v) \<le> currentTerm (srv c' v)"
    "currentTerm (srv c' v) = currentTerm (srv c v) \<and> ownVote (srv c v) \<noteq> 0 \<longrightarrow> ownVote (srv c' v) = ownVote (srv c v)"
    by (simp_all add: lawful_node_def)
  show ?thesis
  proof (cases "t < currentTerm (srv c' v)")
    case False
    with old(3) r(1) have "t = currentTerm (srv c v)" "currentTerm (srv c' v) = currentTerm (srv c v)" "x = ownVote (srv c v)"
      by auto
    with old(1,2) r(2) show ?thesis by simp
  qed (use old in simp)
qed

lemma ballot_step:
  assumes "ballots_ok cfg c h" "acts cfg c b c'" "lawful cfg c c'"
  shows "spec_run n h (voted (srv c' b) b h)"
proof (cases "ownVote (srv c' b) = 0")
  case True
  then show ?thesis by (simp add: voted_def spec_run.refl)
next
  case False
  have "\<forall>x. (currentTerm (srv c' b), b, x) \<in> ballots h \<longrightarrow> x = ownVote (srv c' b)"
    using ballot_kept [OF assms] by blast
  from spec_run.step [OF spec_run.refl spec_step.vote [OF this]] False show ?thesis
    by (simp add: voted_def)
qed

lemma ballots_mono:
  assumes "ballots_ok cfg c h" "ballots h' = ballots h"
  shows "ballots_ok cfg c h'"
  using assms by (simp add: ballots_ok_def)

text \<open>The votes a candidate or leader counts are ballots for it in its term.\<close>

lemma counted_ballot:
  assumes "ballots_ok cfg c h" "acts cfg c b c'" "lawful cfg c c'" "members_ok cfg c'" "members_ok cfg c"
    "calls_ok cfg c" "\<forall>m \<in> set cfg. memberId m \<noteq> 0"
    and "i < length cfg" "role (srv c' b) \<in> {candidateState, leaderState}" "counted (srv c' b) i"
  shows "(currentTerm (srv c' b), i, selfId (srv c' b)) \<in> ballots (voted (srv c' b) b h)"
proof -
  let ?s = "srv c b" and ?t = "srv c' b"
  have b: "b < length cfg" "role_moves ?s ?t" using assms(2) by (simp_all add: acts_def)
  have id: "selfId ?t = memberId (cfg ! b)" "selfId ?s = memberId (cfg ! b)" "clusterIndex ?t = b"
    "addresses (cluster ?t) = addresses cfg"
    using assms(4,5) b(1) by (simp_all add: members_ok_def static_def)
  have nz: "selfId ?t \<noteq> 0" using assms(7) b(1) id(1) by simp
  show ?thesis
  proof (cases "i = b")
    case True
    with assms(10) id(3) have "ownVote ?t = selfId ?t" by (simp add: counted_def ownVote_def)
    with nz True show ?thesis by simp
  next
    case other: False
    show ?thesis
    proof (cases "counted ?s i")
      case False
      have "i < length (cluster ?t)" "i \<noteq> clusterIndex ?t \<and> counted ?t i \<and> \<not> counted ?s i"
        using False assms(8,10) other id(3) addresses_length [OF id(4)] by simp_all
      with lawful_at [OF assms(3) b(1)] assms(9)
      obtain req rsp where "(b, i, req, rsp) \<in> voteAnswers c" "VoteGranted rsp" "Term req = currentTerm ?t"
        unfolding lawful_node_def by blast
      moreover from ballots_okD(1) [OF assms(1) this(1,2)] have "(Term req, i, CandidateId req) \<in> ballots h" .
      moreover have "CandidateId req = memberId (cfg ! b)"
        using calls_okD(2) [OF assms(6) calculation(1)] by blast
      ultimately show ?thesis using id by simp
    next
      case True
      have "role ?s \<in> {candidateState, leaderState} \<and> currentTerm ?t = currentTerm ?s"
      proof (cases "role ?t = leaderState")
        case True
        with b(2) lawful_at [OF assms(3) b(1)] show ?thesis by (auto simp: role_moves_def lawful_node_def)
      next
        case False
        have "\<not> (\<forall>i < length (cluster ?t). i \<noteq> clusterIndex ?t \<longrightarrow> votedFor (cluster ?t ! i) = 0)"
          using assms(8,10) other id(3) nz addresses_length [OF id(4)] by (auto simp: counted_def)
        with False assms(9) b(2) show ?thesis by (auto simp: role_moves_def)
      qed
      with ballots_okD(2) [OF assms(1) b(1) assms(8) _ True] id(1,2) show ?thesis by simp
    qed
  qed
qed

lemma ballots_step:
  assumes "ballots_ok cfg c h" "acts cfg c b c'" "lawful cfg c c'" "members_ok cfg c'" "members_ok cfg c"
    "calls_ok cfg c" "\<forall>m \<in> set cfg. memberId m \<noteq> 0" "calls_ok cfg c'"
  shows "ballots_ok cfg c' (voted (srv c' b) b h)" (is "ballots_ok cfg c' ?h")
  unfolding ballots_ok_def
proof (intro conjI allI impI ballI)
  have b: "b < length cfg" "\<And>a. a \<noteq> b \<Longrightarrow> nodes c' a = nodes c a" using assms(2) by (simp_all add: acts_def)
  { fix t v x assume "(t, v, x) \<in> ballots ?h"
    then have "v < length cfg \<and> x \<noteq> 0 \<and>
      (t < currentTerm (srv c' v) \<or> t = currentTerm (srv c' v) \<and> x = ownVote (srv c' v))"
      using ballot_kept [OF assms(1-3)] b(1) by auto
    then show "v < length cfg" "x \<noteq> 0"
      "t < currentTerm (srv c' v) \<or> t = currentTerm (srv c' v) \<and> x = ownVote (srv c' v)" by blast+ }
  { fix v assume v: "v < length cfg" "ownVote (srv c' v) \<noteq> 0"
    show "(currentTerm (srv c' v), v, ownVote (srv c' v)) \<in> ballots ?h"
    proof (cases "v = b")
      case False
      with v b(2) assms(1) show ?thesis by (simp add: ballots_ok_def)
    qed (use v in simp) }
  { fix a i assume a: "a < length cfg" "i < length cfg" "role (srv c' a) \<in> {candidateState, leaderState}"
      "counted (srv c' a) i"
    show "(currentTerm (srv c' a), i, selfId (srv c' a)) \<in> ballots ?h"
    proof (cases "a = b")
      case True
      with counted_ballot [OF assms(1-7) a(2)] a(3,4) show ?thesis by blast
    next
      case False
      with a b(2) ballots_okD(2) [OF assms(1) a(1,2)] show ?thesis by simp
    qed }
  fix a i req rsp assume q: "(a, i, req, rsp) \<in> voteAnswers c'" and g: "VoteGranted rsp"
  show "(Term req, i, CandidateId req) \<in> ballots ?h"
  proof (cases "(a, i, req, rsp) \<in> voteAnswers c")
    case True
    with g ballots_okD(1) [OF assms(1)] show ?thesis by simp
  next
    case False
    from acts_answer [OF assms(2) q False] g
    have new: "i = b" "currentTerm (srv c' b) = Term req" "ownVote (srv c' b) = CandidateId req" by simp_all
    have "a < length cfg \<and> CandidateId req = memberId (cfg ! a)"
      using calls_okD(2) [OF assms(8) q] by blast
    with assms(7) have "CandidateId req \<noteq> 0" by (metis nth_mem)
    with new show ?thesis by simp
  qed
qed

section \<open>Leaders\<close>

text \<open>The history after the node has been elected, or has written to its log as a leader.\<close>

definition led :: "('sm, 'st) Server \<Rightarrow> ('sm, 'st) Server \<Rightarrow> history \<Rightarrow> history" where
  "led s t h =
     (if role t \<noteq> leaderState then h
      else h\<lparr>elected := insert (currentTerm t, selfId t) (elected h),
             canon := (canon h)(currentTerm t := plainLog (raftLog t))\<rparr>)"

lemma leaders_okD:
  assumes "leaders_ok cfg c h" "a < length cfg"
  shows "role (srv c a) = leaderState \<Longrightarrow> (currentTerm (srv c a), selfId (srv c a)) \<in> elected h"
    "role (srv c a) = leaderState \<Longrightarrow> plainLog (raftLog (srv c a)) = canon h (currentTerm (srv c a))"
    "(t, selfId (srv c a)) \<in> elected h \<Longrightarrow>
       t < currentTerm (srv c a) \<or> t = currentTerm (srv c a) \<and> role (srv c a) = leaderState"
    "role (srv c a) \<in> {candidateState, leaderState} \<Longrightarrow> currentTerm (srv c a) \<noteq> 0"
  using assms unfolding leaders_ok_def by blast+

lemma tallied:
  assumes "ballots_ok cfg c h" "members_ok cfg c" "b < length cfg" "role (srv c b) = candidateState"
    and "majority (length (cluster (srv c b))) \<le> length (voters (srv c b))"
  shows "length cfg < 2 * card (votersOf (length cfg) h (currentTerm (srv c b)) (selfId (srv c b)))"
proof -
  let ?s = "srv c b" and ?n = "length cfg"
  have "addresses (cluster ?s) = addresses cfg" using assms(2,3) by (simp add: members_ok_def static_def)
  then have n: "length (cluster ?s) = ?n" by (rule addresses_length)
  have "length (voters ?s) = card {i. i < ?n \<and> counted ?s i}"
    by (simp add: voters_def length_filter_conv_card counted_def n)
  also have "\<dots> \<le> card (votersOf ?n h (currentTerm ?s) (selfId ?s))"
    using ballots_okD(2) [OF assms(1,3)] assms(4) by (intro card_mono) (auto simp: votersOf_def)
  finally show ?thesis using assms(5) n by (simp add: majority_def)
qed

text \<open>A node that leads after the step led before, or was a candidate that has a majority.\<close>

lemma leads_cases:
  assumes "acts cfg c b c'" "lawful cfg c c'" "role (srv c' b) = leaderState"
  obtains (led) ys where "role (srv c b) = leaderState" "currentTerm (srv c' b) = currentTerm (srv c b)"
      "raftLog (srv c' b) = raftLog (srv c b) @ ys" "\<forall>y \<in> set ys. entryTerm y = currentTerm (srv c b)"
  | (elected) "role (srv c b) = candidateState" "currentTerm (srv c' b) = currentTerm (srv c b)"
      "raftLog (srv c' b) = raftLog (srv c b) @ [\<lparr>Command = [], entryTerm = currentTerm (srv c b), result = None\<rparr>]"
      "majority (length (cluster (srv c b))) \<le> length (voters (srv c b))"
proof -
  have b: "b < length cfg" "role_moves (srv c b) (srv c' b)" "log_moves (srv c b) (srv c' b)"
    using assms(1,3) by (auto simp: acts_def)
  have t: "currentTerm (srv c' b) = currentTerm (srv c b)" using b(2) assms(3) by (simp add: role_moves_def)
  have "role (srv c b) = leaderState \<or> role (srv c b) = candidateState"
    using lawful_at [OF assms(2) b(1)] assms(3) by (simp add: lawful_node_def)
  then show thesis
  proof
    assume l: "role (srv c b) = leaderState"
    from b(3) obtain ys where "raftLog (srv c' b) = raftLog (srv c b) @ ys"
      "\<forall>y \<in> set ys. entryTerm y = currentTerm (srv c' b)"
      unfolding log_moves_def by (metis append_Nil2 empty_iff list.set(1))
    with l t led show thesis by simp
  next
    assume "role (srv c b) = candidateState"
    with b(2) assms(3) t elected show thesis by (simp add: role_moves_def)
  qed
qed

lemma led_step:
  assumes "leaders_ok cfg c h" "ballots_ok cfg c h" "logs_ok cfg c h" "acts cfg c b c'" "lawful cfg c c'"
    "members_ok cfg c" "members_ok cfg c'"
  shows "spec_run (length cfg) (voted (srv c' b) b h) (led (srv c b) (srv c' b) (voted (srv c' b) b h))"
    (is "spec_run _ ?h (led ?s ?t ?h)")
proof (cases "role ?t = leaderState")
  case False
  then show ?thesis by (simp add: led_def spec_run.refl)
next
  case True
  have b: "b < length cfg" using assms(4) by (simp add: acts_def)
  have id: "selfId ?t = selfId ?s" using assms(6,7) b by (simp add: members_ok_def)
  from assms(4,5) True show ?thesis
  proof (cases rule: leads_cases)
    case (led ys)
    have e: "(currentTerm ?s, selfId ?s) \<in> elected ?h" "canon ?h (currentTerm ?s) = plainLog (raftLog ?s)"
      using leaders_okD(1,2) [OF assms(1) b led(1)] by simp_all
    have "\<forall>p \<in> set (plainLog ys). fst p = currentTerm ?s" using led(4) by (simp add: plainLog_terms)
    from spec_run.step [OF spec_run.refl spec_step.lead [OF e(1) this]]
    have "spec_run (length cfg) ?h (?h\<lparr>canon := (canon ?h)(currentTerm ?t := plainLog (raftLog ?t))\<rparr>)"
      using led(2,3) e(2) by simp
    moreover have "insert (currentTerm ?t, selfId ?t) (elected ?h) = elected ?h"
      using e(1) id led(2) by (simp add: insert_absorb)
    then have "led ?s ?t ?h = ?h\<lparr>canon := (canon ?h)(currentTerm ?t := plainLog (raftLog ?t))\<rparr>"
      using True unfolding led_def by (simp del: voted_fields)
    ultimately show ?thesis by simp
  next
    case elected
    have ne: "(currentTerm ?s, selfId ?s) \<notin> elected ?h"
      using leaders_okD(3) [OF assms(1) b, of "currentTerm ?s"] elected(1) by auto
    have nz: "currentTerm ?s \<noteq> 0" using leaders_okD(4) [OF assms(1) b] elected(1) by simp
    have "length cfg < 2 * card (votersOf (length cfg) h (currentTerm ?s) (selfId ?s))"
      by (rule tallied [OF assms(2,6) b elected(1,4)])
    also have "card (votersOf (length cfg) h (currentTerm ?s) (selfId ?s))
        \<le> card (votersOf (length cfg) ?h (currentTerm ?s) (selfId ?s))"
      by (rule votersOf_mono) simp
    finally have m: "length cfg < 2 * card (votersOf (length cfg) ?h (currentTerm ?s) (selfId ?s))" by simp
    have "legal h (plainLog (raftLog ?s))" using assms(3) b by (simp add: logs_ok_def)
    then have l: "legal ?h (plainLog (raftLog ?s))" by (simp add: legal_def)
    have "fst (currentTerm ?s, [] :: bytes) = currentTerm ?s" by simp
    from spec_run.step [OF spec_run.refl spec_step.elect [OF m nz ne l this]]
    show ?thesis using True elected(2,3) id by (simp add: led_def)
  qed
qed

lemma led_fields:
  "elected (led s t h) = (if role t = leaderState then insert (currentTerm t, selfId t) (elected h) else elected h)"
  "ballots (led s t h) = ballots h"
  "canon (led s t h) u = (if role t = leaderState \<and> u = currentTerm t then plainLog (raftLog t) else canon h u)"
  by (simp_all add: led_def)

lemma leaders_step:
  assumes "leaders_ok cfg c h" "acts cfg c b c'" "lawful cfg c c'" "members_ok cfg c" "members_ok cfg c'"
    "distinct (map memberId cfg)" "elected h' = elected h" "canon h' = canon h"
    "spec_inv (length cfg) (led (srv c b) (srv c' b) h')"
  shows "leaders_ok cfg c' (led (srv c b) (srv c' b) h')" (is "leaders_ok cfg c' ?h")
  unfolding leaders_ok_def
proof (intro allI impI)
  let ?s = "srv c b" and ?t = "srv c' b"
  fix a assume a: "a < length cfg"
  have b: "b < length cfg" "\<And>a. a \<noteq> b \<Longrightarrow> nodes c' a = nodes c a" "role_moves ?s ?t"
    using assms(2) by (simp_all add: acts_def)
  have id: "selfId (srv c' a) = selfId (srv c a)" "selfId ?t = selfId ?s" "selfId ?s = selfId (srv c a) \<Longrightarrow> a = b"
    using assms(4-6) a b(1) by (simp_all add: members_ok_def distinct_conv_nth) (metis length_map nth_map)
  note old = leaders_okD [OF assms(1) a]
  note led = led_fields [of ?s ?t h', unfolded assms(7,8)]
  have mono: "currentTerm ?s \<le> currentTerm ?t"
    using lawful_at [OF assms(3) b(1)] by (simp add: lawful_node_def)
  have l1: "(currentTerm (srv c' a), selfId (srv c' a)) \<in> elected ?h \<and>
      plainLog (raftLog (srv c' a)) = canon ?h (currentTerm (srv c' a))" if l: "role (srv c' a) = leaderState"
  proof (cases "a = b")
    case True
    with l show ?thesis by (simp add: led)
  next
    case False
    with l b(2) old(1,2) have o: "(currentTerm (srv c' a), selfId (srv c' a)) \<in> elected h"
      "plainLog (raftLog (srv c' a)) = canon h (currentTerm (srv c' a))" by simp_all
    then have e: "(currentTerm (srv c' a), selfId (srv c' a)) \<in> elected ?h" by (simp add: led)
    moreover have "\<not> (role ?t = leaderState \<and> currentTerm (srv c' a) = currentTerm ?t)"
    proof
      assume t: "role ?t = leaderState \<and> currentTerm (srv c' a) = currentTerm ?t"
      then have "(currentTerm (srv c' a), selfId ?t) \<in> elected ?h" by (simp add: led)
      from one_elected [OF assms(9) e this] id False show False by simp
    qed
    ultimately show ?thesis using o(2) by (simp only: led(3) if_False)
  qed
  have l2: "u < currentTerm (srv c' a) \<or> u = currentTerm (srv c' a) \<and> role (srv c' a) = leaderState"
    if u: "(u, selfId (srv c' a)) \<in> elected ?h" for u
  proof (cases "role ?t = leaderState \<and> u = currentTerm ?t \<and> selfId (srv c' a) = selfId ?t")
    case True
    then have "selfId ?s = selfId (srv c a)" using id(1,2) by metis
    then have "a = b" by (rule id(3))
    with True show ?thesis by simp
  next
    case False
    from u False have "(u, selfId (srv c' a)) \<in> elected h" by (cases "role ?t = leaderState") (auto simp: led(1))
    with id(1) have "(u, selfId (srv c a)) \<in> elected h" by simp
    note o = old(3) [OF this]
    show ?thesis
    proof (cases "a = b")
      case True
      with o have u: "u \<le> currentTerm ?s" by auto
      show ?thesis
      proof (cases "currentTerm ?t = currentTerm ?s")
        case same: True
        with o b(3) \<open>a = b\<close> show ?thesis by (auto simp: role_moves_def)
      next
        case False
        with mono have "currentTerm ?s < currentTerm ?t" by simp
        with u have "u < currentTerm ?t" by (rule le_less_trans)
        with \<open>a = b\<close> show ?thesis by simp
      qed
    next
      case F: False
      with o b(2) show ?thesis by simp
    qed
  qed
  have l3: "currentTerm (srv c' a) \<noteq> 0" if r: "role (srv c' a) \<in> {candidateState, leaderState}"
  proof (cases "a = b")
    case False
    with r b(2) old(4) show ?thesis by simp
  next
    case True
    show ?thesis
    proof (cases "currentTerm ?t = currentTerm ?s \<and> role ?s \<in> {candidateState, leaderState}")
      case same: True
      with old(4) True show ?thesis by simp
    next
      case new: False
      have "role ?t \<noteq> leaderState"
      proof
        assume "role ?t = leaderState"
        with assms(2,3) show False by (cases rule: leads_cases) (use new in auto)
      qed
      with r True b(3) new have "currentTerm ?t = currentTerm ?s + 1" by (auto simp: role_moves_def)
      with mono True show ?thesis by (metis add.commute add_0 word_le_0_iff zero_neq_one)
    qed
  qed
  show "(role (srv c' a) = leaderState \<longrightarrow> (currentTerm (srv c' a), selfId (srv c' a)) \<in> elected ?h \<and>
        plainLog (raftLog (srv c' a)) = canon ?h (currentTerm (srv c' a))) \<and>
     (\<forall>t. (t, selfId (srv c' a)) \<in> elected ?h \<longrightarrow>
        t < currentTerm (srv c' a) \<or> t = currentTerm (srv c' a) \<and> role (srv c' a) = leaderState) \<and>
     (role (srv c' a) \<in> {candidateState, leaderState} \<longrightarrow> currentTerm (srv c' a) \<noteq> 0)"
    using l1 l2 l3 by blast
qed

section \<open>Logs\<close>

lemma logs_step:
  assumes "logs_ok cfg c h" "acts cfg c b c'" "leaders_ok cfg c' h'" "spec_inv (length cfg) h" "spec_inv (length cfg) h'"
    "spec_run (length cfg) h h'"
  shows "logs_ok cfg c' h'"
  unfolding logs_ok_def
proof (intro conjI allI impI)
  let ?s = "srv c b" and ?t = "srv c' b"
  have b: "b < length cfg" "\<And>a. a \<noteq> b \<Longrightarrow> nodes c' a = nodes c a"
    "log_moves ?s ?t \<or> role ?t = followerState \<and> (\<exists>a i addr req. (a, i, addr, req) \<in> appendCalls c \<and>
       validPreviousLog req ?s \<and> raftLog ?t = mergedLog req ?s)"
    using assms(2) unfolding acts_def by blast+
  have mono: "legal h' l" if "legal h l" for l by (rule spec_run_legal [OF assms(6,4) that])
  have logs: "legal h' (plainLog (raftLog (srv c a)))" if "a < length cfg" for a
    using assms(1) that mono by (simp add: logs_ok_def)
  have calls: "\<exists>es. legal h' (plainLog es) \<and> piece_of req es" if "(a, i, addr, req) \<in> appendCalls c" for a i addr req
    using assms(1) that mono unfolding logs_ok_def by blast
  fix a assume a: "a < length cfg"
  show "legal h' (plainLog (raftLog (srv c' a)))"
  proof (cases "a = b")
    case False
    with a b(2) logs show ?thesis by simp
  next
    case True
    consider (same) "raftLog ?t = raftLog ?s" | (leader) "role ?t = leaderState"
      | (merge) d i addr req where "(d, i, addr, req) \<in> appendCalls c" "validPreviousLog req ?s"
        "raftLog ?t = mergedLog req ?s"
      using b(3) unfolding log_moves_def by blast
    then have "legal h' (plainLog (raftLog ?t))"
    proof cases
      case same
      with logs b(1) show ?thesis by simp
    next
      case leader
      with leaders_okD(1,2) [OF assms(3) b(1)] assms(5) show ?thesis by (auto simp: spec_inv_def)
    next
      case merge
      then obtain es where es: "legal h' (plainLog es)" "piece_of req es" using calls by blast
      let ?p = "unat (PrevLogIndex req)"
      have ne: "raftLog ?s \<noteq> []" using logs [OF b(1)] by (auto simp: legal_def)
      have p: "?p < length (raftLog ?s)" "?p = 0 \<or> entryTerm (raftLog ?s ! ?p) = entryTerm (es ! ?p)"
        using merge(2) es(2) ne by (auto simp: validPreviousLog_def piece_of_def)
      have q: "Suc ?p + length (Entries req) \<le> length es"
        "Entries req = take (length (Entries req)) (drop (Suc ?p) es)"
        using es(2) unfolding piece_of_def by blast+
      have "legal h' (plainLog (mergeLog (raftLog ?s) (Suc ?p) (take (length (Entries req)) (drop (Suc ?p) es))))"
        by (rule legal_merge [OF es(1) logs [OF b(1)] p(1) q(1) p(2)])
      then show ?thesis unfolding merge(3) mergedLog_def q(2) [symmetric] .
    qed
    with True show ?thesis by simp
  qed
next
  have mono: "legal h' l" if "legal h l" for l by (rule spec_run_legal [OF assms(6,4) that])
  fix a i addr req assume "(a, i, addr, req) \<in> appendCalls c'"
  with assms(2) have "(a, i, addr, req) \<in> appendCalls c \<or> piece_of req (raftLog (srv c b)) \<and> b < length cfg"
    unfolding acts_def by blast
  with assms(1) mono show "\<exists>es. legal h' (plainLog es) \<and> piece_of req es"
    unfolding logs_ok_def by blast
qed

section \<open>Refinement\<close>

text \<open>Ids that are not 0 and differ, and addresses that differ.\<close>

definition proper :: "ClusterMember list \<Rightarrow> bool" where
  "proper cfg \<longleftrightarrow> (\<forall>m \<in> set cfg. memberId m \<noteq> 0 \<and> votedFor m = 0) \<and>
     distinct (map memberId cfg) \<and> distinct (map Address cfg)"

text \<open>The history after a step of node \<open>b\<close>.\<close>

definition recorded :: "('sm, 'st) Cluster \<Rightarrow> nat \<Rightarrow> ('sm, 'st) Cluster \<Rightarrow> history \<Rightarrow> history" where
  "recorded c b c' h = led (srv c b) (srv c' b) (voted (srv c' b) b h)"

lemma simulation_at:
  assumes "tracks cfg c h" "cluster_step cfg grow c c'" "regular cfg c c'" "proper cfg" "acts cfg c b c'"
  shows "spec_run (length cfg) h (recorded c b c' h)" "tracks cfg c' (recorded c b c' h)"
proof -
  let ?n = "length cfg"
  have c: "cluster_inv cfg c" "members_ok cfg c" "calls_ok cfg c" "ballots_ok cfg c h" "leaders_ok cfg c h"
    "logs_ok cfg c h" "spec_inv ?n h" using assms(1) by (simp_all add: tracks_def)
  have cfg: "\<forall>m \<in> set cfg. memberId m \<noteq> 0" "distinct (map memberId cfg)" using assms(4) by (auto simp: proper_def)
  note b = assms(5)
  have i: "cluster_inv cfg c'" by (rule cluster_inv_step [OF assms(2) c(1)])
  have m: "members_ok cfg c'" by (rule members_step [OF assms(2) c(1,3,2) assms(3)])
  have k: "calls_ok cfg c'" by (rule calls_step [OF assms(2) c(1,3,2)])
  have w: "lawful cfg c c'" by (rule step_lawful [OF assms(2) c(1,2) assms(3) cfg(1)])
  let ?h1 = "voted (srv c' b) b h"
  let ?h2 = "led (srv c b) (srv c' b) ?h1"
  have r1: "spec_run ?n h ?h1" by (rule ballot_step [OF c(4) b w])
  have r2: "spec_run ?n ?h1 ?h2" by (rule led_step [OF c(5,4,6) b w c(2) m])
  have r: "spec_run ?n h ?h2" by (rule spec_run_trans [OF r2 r1])
  have s: "spec_inv ?n ?h2" by (rule spec_run_inv [OF r c(7)])
  have "ballots_ok cfg c' ?h1" by (rule ballots_step [OF c(4) b w m c(2,3) cfg(1) k])
  then have v: "ballots_ok cfg c' ?h2" by (rule ballots_mono) (simp add: led_fields)
  have l: "leaders_ok cfg c' ?h2"
    by (rule leaders_step [OF c(5) b w c(2) m cfg(2) _ _ s]) simp_all
  have g: "logs_ok cfg c' ?h2" by (rule logs_step [OF c(6) b l c(7) s r])
  show "spec_run ?n h (recorded c b c' h)" "tracks cfg c' (recorded c b c' h)"
    using r i m k v l g s by (simp_all add: tracks_def recorded_def)
qed

lemma simulation:
  assumes "tracks cfg c h" "cluster_step cfg grow c c'" "regular cfg c c'" "proper cfg"
  shows "\<exists>h'. spec_run (length cfg) h h' \<and> tracks cfg c' h'"
proof -
  have "cluster_inv cfg c" "calls_ok cfg c" "distinct (map Address cfg)"
    using assms(1,4) by (simp_all add: tracks_def proper_def)
  then obtain b where "acts cfg c b c'" by (rule step_acts [OF assms(2)])
  from simulation_at [OF assms this] show ?thesis by blast
qed

lemma run_simulation:
  "regular_run cfg grow c c' \<Longrightarrow> tracks cfg c h \<Longrightarrow> proper cfg \<Longrightarrow>
     \<exists>h'. spec_run (length cfg) h h' \<and> tracks cfg c' h'"
proof (induction rule: regular_run.induct)
  case start
  then show ?case using spec_run.refl by blast
next
  case (step c' c'')
  then obtain h' where "spec_run (length cfg) h h'" "tracks cfg c' h'" by blast
  moreover from simulation [OF this(2) step.hyps(2,3) step.prems(2)]
  obtain h'' where "spec_run (length cfg) h' h''" "tracks cfg c'' h''" by blast
  ultimately show ?case using spec_run_trans by blast
qed

lemma fresh_tracks:
  assumes "proper cfg" "fresh_cluster cfg grow machine rnd clk c"
  shows "tracks cfg c emptyHistory"
proof -
  have nz: "\<forall>m \<in> set cfg. memberId m \<noteq> 0" using assms(1) by (simp add: proper_def)
  note f = fresh_member [OF nz assms(2)]
  have calls: "voteCalls c = {}" "voteAnswers c = {}" "appendCalls c = {}"
    using assms(2) by (simp_all add: fresh_cluster_def)
  have role: "role (srv c a) = followerState" "baseCluster (srv c a) = cfg" if "a < length cfg" for a
    using f [OF that] by simp_all
  have index: "clusterIndex (srv c a) = a" if a: "a < length cfg" for a
  proof -
    have "node_inv (srv c a)" using f [OF a] run_inv_parts(2) by blast
    then have "resolveClusterIndex cfg (memberId (cfg ! a)) = Inr (clusterIndex (srv c a))"
      using f [OF a] by (simp add: node_inv_def loop_ok_def)
    from resolve_Inr [OF this] a assms(1) show ?thesis
      by (simp add: proper_def distinct_conv_nth) (metis length_map nth_map)
  qed
  have "members_ok cfg c"
    using f index by (simp add: members_ok_def static_def dummyEntry_def isConfigChangeCommand_def)
  moreover have "ballots_ok cfg c emptyHistory"
  proof -
    have "ownVote (srv c a) = 0" if "a < length cfg" for a
      using f [OF that] index [OF that] that assms(1) by (simp add: ownVote_def proper_def)
    with calls role show ?thesis by (simp add: ballots_ok_def emptyHistory_def)
  qed
  moreover have "leaders_ok cfg c emptyHistory" using role by (simp add: leaders_ok_def emptyHistory_def)
  moreover have "logs_ok cfg c emptyHistory"
    using f calls legal_dummy [of emptyHistory] by (simp add: logs_ok_def dummyEntry_def emptyHistory_def)
  moreover have "calls_ok cfg c" using calls by (simp add: calls_ok_def)
  ultimately show ?thesis
    using fresh_cluster_inv [OF nz assms(2)] spec_inv_empty by (simp add: tracks_def)
qed

lemma run_tracks:
  assumes "proper cfg" "fresh_cluster cfg grow machine rnd clk c" "regular_run cfg grow c c'"
  obtains h where "spec_run (length cfg) emptyHistory h" "tracks cfg c' h"
  using run_simulation [OF assms(3) fresh_tracks [OF assms(1,2)] assms(1)] by blast

lemma tracks_elected:
  assumes "tracks cfg c h" "a < length cfg" "role (srv c a) = leaderState"
  shows "(currentTerm (srv c a), memberId (cfg ! a)) \<in> elected h"
proof -
  have "leaders_ok cfg c h" "selfId (srv c a) = memberId (cfg ! a)"
    using assms(1,2) by (simp_all add: tracks_def members_ok_def)
  with leaders_okD(1) [OF _ assms(2,3)] show ?thesis by metis
qed

lemma tracks_logs:
  assumes "tracks cfg c h"
  shows "spec_inv (length cfg) h" "a < length cfg \<Longrightarrow> legal h (plainLog (raftLog (srv c a)))"
  using assms by (simp_all add: tracks_def logs_ok_def)

lemma safe_later:
  assumes "proper cfg" "tracks cfg c h" "regular_run cfg grow c c'" "a < length cfg" "b < length cfg"
  shows "role (srv c a) = leaderState \<Longrightarrow> role (srv c' b) = leaderState \<Longrightarrow>
      currentTerm (srv c a) = currentTerm (srv c' b) \<Longrightarrow> a = b"
    "log_matching (raftLog (srv c a)) (raftLog (srv c' b))"
proof -
  obtain h' where h': "spec_run (length cfg) h h'" "tracks cfg c' h'"
    using run_simulation [OF assms(3,2,1)] by blast
  have "legal h' (plainLog (raftLog (srv c a)))"
    by (rule spec_run_legal [OF h'(1) tracks_logs(1) [OF assms(2)] tracks_logs(2) [OF assms(2,4)]])
  then show "log_matching (raftLog (srv c a)) (raftLog (srv c' b))"
    by (rule legal_log_matching) (rule tracks_logs(2) [OF h'(2) assms(5)])
  assume l: "role (srv c a) = leaderState" "role (srv c' b) = leaderState"
    "currentTerm (srv c a) = currentTerm (srv c' b)"
  have "(currentTerm (srv c' b), memberId (cfg ! a)) \<in> elected h'"
    using tracks_elected [OF assms(2,4) l(1)] spec_run_elected [OF h'(1)] l(3) by auto
  from one_elected [OF tracks_logs(1) [OF h'(2)] this tracks_elected [OF h'(2) assms(5) l(2)]]
  have "memberId (cfg ! a) = memberId (cfg ! b)" .
  with assms(1,4,5) show "a = b"
    by (simp add: proper_def distinct_conv_nth) (metis length_map nth_map)
qed

end
