(* ===== verification/Raft_Commit.thy ===== *)
theory Raft_Commit
  imports Raft_Spec
begin

text \<open>
  Raft's promise about committed entries, over the histories of Raft_Spec: an entry that a
  quorum stored in its term is in the log of every later leader, so that no two nodes ever
  commit different entries. A history is joined here by what the nodes stored and when.
\<close>

section \<open>Quorums\<close>

text \<open>What the argument needs of majorities: any two of them share a node.\<close>

locale quorum_system =
  fixes quorum :: "nat set \<Rightarrow> bool"
  assumes meet: "quorum Q \<Longrightarrow> quorum R \<Longrightarrow> \<exists>v. v \<in> Q \<and> v \<in> R"

definition majorityOf :: "nat \<Rightarrow> nat set \<Rightarrow> bool" where
  "majorityOf n Q \<longleftrightarrow> Q \<subseteq> {..<n} \<and> n < 2 * card Q"

interpretation majorities: quorum_system "majorityOf n" for n
proof
  fix Q R assume q: "majorityOf n Q" "majorityOf n R"
  have fin: "finite Q" "finite R" using q by (auto simp: majorityOf_def intro: finite_subset)
  show "\<exists>v. v \<in> Q \<and> v \<in> R"
  proof (rule ccontr)
    assume "\<not> ?thesis"
    then have "Q \<inter> R = {}" by blast
    then have "card (Q \<union> R) = card Q + card R" using fin by (simp add: card_Un_disjoint)
    moreover have "card (Q \<union> R) \<le> card {..<n}" using q by (intro card_mono) (auto simp: majorityOf_def)
    ultimately show False using q by (simp add: majorityOf_def)
  qed
qed

section \<open>Entries in logs\<close>

text \<open>The log has, at index \<open>j\<close>, an entry of term \<open>T\<close>.\<close>

definition has :: "plainEntry list \<Rightarrow> nat \<Rightarrow> u64 \<Rightarrow> bool" where
  "has l j T \<longleftrightarrow> j < length l \<and> fst (l ! j) = T"

text \<open>What a node has stored: triples of the term it was in, the node, and the index of an entry of that term.\<close>

type_synonym stores = "(u64 \<times> nat \<times> nat) set"

text \<open>An entry may be lost to a node that has reached term \<open>U\<close> if some leader up to there lacks it.\<close>

definition lost :: "history \<Rightarrow> u64 \<Rightarrow> u64 \<Rightarrow> nat \<Rightarrow> bool" where
  "lost h T U j \<longleftrightarrow> (\<exists>T' \<in> fst ` elected h. T < T' \<and> T' \<le> U \<and> \<not> has (canon h T') j T)"

definition committed :: "(nat set \<Rightarrow> bool) \<Rightarrow> history \<Rightarrow> stores \<Rightarrow> u64 \<Rightarrow> nat \<Rightarrow> bool" where
  "committed quorum h A T i \<longleftrightarrow> T \<in> fst ` elected h \<and> has (canon h T) i T \<and>
     (\<exists>Q. quorum Q \<and> (\<forall>v \<in> Q. (T, v, i) \<in> A))"

text \<open>Every leader was elected by a quorum that gave it the entries its nodes had stored.\<close>

definition quorums_ok :: "(nat set \<Rightarrow> bool) \<Rightarrow> history \<Rightarrow> stores \<Rightarrow> (nat \<Rightarrow> u64) \<Rightarrow> bool" where
  "quorums_ok quorum h A cur \<longleftrightarrow> (\<forall>T' \<in> fst ` elected h. \<exists>Q. quorum Q \<and> (\<forall>v \<in> Q. T' \<le> cur v \<and>
     (\<forall>T j. (T, v, j) \<in> A \<longrightarrow> T < T' \<longrightarrow> has (canon h T') j T \<or> (\<exists>U < T'. lost h T U j))))"

context quorum_system
begin

text \<open>Leader Completeness: every later leader has a committed entry.\<close>

lemma leader_complete:
  assumes "quorums_ok quorum h A cur" "committed quorum h A T i" "T' \<in> fst ` elected h" "T \<le> T'"
  shows "has (canon h T') i T"
  using assms(3,4)
proof (induction "unat T'" arbitrary: T' rule: less_induct)
  case less
  show ?case
  proof (cases "T = T'")
    case True
    with assms(2) show ?thesis by (simp add: committed_def)
  next
    case False
    with less.prems(2) have lt: "T < T'" by simp
    obtain Q where Q: "quorum Q" "\<And>v j. v \<in> Q \<Longrightarrow> (T, v, j) \<in> A \<Longrightarrow> has (canon h T') j T \<or> (\<exists>U < T'. lost h T U j)"
      using assms(1) less.prems(1) lt unfolding quorums_ok_def by meson
    obtain R where R: "quorum R" "\<And>v. v \<in> R \<Longrightarrow> (T, v, i) \<in> A" using assms(2) by (auto simp: committed_def)
    obtain v where "v \<in> Q" "(T, v, i) \<in> A" using meet [OF Q(1) R(1)] R(2) by blast
    from Q(2) [OF this] show ?thesis
    proof
      assume "\<exists>U < T'. lost h T U i"
      then obtain U W where w: "U < T'" "W \<in> fst ` elected h" "T < W" "W \<le> U" "\<not> has (canon h W) i T"
        unfolding lost_def by blast
      then have "W < T'" by (meson le_less_trans)
      then have "unat W < unat T'" by (simp add: word_less_nat_alt)
      from less.hyps [OF this w(2) less_imp_le [OF w(3)]] w(5) show ?thesis by simp
    qed
  qed
qed

end

section \<open>Growing histories\<close>

definition grows :: "history \<Rightarrow> history \<Rightarrow> bool" where
  "grows h h' \<longleftrightarrow> elected h \<subseteq> elected h' \<and>
     (\<forall>T \<in> fst ` elected h. \<exists>es. canon h' T = canon h T @ es \<and> (\<forall>e \<in> set es. fst e = T))"

lemma grows_refl [simp]: "grows h h"
  by (auto simp: grows_def)

lemma grows_trans: "grows h h' \<Longrightarrow> grows h' h'' \<Longrightarrow> grows h h''"
  unfolding grows_def
proof (elim conjE, intro conjI ballI)
  fix T assume g: "elected h \<subseteq> elected h'"
    "\<forall>T \<in> fst ` elected h. \<exists>es. canon h' T = canon h T @ es \<and> (\<forall>e \<in> set es. fst e = T)"
    "\<forall>T \<in> fst ` elected h'. \<exists>es. canon h'' T = canon h' T @ es \<and> (\<forall>e \<in> set es. fst e = T)"
    "T \<in> fst ` elected h"
  then obtain es fs where "canon h' T = canon h T @ es" "\<forall>e \<in> set es. fst e = T"
    "canon h'' T = canon h' T @ fs" "\<forall>e \<in> set fs. fst e = T" by (meson image_mono subsetD)
  then show "\<exists>es. canon h'' T = canon h T @ es \<and> (\<forall>e \<in> set es. fst e = T)"
    by (intro exI [of _ "es @ fs"]) auto
qed blast

lemma spec_step_grows_canon:
  assumes "spec_inv n h" "spec_step n h h'"
  shows "grows h h'"
  using assms(2)
proof cases
  case (elect t c l e)
  have "t \<notin> fst ` elected h" by (rule new_term [OF assms(1) elect(2,4)])
  with elect(1) show ?thesis by (auto simp: grows_def)
qed (auto simp: grows_def)

lemma spec_run_grows: "spec_run n h h' \<Longrightarrow> spec_inv n h \<Longrightarrow> grows h h'"
  by (induction rule: spec_run.induct) (auto intro: grows_trans spec_step_grows_canon spec_run_inv)

lemma grows_has:
  assumes "grows h h'" "T \<in> fst ` elected h"
  shows "has (canon h T) j U \<Longrightarrow> has (canon h' T) j U"
    "U \<noteq> T \<Longrightarrow> has (canon h' T) j U = has (canon h T) j U"
    "j < length (canon h T) \<Longrightarrow> has (canon h' T) j U = has (canon h T) j U"
    "j < length (canon h T) \<Longrightarrow> take (Suc j) (canon h' T) = take (Suc j) (canon h T)"
proof -
  obtain es where es: "canon h' T = canon h T @ es" "\<forall>e \<in> set es. fst e = T"
    using assms by (auto simp: grows_def)
  show "has (canon h T) j U \<Longrightarrow> has (canon h' T) j U"
    "j < length (canon h T) \<Longrightarrow> has (canon h' T) j U = has (canon h T) j U"
    "j < length (canon h T) \<Longrightarrow> take (Suc j) (canon h' T) = take (Suc j) (canon h T)"
    using es(1) by (auto simp: has_def nth_append)
  assume "U \<noteq> T"
  show "has (canon h' T) j U = has (canon h T) j U"
  proof (cases "j < length (canon h T)")
    case False
    have "fst (es ! (j - length (canon h T))) = T" if "j < length (canon h T @ es)"
      using that False es(2) by (intro bspec [OF es(2)] nth_mem) auto
    with False \<open>U \<noteq> T\<close> es(1) show ?thesis by (auto simp: has_def nth_append)
  qed (use es(1) in \<open>simp add: has_def nth_append\<close>)
qed

lemma grows_elected: "grows h h' \<Longrightarrow> T \<in> fst ` elected h \<Longrightarrow> T \<in> fst ` elected h'"
  unfolding grows_def by blast

lemma lost_grows: "grows h h' \<Longrightarrow> lost h T U j \<Longrightarrow> lost h' T U j"
  unfolding lost_def by (metis grows_has(2) grows_elected less_irrefl)

lemma lost_later: "lost h T U j \<Longrightarrow> U \<le> U' \<Longrightarrow> lost h T U' j"
  unfolding lost_def by (meson order_trans)

lemma committed_grows: "grows h h' \<Longrightarrow> A \<subseteq> A' \<Longrightarrow> committed quorum h A T i \<Longrightarrow> committed quorum h' A' T i"
  unfolding committed_def by (meson grows_has(1) grows_elected subsetD)

section \<open>Legal logs\<close>

lemma legal_has:
  assumes "legal h l" "has l j T" "T \<noteq> 0"
  shows "T \<in> fst ` elected h" "take (Suc j) l = take (Suc j) (canon h T)" "has (canon h T) j T"
proof -
  have j: "j < length l" "fst (l ! j) = T" using assms(2) by (simp_all add: has_def)
  with assms(1,3) show "T \<in> fst ` elected h" and t: "take (Suc j) l = take (Suc j) (canon h T)"
    unfolding legal_def by blast+
  have "j < length (canon h T)" using legal_canon_length [OF assms(1) j(1)] j(2) by simp
  moreover from t have "take (Suc j) l ! j = take (Suc j) (canon h T) ! j" by simp
  ultimately show "has (canon h T) j T" using j(2) by (simp add: has_def)
qed

lemma take_Suc_has:
  assumes "take (Suc j) l = take (Suc j) l'" "j < length l" "i \<le> j"
  shows "has l i T = has l' i T"
proof -
  have "min (length l) (Suc j) = min (length l') (Suc j)" using arg_cong [OF assms(1), of length] by simp
  with assms(2,3) have len: "i < length l" "i < length l'" by auto
  have "take (Suc j) l ! i = take (Suc j) l' ! i" using assms(1) by simp
  with assms(3) len show ?thesis by (simp add: has_def)
qed

text \<open>The terms of a leader's log grow up to its own.\<close>

definition canon_ok :: "history \<Rightarrow> bool" where
  "canon_ok h \<longleftrightarrow> (\<forall>T \<in> fst ` elected h. sorted (map fst (canon h T)) \<and> canon h T \<noteq> [] \<and> fst (last (canon h T)) = T)"

lemma legal_sorted:
  assumes "canon_ok h" "canon h 0 = [(0, [])]" "legal h l"
  shows "sorted (map fst l)"
proof -
  have ne: "l \<noteq> []" using assms(3) by (auto simp: legal_def)
  let ?T = "fst (l ! (length l - 1))"
  have j: "length l - 1 < length l" using ne by simp
  have t: "?T = 0 \<or> ?T \<in> fst ` elected h" "take (length l) l = take (length l) (canon h ?T)"
    using assms(3) j ne unfolding legal_def by (metis Suc_diff_1 length_greater_0_conv)+
  from t(1) assms(1,2) have "sorted (map fst (canon h ?T))" by (auto simp: canon_ok_def)
  then have "sorted (map fst (take (length l) (canon h ?T)))" by (metis sorted_wrt_take take_map)
  with t(2) show ?thesis by simp
qed

lemma sorted_last:
  "sorted (map fst l) \<Longrightarrow> j < length l \<Longrightarrow> fst (l ! j) \<le> (fst (last l) :: u64)"
  using sorted_nth_mono [of "map fst l" j "length l - 1"] by (cases "l = []") (auto simp: last_conv_nth)

lemma canon_ok_extend:
  assumes "canon_ok h" "canon h 0 = [(0, [])]" "legal h l" "\<forall>e \<in> set l. fst e \<le> T" "\<forall>e \<in> set es. fst e = T"
    "es \<noteq> [] \<or> fst (last l) = T"
  shows "canon_ok (h\<lparr>elected := insert (T, c) (elected h), canon := (canon h)(T := l @ es)\<rparr>)"
proof -
  have ne: "l \<noteq> []" using assms(3) by (auto simp: legal_def)
  have "sorted (map fst es)" using assms(5) by (induction es) auto
  then have "sorted (map fst (l @ es))"
    using legal_sorted [OF assms(1-3)] assms(4,5) by (auto simp: sorted_append)
  moreover have "fst (last (l @ es)) = T" using assms(5,6) by (cases "es = []") (auto intro: last_in_set)
  ultimately show ?thesis using assms(1) ne by (auto simp: canon_ok_def)
qed

section \<open>Elections\<close>

text \<open>The voter's check: the candidate's last entry is of a later term, or of the same at no smaller index.\<close>

definition reaches_entry :: "u64 \<Rightarrow> nat \<Rightarrow> u64 \<Rightarrow> nat \<Rightarrow> bool" where
  "reaches_entry lastT lastI T j \<longleftrightarrow> T < lastT \<or> T = lastT \<and> j \<le> lastI"

lemma voter_reaches:
  assumes "sorted (map fst l)" "has l j T" "fst (last l) < lastT \<or> fst (last l) = lastT \<and> length l - 1 \<le> lastI"
  shows "reaches_entry lastT lastI T j"
proof -
  have j: "j < length l" "fst (l ! j) = T" using assms(2) by (simp_all add: has_def)
  then have "T \<le> fst (last l)" using sorted_last [OF assms(1) j(1)] by simp
  with assms(3) j(1) show ?thesis by (auto simp: reaches_entry_def)
qed

lemma candidate_has:
  assumes "canon_ok h" "legal h l" "reaches_entry (fst (last l)) (length l - 1) T j" "T \<in> fst ` elected h"
    "has (canon h T) j T"
  shows "has l j T \<or> lost h T (fst (last l)) j"
proof -
  let ?W = "fst (last l)" and ?k = "length l - 1"
  have ne: "l \<noteq> []" using assms(2) by (auto simp: legal_def)
  then have k: "?k < length l" "l ! ?k = last l" by (simp_all add: last_conv_nth)
  have hw: "has l ?k ?W" using k by (simp add: has_def)
  show ?thesis
  proof (cases "T = ?W")
    case True
    with assms(3) have j: "j \<le> ?k" by (auto simp: reaches_entry_def)
    have "take (Suc ?k) l = take (Suc ?k) (canon h ?W)" using assms(2) k unfolding legal_def by metis
    from take_Suc_has [OF this k(1) j] assms(5) True show ?thesis by simp
  next
    case False
    with assms(3) have lt: "T < ?W" by (auto simp: reaches_entry_def)
    then have "?W \<noteq> 0" by (metis word_not_simps(1))
    note w = legal_has [OF assms(2) hw this]
    show ?thesis
    proof (cases "has (canon h ?W) j T")
      case True
      have "j \<le> ?k"
      proof (rule ccontr)
        assume "\<not> j \<le> ?k"
        then have "?k \<le> j" by simp
        moreover have "sorted (map fst (canon h ?W))" using assms(1) w(1) unfolding canon_ok_def by blast
        ultimately have "fst (canon h ?W ! ?k) \<le> fst (canon h ?W ! j)"
          using True sorted_nth_mono [of "map fst (canon h ?W)" ?k j] by (simp add: has_def)
        with True w(3) lt show False by (simp add: has_def)
      qed
      from take_Suc_has [OF w(2) k(1) this] True show ?thesis by simp
    next
      case F: False
      with lt w(1) show ?thesis unfolding lost_def by blast
    qed
  qed
qed

section \<open>The follower's log\<close>

text \<open>What becomes of a log when a piece of the leader's log arrives: it is kept if it has the piece, and else replaced.\<close>

definition overwrite :: "plainEntry list \<Rightarrow> plainEntry list \<Rightarrow> plainEntry list" where
  "overwrite l es = (if take (length es) l = es then l else es)"

lemma overwrite_keeps:
  assumes "take (Suc j) l = take (Suc j) c" "j < length l" "es = take k c"
  shows "take (Suc j) (overwrite l es) = take (Suc j) l \<and> j < length (overwrite l es)"
proof (cases "take (length es) l = es")
  case True
  with assms(2) show ?thesis by (simp add: overwrite_def)
next
  case False
  have jc: "j < length c"
  proof -
    have "length (take (Suc j) l) = length (take (Suc j) c)" using assms(1) by simp
    with assms(2) show ?thesis by simp
  qed
  have "Suc j \<le> k"
  proof (rule ccontr)
    assume "\<not> Suc j \<le> k"
    then have k: "k \<le> Suc j" by simp
    then have "take k l = take k c" using arg_cong [OF assms(1), of "take k"] by (simp add: min_def)
    moreover have "length es = k" using assms(3) k jc by simp
    ultimately show False using False assms(3) by simp
  qed
  with False assms jc show ?thesis by (simp add: overwrite_def min_def)
qed

lemma overwrite_set: "set (overwrite l es) \<subseteq> set l \<union> set es"
  by (auto simp: overwrite_def)

lemma overwrite_has:
  assumes "has es j T"
  shows "has (overwrite l es) j T"
proof (cases "take (length es) l = es")
  case True
  have j: "j < length es" using assms by (simp add: has_def)
  then have "j < length l" "l ! j = es ! j"
    using arg_cong [OF True, of length] arg_cong [OF True, of "\<lambda>x. x ! j"] by simp_all
  with assms True show ?thesis by (simp add: overwrite_def has_def)
qed (use assms in \<open>simp add: overwrite_def\<close>)

section \<open>What nodes store\<close>

definition stores_ok ::
  "nat \<Rightarrow> history \<Rightarrow> stores \<Rightarrow> (nat \<Rightarrow> u64) \<Rightarrow> (nat \<Rightarrow> plainEntry list) \<Rightarrow> bool" where
  "stores_ok n h A cur logs \<longleftrightarrow>
     (\<forall>T v j. (T, v, j) \<in> A \<longrightarrow> v < n \<and> T \<noteq> 0 \<and> T \<in> fst ` elected h \<and> has (canon h T) j T \<and> T \<le> cur v) \<and>
     (\<forall>T v j i. (T, v, j) \<in> A \<longrightarrow> i \<le> j \<longrightarrow> has (canon h T) i T \<longrightarrow> (T, v, i) \<in> A) \<and>
     (\<forall>T v j. (T, v, j) \<in> A \<longrightarrow> has (logs v) j T \<or> lost h T (cur v) j) \<and>
     (\<forall>v < n. \<forall>j. cur v \<noteq> 0 \<longrightarrow> has (logs v) j (cur v) \<longrightarrow> (cur v, v, j) \<in> A)"

lemma stores_okD:
  assumes "stores_ok n h A cur logs"
  shows "(T, v, j) \<in> A \<Longrightarrow> v < n \<and> T \<noteq> 0 \<and> T \<in> fst ` elected h \<and> has (canon h T) j T \<and> T \<le> cur v"
    "(T, v, j) \<in> A \<Longrightarrow> i \<le> j \<Longrightarrow> has (canon h T) i T \<Longrightarrow> (T, v, i) \<in> A"
    "(T, v, j) \<in> A \<Longrightarrow> has (logs v) j T \<or> lost h T (cur v) j"
    "v < n \<Longrightarrow> cur v \<noteq> 0 \<Longrightarrow> has (logs v) j (cur v) \<Longrightarrow> (cur v, v, j) \<in> A"
  using assms unfolding stores_ok_def by blast+

text \<open>After a step of node \<open>b\<close> it has stored what its log then has of its term.\<close>

definition storing :: "u64 \<Rightarrow> nat \<Rightarrow> plainEntry list \<Rightarrow> stores \<Rightarrow> stores" where
  "storing T b l A = A \<union> {(U, v, j). U = T \<and> v = b \<and> T \<noteq> 0 \<and> has l j T}"

lemma storing_iff: "(U, v, j) \<in> storing T b l A \<longleftrightarrow> (U, v, j) \<in> A \<or> U = T \<and> v = b \<and> T \<noteq> 0 \<and> has l j T"
  by (auto simp: storing_def)

lemma stores_step:
  assumes "stores_ok n h A cur logs" "grows h h'" "b < n" "\<And>v. v \<noteq> b \<Longrightarrow> cur' v = cur v \<and> logs' v = logs v"
    "cur b \<le> cur' b" "legal h' (logs' b)"
    and kept: "\<And>T j. (T, b, j) \<in> A \<Longrightarrow> has (logs b) j T \<Longrightarrow> has (logs' b) j T \<or> lost h' T (cur' b) j"
  shows "stores_ok n h' (storing (cur' b) b (logs' b) A) cur' logs'"
proof -
  let ?A = "storing (cur' b) b (logs' b) A"
  note old = stores_okD [OF assms(1)]
  have cur: "cur v \<le> cur' v" for v using assms(4,5) by (cases "v = b") auto
  have 1: "v < n \<and> T \<noteq> 0 \<and> T \<in> fst ` elected h' \<and> has (canon h' T) j T \<and> T \<le> cur' v" if "(T, v, j) \<in> ?A" for T v j
  proof (cases "(T, v, j) \<in> A")
    case True
    from old(1) [OF this] grows_has(1) [OF assms(2)] grows_elected [OF assms(2)] cur [of v] show ?thesis
      by (meson order_trans)
  next
    case False
    with that have n: "T = cur' b" "v = b" "T \<noteq> 0" "has (logs' b) j T" by (auto simp: storing_iff)
    with legal_has [OF assms(6) n(4,3)] assms(3) show ?thesis by simp
  qed
  have 2: "(T, v, i) \<in> ?A" if "(T, v, j) \<in> ?A" "i \<le> j" "has (canon h' T) i T" for T v j i
  proof (cases "(T, v, j) \<in> A")
    case True
    from old(1) [OF this] have t: "T \<in> fst ` elected h" "has (canon h T) j T" by blast+
    with that(2) have "i < length (canon h T)" by (simp add: has_def)
    with grows_has(3) [OF assms(2) t(1)] that(3) have "has (canon h T) i T" by blast
    from old(2) [OF True that(2) this] show ?thesis by (simp add: storing_iff)
  next
    case False
    with that have n: "T = cur' b" "v = b" "T \<noteq> 0" "has (logs' b) j T" by (auto simp: storing_iff)
    have "j < length (logs' b)" using n(4) by (simp add: has_def)
    from take_Suc_has [OF legal_has(2) [OF assms(6) n(4,3)] this that(2)] that(3) n show ?thesis
      by (simp add: storing_iff)
  qed
  have 3: "has (logs' v) j T \<or> lost h' T (cur' v) j" if "(T, v, j) \<in> ?A" for T v j
  proof (cases "(T, v, j) \<in> A")
    case True
    from old(3) [OF this] show ?thesis
    proof
      assume "has (logs v) j T"
      with True kept assms(4) show ?thesis by (cases "v = b") auto
    next
      assume "lost h T (cur v) j"
      with lost_later [OF lost_grows [OF assms(2)] cur] show ?thesis by blast
    qed
  next
    case False
    with that show ?thesis by (auto simp: storing_iff)
  qed
  have 4: "(cur' v, v, j) \<in> ?A" if "v < n" "cur' v \<noteq> 0" "has (logs' v) j (cur' v)" for v j
    using that assms(4) old(4) by (cases "v = b") (auto simp: storing_iff)
  show ?thesis unfolding stores_ok_def using 1 2 3 4 by blast
qed

text \<open>A piece of a leader's log of the node's term overwrites nothing but what that leader lacks.\<close>

lemma kept_by_piece:
  assumes "legal h l" "has l j T" "T \<noteq> 0" "T \<le> U" "U \<in> fst ` elected h" "legal h (canon h U)" "es = take k (canon h U)"
  shows "has (overwrite l es) j T \<or> lost h T U j"
proof (cases "has (canon h U) j T")
  case False
  have "T \<noteq> U" using legal_has(3) [OF assms(1-3)] False by auto
  with assms(4,5) False show ?thesis unfolding lost_def by (metis order.not_eq_order_implies_strict order_refl)
next
  case True
  have j: "j < length l" using assms(2) by (simp add: has_def)
  have "take (Suc j) l = take (Suc j) (canon h U)"
    using legal_has(2) [OF assms(1-3)] legal_has(2) [OF assms(6) True assms(3)] by simp
  note o = overwrite_keeps [OF this j assms(7)]
  from take_Suc_has [of j l "overwrite l es" j T] o j assms(2) show ?thesis by auto
qed

text \<open>Quorums of earlier elections stay, since a node that has reached the term stores nothing of an earlier one.\<close>

lemma quorums_step:
  assumes "quorums_ok quorum h A cur" "grows h h'" "\<And>v. cur v \<le> cur' v"
    and new: "\<And>T'. T' \<in> fst ` elected h' \<Longrightarrow> T' \<notin> fst ` elected h \<Longrightarrow> \<exists>Q. quorum Q \<and> (\<forall>v \<in> Q. T' \<le> cur' v \<and>
      (\<forall>T j. (T, v, j) \<in> A \<longrightarrow> T < T' \<longrightarrow> has (canon h' T') j T \<or> (\<exists>U < T'. lost h' T U j)))"
  shows "quorums_ok quorum h' (storing (cur' b) b l A) cur'"
  unfolding quorums_ok_def
proof
  fix T' assume T': "T' \<in> fst ` elected h'"
  have "\<exists>Q. quorum Q \<and> (\<forall>v \<in> Q. T' \<le> cur' v \<and>
      (\<forall>T j. (T, v, j) \<in> A \<longrightarrow> T < T' \<longrightarrow> has (canon h' T') j T \<or> (\<exists>U < T'. lost h' T U j)))"
  proof (cases "T' \<in> fst ` elected h")
    case True
    then obtain Q where Q: "quorum Q" "\<And>v. v \<in> Q \<Longrightarrow> T' \<le> cur v"
      "\<And>v T j. v \<in> Q \<Longrightarrow> (T, v, j) \<in> A \<Longrightarrow> T < T' \<Longrightarrow> has (canon h T') j T \<or> (\<exists>U < T'. lost h T U j)"
      using assms(1) unfolding quorums_ok_def by meson
    have "T' \<le> cur' v" if "v \<in> Q" for v using Q(2) [OF that] assms(3) by (rule order_trans)
    with Q(1,3) grows_has(1) [OF assms(2) True] lost_grows [OF assms(2)] show ?thesis by meson
  qed (rule new [OF T'])
  then obtain Q where Q: "quorum Q" "\<And>v. v \<in> Q \<Longrightarrow> T' \<le> cur' v"
    "\<And>v T j. v \<in> Q \<Longrightarrow> (T, v, j) \<in> A \<Longrightarrow> T < T' \<Longrightarrow> has (canon h' T') j T \<or> (\<exists>U < T'. lost h' T U j)"
    by meson
  have "(T, v, j) \<in> A" if "(T, v, j) \<in> storing (cur' b) b l A" "v \<in> Q" "T < T'" for T v j
    using that Q(2) [OF that(2)] by (auto simp: storing_iff)
  with Q show "\<exists>Q. quorum Q \<and> (\<forall>v \<in> Q. T' \<le> cur' v \<and> (\<forall>T j. (T, v, j) \<in> storing (cur' b) b l A \<longrightarrow> T < T' \<longrightarrow>
      has (canon h' T') j T \<or> (\<exists>U < T'. lost h' T U j)))" by meson
qed

section \<open>Safe commit indices\<close>

text \<open>A node of term \<open>T'\<close> may have the commit index \<open>i\<close> if its log is, up to there, the log of a leader that has committed as much.\<close>

definition safe_commit ::
  "(nat set \<Rightarrow> bool) \<Rightarrow> history \<Rightarrow> stores \<Rightarrow> plainEntry list \<Rightarrow> u64 \<Rightarrow> nat \<Rightarrow> bool" where
  "safe_commit quorum h A l T' i \<longleftrightarrow> i = 0 \<or> (\<exists>T j. committed quorum h A T j \<and> T \<le> T' \<and> i \<le> j \<and>
     i < length l \<and> take (Suc i) l = take (Suc i) (canon h T))"

lemma safe_commit_0 [simp]: "safe_commit quorum h A l T' 0"
  by (simp add: safe_commit_def)

lemma safe_commitI:
  "committed quorum h A T j \<Longrightarrow> T \<le> T' \<Longrightarrow> i \<le> j \<Longrightarrow> i < length l \<Longrightarrow> take (Suc i) l = take (Suc i) (canon h T) \<Longrightarrow>
     safe_commit quorum h A l T' i"
  unfolding safe_commit_def by blast

lemma safe_commit_grows:
  assumes "grows h h'" "A \<subseteq> A'" "T' \<le> T''" "safe_commit quorum h A l T' i"
  shows "safe_commit quorum h' A' l T'' i"
proof (cases "i = 0")
  case False
  with assms(4) obtain T j where c: "committed quorum h A T j" "T \<le> T'" "i \<le> j" "i < length l"
    "take (Suc i) l = take (Suc i) (canon h T)" by (auto simp: safe_commit_def)
  have t: "T \<in> fst ` elected h" "i < length (canon h T)" using c(1,3) by (auto simp: committed_def has_def)
  show ?thesis
    by (rule safe_commitI [OF committed_grows [OF assms(1,2) c(1)] order_trans [OF c(2) assms(3)] c(3,4)])
      (use c(5) grows_has(4) [OF assms(1) t] in simp)
qed simp

lemma safe_commit_take:
  assumes "safe_commit quorum h A l T' i" "i' \<le> i" "take (Suc i') l' = take (Suc i') l" "i' < length l'"
  shows "safe_commit quorum h A l' T' i'"
proof (cases "i = 0")
  case False
  with assms(1) obtain T j where c: "committed quorum h A T j" "T \<le> T'" "i \<le> j"
    "take (Suc i) l = take (Suc i) (canon h T)" by (auto simp: safe_commit_def)
  have "take (Suc i') l = take (Suc i') (canon h T)"
    using arg_cong [OF c(4), of "take (Suc i')"] assms(2) by (simp add: min_def)
  with assms(2-4) c show ?thesis by (intro safe_commitI [OF c(1,2)]) simp_all
qed (use assms(2) in simp)

text \<open>A later leader has what is committed, so its log agrees with that of the node.\<close>

context quorum_system
begin

lemma leader_agrees:
  assumes "quorums_ok quorum h A cur" "\<And>T. T \<in> fst ` elected h \<Longrightarrow> T \<noteq> 0 \<and> legal h (canon h T)"
    and "committed quorum h A T j" "T \<le> U" "U \<in> fst ` elected h" "i \<le> j"
  shows "i < length (canon h U) \<and> take (Suc i) (canon h U) = take (Suc i) (canon h T)"
proof -
  have u: "has (canon h U) j T" by (rule leader_complete [OF assms(1,3,5,4)])
  have "T \<noteq> 0" using assms(2,3) by (auto simp: committed_def)
  with legal_has(2) [OF _ u] assms(2,5) have "take (Suc j) (canon h U) = take (Suc j) (canon h T)" by blast
  from arg_cong [OF this, of "take (Suc i)"] u assms(6) show ?thesis by (simp add: min_def has_def)
qed

lemma safe_commit_leader:
  assumes "quorums_ok quorum h A cur" "\<And>T. T \<in> fst ` elected h \<Longrightarrow> T \<noteq> 0 \<and> legal h (canon h T)"
    and "safe_commit quorum h A l T' i" "i \<noteq> 0" "T' \<le> U" "U \<in> fst ` elected h"
  shows "i < length (canon h U) \<and> take (Suc i) l = take (Suc i) (canon h U)"
proof -
  obtain T j where c: "committed quorum h A T j" "T \<le> T'" "i \<le> j" "take (Suc i) l = take (Suc i) (canon h T)"
    using assms(3,4) by (auto simp: safe_commit_def)
  from leader_agrees [OF assms(1,2) c(1) order_trans [OF c(2) assms(5)] assms(6) c(3)] c(4) show ?thesis by simp
qed

lemma safe_commit_overwrite:
  assumes "quorums_ok quorum h A cur" "\<And>T. T \<in> fst ` elected h \<Longrightarrow> T \<noteq> 0 \<and> legal h (canon h T)"
    and "safe_commit quorum h A l T' i" "T' \<le> U" "U \<in> fst ` elected h" "es = take k (canon h U)"
  shows "safe_commit quorum h A (overwrite l es) U i"
proof (cases "i = 0")
  case False
  then obtain T j where c: "committed quorum h A T j" "T \<le> T'" "i \<le> j" "i < length l"
    "take (Suc i) l = take (Suc i) (canon h T)" using assms(3) by (auto simp: safe_commit_def)
  have "take (Suc i) l = take (Suc i) (canon h U)"
    using safe_commit_leader [OF assms(1,2,3) False assms(4,5)] by simp
  from overwrite_keeps [OF this c(4) assms(6)] c(5)
  show ?thesis by (intro safe_commitI [OF c(1) order_trans [OF c(2) assms(4)] c(3)]) simp_all
qed simp

text \<open>State Machine Safety: what two nodes have both committed is the same.\<close>

lemma safe_commit_agree:
  assumes "quorums_ok quorum h A cur" "\<And>T. T \<in> fst ` elected h \<Longrightarrow> T \<noteq> 0 \<and> legal h (canon h T)"
    and "safe_commit quorum h A l T i" "safe_commit quorum h A l' T' i'" "legal h l" "legal h l'"
    and "k \<le> i" "k \<le> i'"
  shows "take (Suc k) l = take (Suc k) l'"
proof (cases "i = 0 \<or> i' = 0")
  case True
  with assms(7,8) have "k = 0" by auto
  with assms(5,6) show ?thesis by (simp add: legal_def)
next
  case False
  with assms(3,4) obtain W j W' j' where c: "committed quorum h A W j" "i \<le> j" "take (Suc i) l = take (Suc i) (canon h W)"
    "committed quorum h A W' j'" "i' \<le> j'" "take (Suc i') l' = take (Suc i') (canon h W')"
    by (auto simp: safe_commit_def)
  have e: "W \<in> fst ` elected h" "W' \<in> fst ` elected h" using c(1,4) by (simp_all add: committed_def)
  have k: "k \<le> j" "k \<le> j'" using assms(7,8) c(2,5) by simp_all
  have "take (Suc k) (canon h W) = take (Suc k) (canon h W')"
  proof (cases "W \<le> W'")
    case True
    from leader_agrees [OF assms(1,2) c(1) True e(2) k(1)] show ?thesis by simp
  next
    case False
    then have "W' \<le> W" by simp
    from leader_agrees [OF assms(1,2) c(4) this e(1) k(2)] show ?thesis by simp
  qed
  with arg_cong [OF c(3), of "take (Suc k)"] arg_cong [OF c(6), of "take (Suc k)"] assms(7,8)
  show ?thesis by (simp add: min_def)
qed

end

end
