(* ===== verification/Commit_Moves.thy ===== *)
theory Commit_Moves
  imports Node_Moves
begin

text \<open>
  How a locked section moves the commit index and the match indices of a node: what a cluster
  needs to know beyond Node_Moves for the argument that committed entries are never lost.
\<close>

section \<open>Moves of the commit index\<close>

text \<open>A leader commits the greatest index that a majority acknowledges, and writes nothing.\<close>

definition leader_commits :: "('sm, 'st) Server \<Rightarrow> ('sm, 'st) Server \<Rightarrow> bool" where
  "leader_commits s t \<longleftrightarrow> role s = leaderState \<and> role t = leaderState \<and> raftLog t = raftLog s \<and>
     currentTerm t = currentTerm s \<and> commitIndex s \<le> commitIndex t \<and>
     unat (commitIndex t) < length (raftLog s) \<and> acked s (unat (commitIndex t)) \<and>
     (\<forall>j. unat (commitIndex t) < j \<longrightarrow> j < length (raftLog s) \<longrightarrow> \<not> acked s j)"

text \<open>A leader's match indices are those it had, or 0 for a new leader.\<close>

definition match_kept :: "('sm, 'st) Server \<Rightarrow> ('sm, 'st) Server \<Rightarrow> bool" where
  "match_kept s t \<longleftrightarrow> (role t = leaderState \<longrightarrow>
     (\<forall>i < length (cluster t). matchIndex (cluster t ! i) = 0 \<or>
        role s = leaderState \<and> matchIndex (cluster t ! i) = matchIndex (cluster s ! i)))"

definition commit_moves :: "('sm, 'st) Server \<Rightarrow> ('sm, 'st) Server \<Rightarrow> bool" where
  "commit_moves s t \<longleftrightarrow> (noConfig (raftLog t) \<longrightarrow>
     (commitIndex t = commitIndex s \<or> leader_commits s t) \<and> match_kept s t)"

lemma match_kept_same:
  "(role t = leaderState \<Longrightarrow> role s = leaderState) \<Longrightarrow>
     (\<And>i. matchIndex (cluster t ! i) = matchIndex (cluster s ! i)) \<Longrightarrow> match_kept s t"
  by (auto simp: match_kept_def)

lemma commit_moves_same:
  "commitIndex t = commitIndex s \<Longrightarrow> role t = role s \<Longrightarrow> cluster t = cluster s \<Longrightarrow> commit_moves s t"
  by (auto simp: commit_moves_def match_kept_def)

lemma commit_moves_other:
  "commitIndex t = commitIndex s \<Longrightarrow> role t \<noteq> leaderState \<Longrightarrow> commit_moves s t"
  by (simp add: commit_moves_def match_kept_def)

lemma commit_moves_refl [simp]: "commit_moves s s"
  by (rule commit_moves_same) simp_all

lemma agree_commit: "agree s t \<Longrightarrow> commit_moves s t"
  by (rule commit_moves_same) (simp_all add: agree_def)

section \<open>The operations of the main loop\<close>

lemma reset_commit:
  assumes "node_ok s" "resetElectionTimeout s = Inr t"
  shows "commit_moves s t"
proof -
  have "0 < heartbeatMs s" using assms(1) by (simp add: node_ok_def)
  then obtain t' where "resetElectionTimeout s = Inr t'" "agree s t'"
    by (rule resetElectionTimeout_ok)
  with assms(2) agree_commit show ?thesis by simp
qed

lemma heartbeat_commit: "heartbeat s = (is, t) \<Longrightarrow> commit_moves s t"
  by (rule commit_moves_same) (auto simp: heartbeat_def Now_def Let_def split: if_splits)

lemma applyEntry_keeps:
  "applyEntry e s = Inr t \<Longrightarrow> raftLog t = raftLog s \<and> cluster t = cluster s \<and> role t = role s \<and>
     commitIndex t = commitIndex s \<and> currentTerm t = currentTerm s \<and> lastApplied t = lastApplied s"
  by (auto simp: applyEntry_def deliver_def chain_Inr_iff split: if_splits option.splits sum.splits prod.splits)

lemma advance_frame:
  assumes "advanceCommitIndex s = Inr t"
  shows "raftLog t = raftLog s" "cluster t = cluster s" "role t = role s" "currentTerm t = currentTerm s"
    "commitIndex t = commitIndex (advanceLeaderCommit s)"
proof -
  obtain c where c: "advanceLeaderCommit s = s\<lparr>commitIndex := c\<rparr>" using advanceLeaderCommit_frame by blast
  have "raftLog t = raftLog s \<and> cluster t = cluster s \<and> role t = role s \<and> currentTerm t = currentTerm s \<and>
      commitIndex t = commitIndex (advanceLeaderCommit s)"
    using assms unfolding advanceCommitIndex_def Let_def c
    by (auto simp: chain_Inr_iff dest!: applyEntry_keeps split: if_splits)
  then show "raftLog t = raftLog s" "cluster t = cluster s" "role t = role s" "currentTerm t = currentTerm s"
    "commitIndex t = commitIndex (advanceLeaderCommit s)" by blast+
qed

lemma advance_commit:
  assumes "node_ok s" "advanceCommitIndex s = Inr t"
  shows "commit_moves s t"
proof -
  have ne: "raftLog s \<noteq> []" "fits (length (raftLog s))" using assms(1) by (simp_all add: node_ok_def)
  note f = advance_frame [OF assms(2)]
  obtain c where c: "advanceLeaderCommit s = s\<lparr>commitIndex := c\<rparr>" "commitIndex s \<le> c"
    "if role s = leaderState \<and> (\<exists>j. unat (commitIndex s) < j \<and> j < length (raftLog s) \<and> acked s j)
     then unat (commitIndex s) < unat c \<and> unat c < length (raftLog s) \<and> acked s (unat c) \<and>
       (\<forall>j. unat c < j \<and> j < length (raftLog s) \<longrightarrow> \<not> acked s j)
     else c = commitIndex s"
    using advanceLeaderCommit_ok [OF ne] by blast
  have ct: "commitIndex t = c" using f(5) c(1) by simp
  have "commitIndex t = commitIndex s \<or> leader_commits s t"
  proof (cases "c = commitIndex s")
    case False
    with c(3) have "role s = leaderState" "unat c < length (raftLog s) \<and> acked s (unat c) \<and>
       (\<forall>j. unat c < j \<and> j < length (raftLog s) \<longrightarrow> \<not> acked s j)" by (metis (no_types, lifting))+
    with f ct c(2) show ?thesis by (simp add: leader_commits_def)
  qed (simp add: ct)
  moreover have "match_kept s t" using f by (intro match_kept_same) simp_all
  ultimately show ?thesis by (simp add: commit_moves_def)
qed

lemma timeout_commit:
  assumes "node_ok s" "timeout s = Inr (is, t)"
  shows "commit_moves s t"
proof (cases "\<not> Passive s \<and> electionTimeout s < clock s 0")
  case True
  then obtain t' where t': "timeout s = Inr (requestVote s, t')" "role t' = candidateState" "commitIndex t' = commitIndex s"
    using timeout_starts_election [OF assms(1)] by metis
  with assms(2) show ?thesis by (intro commit_moves_other) simp_all
next
  case False
  show ?thesis
  proof (cases "Passive s")
    case True
    with assms(2) timeout_waits(1) [of s] show ?thesis by simp
  next
    case P: False
    with False have "clock s 0 \<le> electionTimeout s" by simp
    from assms(2) timeout_waits(2) [OF P this] show ?thesis by (intro commit_moves_same) auto
  qed
qed

lemma becomeLeader_commit:
  assumes "node_ok s" "fits (Suc (length (raftLog s)))" "becomeLeader grow s = Inr t"
  shows "commit_moves s t"
proof (cases "majority (length (cluster s)) \<le> length (voters s)")
  case True
  obtain t' where t': "becomeLeader grow s = Inr t'" "commitIndex t' = commitIndex s"
    "cluster t' = map (\<lambda>m. m\<lparr>nextIndex := of_nat (length (raftLog s) + 1), matchIndex := 0\<rparr>) (cluster s)"
    by (rule becomeLeader_wins [OF assms(1,2) True])
  with assms(3) have "t = t'" by simp
  with t'(2,3) show ?thesis by (simp add: commit_moves_def match_kept_def)
next
  case False
  with assms(3) becomeLeader_waits [of s grow] show ?thesis by simp
qed

section \<open>Responses, handlers, clients\<close>

lemma updateTerm_role:
  assumes "node_ok s" "updateTerm msg s = Inr (b, t)"
  shows "if b then role t = followerState \<and> commitIndex t = commitIndex s else t = s"
proof -
  obtain t' where t': "updateTerm msg s = Inr (currentTerm s < Term msg, t')"
    "agree (adoptTerm (Term msg) s) t'" "\<not> currentTerm s < Term msg \<longrightarrow> t' = s"
    by (rule updateTerm_ok [OF assms(1)])
  with assms(2) show ?thesis by (auto simp: agree_def adoptTerm_def)
qed

lemma votedFor_match:
  "matchIndex ((ms[k := (ms ! k)\<lparr>votedFor := v\<rparr>]) ! i) = matchIndex (ms ! i)"
  by (cases "k < length ms") (auto simp: nth_list_update list_update_beyond)

lemma vote_response_commit:
  assumes "node_ok s" "handleVoteResponse i req rsp s = Inr t"
  shows "commit_moves s t"
proof -
  obtain b s1 where u: "updateTerm rsp s = Inr (b, s1)"
    using assms(2) by (auto simp: handleVoteResponse_def chain_Inr_iff)
  have "t = s1 \<or> \<not> b \<and> t = s1\<lparr>cluster := (cluster s1)[i := (cluster s1 ! i)\<lparr>votedFor := selfId s1\<rparr>]\<rparr>"
    using assms(2) u by (auto simp: handleVoteResponse_def split: if_splits)
  with updateTerm_role [OF assms(1) u] show ?thesis
    by (auto simp: commit_moves_def match_kept_def votedFor_match split: if_splits)
qed

lemma on_vote_commit:
  assumes "node_ok s" "HandleRequestVoteRequest req s = Inr (rsp, t)"
  shows "commit_moves s t" "raftLog t = raftLog s" "VoteGranted rsp \<longrightarrow> grantable req s"
proof -
  obtain t' where t': "HandleRequestVoteRequest req s
       = Inr (\<lparr>Term = max (currentTerm s) (Term req), VoteGranted = grantable req s\<rparr>, t')"
    "agree (if grantable req s then castVote (CandidateId req) (adoptTerm (Term req) s)
            else adoptTerm (Term req) s) t'"
    by (rule HandleRequestVoteRequest_ok [OF assms(1)])
  with assms(2) have t: "t = t'" "VoteGranted rsp = grantable req s" by auto
  let ?a = "adoptTerm (Term req) s"
  have a: "role t = role ?a" "commitIndex t = commitIndex s" "raftLog t = raftLog s"
    "cluster t = cluster ?a \<or> cluster t = cluster (castVote (CandidateId req) ?a)"
    using t'(2) t(1) by (auto simp: agree_def castVote_def adoptTerm_def split: if_splits)
  show "raftLog t = raftLog s" "VoteGranted rsp \<longrightarrow> grantable req s" using a(3) t(2) by simp_all
  show "commit_moves s t"
  proof (cases "currentTerm s < Term req")
    case True
    with a(1,2) show ?thesis by (intro commit_moves_other) (simp_all add: adoptTerm_def)
  next
    case False
    then have "?a = s" by (simp add: adoptTerm_def)
    with a have "match_kept s t" by (intro match_kept_same) (auto simp: castVote_def votedFor_match)
    with a(2) show ?thesis by (simp add: commit_moves_def)
  qed
qed

text \<open>The response of a member: its match index may become what the request covered.\<close>

lemma append_response_commit:
  assumes "node_ok s" "handleAppendResponse i req rsp s = Inr t"
  shows "commitIndex t = commitIndex s" "role t = leaderState \<longrightarrow> role s = leaderState"
    "role t = leaderState \<Longrightarrow> j < length (cluster t) \<Longrightarrow> matchIndex (cluster t ! j) = matchIndex (cluster s ! j) \<or>
       j = i \<and> Success rsp \<and> matchIndex (cluster t ! j) = max (PrevLogIndex req + of_nat (length (Entries req)) + 1) 1 - 1"
proof -
  obtain b s1 where u: "updateTerm rsp s = Inr (b, s1)"
    using assms(2) by (auto simp: handleAppendResponse_def chain_Inr_iff)
  note r = updateTerm_role [OF assms(1) u]
  let ?n = "max (PrevLogIndex req + of_nat (length (Entries req)) + 1) 1"
  have t: "t = s1 \<or> \<not> b \<and>
      (Success rsp \<and> t = s1\<lparr>cluster := (cluster s1)[i := (cluster s1 ! i)\<lparr>nextIndex := ?n, matchIndex := ?n - 1\<rparr>]\<rparr> \<or>
       t = s1\<lparr>cluster := (cluster s1)[i :=
              (cluster s1 ! i)\<lparr>nextIndex := max (nextIndex (cluster s1 ! i) - 1) 1\<rparr>]\<rparr>)"
    using assms(2) u by (auto simp: handleAppendResponse_def Let_def split: if_splits)
  show "commitIndex t = commitIndex s" "role t = leaderState \<longrightarrow> role s = leaderState"
    using t r by (auto split: if_splits)
  assume "role t = leaderState" "j < length (cluster t)"
  then show "matchIndex (cluster t ! j) = matchIndex (cluster s ! j) \<or>
       j = i \<and> Success rsp \<and> matchIndex (cluster t ! j) = ?n - 1"
    using t r by (cases "j = i") (auto split: if_splits)
qed

lemma on_append_commit:
  assumes "node_inv s" "HandleAppendEntriesRequest grow req s = Inr (rsp, t)" "wf_request req"
  shows "Success rsp = accepts req s" "currentTerm t = max (currentTerm s) (Term req)"
    "commitIndex t = (if accepts req s \<and> commitIndex s < LeaderCommit req
       then min (LeaderCommit req) (logLast (mergedLog req s)) else commitIndex s)"
    "match_kept s t"
proof -
  obtain t' where t': "HandleAppendEntriesRequest grow req s
       = Inr (\<lparr>Term = max (currentTerm s) (Term req), Success = accepts req s\<rparr>, t')"
    "currentTerm t' = max (currentTerm s) (Term req)"
    "commitIndex t' = (if accepts req s \<and> commitIndex s < LeaderCommit req
       then min (LeaderCommit req) (logLast (mergedLog req s)) else commitIndex s)"
    "role t' = (if currentTerm s < Term req \<or> Term req = currentTerm s \<and> role s = candidateState
       then followerState else role s)"
    by (rule HandleAppendEntriesRequest_ok [OF assms(1,3)])
  with assms(2) have t: "t = t'" "Success rsp = accepts req s" by auto
  show "Success rsp = accepts req s" "currentTerm t = max (currentTerm s) (Term req)"
    "commitIndex t = (if accepts req s \<and> commitIndex s < LeaderCommit req
       then min (LeaderCommit req) (logLast (mergedLog req s)) else commitIndex s)"
    using t t' by simp_all
  show "match_kept s t"
  proof (cases "role t = leaderState")
    case True
    then have l: "role s = leaderState" "\<not> currentTerm s < Term req" using t'(4) t(1) by (simp_all split: if_splits)
    then have "updateTerm req s = Inr (False, s)" "stepDown req s = s" by (simp_all add: updateTerm_def stepDown_def)
    from append_refuses [OF this(1)] this(2) l(1) assms(2) have "t = s" by simp
    with l(1) show ?thesis by (simp add: match_kept_def)
  qed (simp add: match_kept_def)
qed

lemma client_commit:
  assumes "node_ok s" "Apply grow cs s = Inr (r, t)" "cs \<noteq> []" "fits (length (raftLog s) + length cs)"
  shows "commit_moves s t"
proof (cases "role s = leaderState")
  case False
  with assms(2) show ?thesis by (simp add: Apply_def)
next
  case True
  obtain t' where t': "Apply grow cs s = Inr (Inr ([nextChan s..<nextChan s + length cs], appendEntries t'), t')"
    "role t' = leaderState" "cluster t' = cluster s" "commitIndex t' = commitIndex s"
    by (rule Apply_leader [OF assms(1) True assms(3) Apply_fit [OF assms(2) True assms(3)] assms(4)])
  with assms(2) True show ?thesis by (intro commit_moves_same) simp_all
qed

lemma add_commit:
  assumes "node_inv s" "AddServer grow i a s = Inr (q, t)" "fits (Suc (length (raftLog s)))"
  shows "commit_moves s t"
proof (cases "i \<noteq> 0 \<and> role s = leaderState \<and> pendingConfigChangeIndex s = 0 \<and> i \<notin> ids (cluster s) \<and>
    (\<exists>payload. encodeConfigChange (cluster s @ [newMember i a]) = Inr payload)")
  case False
  then have "t = s"
    using assms(2) by (cases "encodeConfigChange (cluster s @ [newMember i a])")
      (auto simp: AddServer_def ids_def split: if_splits)
  then show ?thesis by simp
next
  case True
  then obtain payload where req: "i \<noteq> 0" "role s = leaderState" "pendingConfigChangeIndex s = 0"
    "i \<notin> ids (cluster s)" "encodeConfigChange (cluster s @ [newMember i a]) = Inr payload" by blast
  obtain t' where t': "AddServer grow i a s = Inr (Inr (Some (nextChan s, appendEntries t')), t')"
    "raftLog t' = raftLog s @ [\<lparr>Command = payload, entryTerm = currentTerm s, result = Some (nextChan s)\<rparr>]"
    by (rule AddServer_appends [OF assms(1) req assms(3)])
  with assms(2) encoded_isConfigChange [OF req(5)] show ?thesis by (simp add: commit_moves_def)
qed

section \<open>The steps of a node\<close>

lemmas loop_commits = reset_commit heartbeat_commit advance_commit timeout_commit becomeLeader_commit

lemma loopStep_commit:
  assumes "node_ok s" "fits (Suc (length (raftLog s)))" "loopStep grow p s = Inr (p', gs, t)"
  shows "commit_moves s t"
  using assms by (cases p) (auto simp: chain_Inr_iff Let_def split: prod.splits intro: loop_commits)

lemma local_commit:
  assumes "local_step grow n m" "run_inv n"
  shows "commit_moves (server n) (server m)"
  using assms(1)
proof cases
  case (loop p gs s')
  with loopStep_commit [OF run_inv_parts(3) [OF assms(2)]] show ?thesis by simp
next
  case (client cs r s')
  with client_commit [OF run_inv_parts(3) [OF assms(2)]] show ?thesis by simp
next
  case (add i addr q s')
  with add_commit [OF run_inv_parts(2) [OF assms(2)]] show ?thesis by simp
next
  case stop
  then show ?thesis by (intro commit_moves_same) (simp_all add: Stop_def)
qed simp_all

end
