(* ===== verification/Cluster_Commit.thy ===== *)
theory Cluster_Commit
  imports Cluster_Safety Raft_Commit Commit_Moves
begin

text \<open>
  Committed entries are never lost: the stores and elections of Raft_Commit are carried along a
  run of the cluster beside the history of Cluster_Safety, as long as it is spared three more
  behaviours (see \<open>steady\<close>), and give Leader Completeness and State Machine Safety for the nodes.
\<close>

abbreviation logOf :: "('sm, 'st) Cluster \<Rightarrow> nat \<Rightarrow> plainEntry list" where
  "logOf c a \<equiv> plainLog (raftLog (srv c a))"

abbreviation termOf :: "('sm, 'st) Cluster \<Rightarrow> nat \<Rightarrow> u64" where
  "termOf c a \<equiv> currentTerm (srv c a)"

text \<open>The index of the last entry that a request leaves in the log.\<close>

definition covered :: "AppendEntriesRequest \<Rightarrow> nat" where
  "covered req = unat (PrevLogIndex req) + length (Entries req)"

section \<open>Steady steps\<close>

text \<open>
  In a steady step, besides being regular: a goroutine that builds an append request does so
  while its node leads (a late one may not, and sends as the leader of a term it does not lead);
  the request carries all the leader has, which is so unless the batch is full; and an answer
  that moves a leader's match index answers a request of its present term (see
  \<open>stale_append_response_counts\<close>). What the match index becomes follows from the program.
\<close>

definition steady :: "ClusterMember list \<Rightarrow> ('sm, 'st) Cluster \<Rightarrow> ('sm, 'st) Cluster \<Rightarrow> bool" where
  "steady cfg c c' \<longleftrightarrow> regular cfg c c' \<and>
     (\<forall>a i addr req. (a, i, addr, req) \<in> appendCalls c' \<longrightarrow> (a, i, addr, req) \<in> appendCalls c \<or>
        role (srv c a) = leaderState \<and> length (Entries req) < MAX_APPEND_ENTRIES_BATCH) \<and>
     (\<forall>a < length cfg. \<forall>i req. role (srv c' a) = leaderState \<and> ended (nodes c a) (nodes c' a) (AppendSent i req) \<and>
        matchIndex (cluster (srv c' a) ! i) \<noteq> matchIndex (cluster (srv c a) ! i) \<longrightarrow> Term req = currentTerm (srv c' a))"

inductive steady_run ::
  "ClusterMember list \<Rightarrow> (nat \<Rightarrow> nat \<Rightarrow> nat) \<Rightarrow> ('sm, 'st) Cluster \<Rightarrow> ('sm, 'st) Cluster \<Rightarrow> bool"
  for cfg grow c where
  start: "steady_run cfg grow c c"
| step: "steady_run cfg grow c c' \<Longrightarrow> cluster_step cfg grow c' c'' \<Longrightarrow> steady cfg c' c'' \<Longrightarrow>
    steady_run cfg grow c c''"

lemma steady_regular: "steady_run cfg grow c c' \<Longrightarrow> regular_run cfg grow c c'"
  by (induction rule: steady_run.induct) (auto intro: regular_run.intros simp: steady_def)

lemma steady_run_trans:
  "steady_run cfg grow c' c'' \<Longrightarrow> steady_run cfg grow c c' \<Longrightarrow> steady_run cfg grow c c''"
  by (induction rule: steady_run.induct) (auto intro: steady_run.step)

section \<open>What a steady step does to match indices\<close>

text \<open>
  Besides being lawful: a leader's match index that moved is what a success of its present term
  covered.
\<close>

definition firm :: "ClusterMember list \<Rightarrow> ('sm, 'st) Cluster \<Rightarrow> ('sm, 'st) Cluster \<Rightarrow> bool" where
  "firm cfg c c' \<longleftrightarrow> lawful cfg c c' \<and>
     (\<forall>a i addr req. (a, i, addr, req) \<in> appendCalls c' \<longrightarrow> (a, i, addr, req) \<in> appendCalls c \<or>
        role (srv c a) = leaderState \<and> length (Entries req) < MAX_APPEND_ENTRIES_BATCH) \<and>
     (\<forall>a < length cfg. \<forall>i < length cfg. role (srv c' a) = leaderState \<longrightarrow>
        matchIndex (cluster (srv c' a) ! i) = 0 \<or>
        matchIndex (cluster (srv c' a) ! i) = matchIndex (cluster (srv c a) ! i) \<or>
        (\<exists>req rsp. (a, i, req, rsp) \<in> appendAnswers c \<and> Success rsp \<and> Term req = currentTerm (srv c' a) \<and>
           unat (matchIndex (cluster (srv c' a) ! i)) = covered req))"

lemma covered_word:
  assumes "wf_request req"
  shows "unat (max (PrevLogIndex req + of_nat (length (Entries req)) + 1) 1 - 1) = covered req"
proof -
  have f: "fits (Suc (covered req))" using assms by (simp add: wf_request_def covered_def)
  then have u: "unat (of_nat (covered req) :: u64) = covered req"
    by (intro small_unat) (simp add: fits_def small_def)
  have e: "PrevLogIndex req + of_nat (length (Entries req)) = of_nat (covered req)"
    by (simp add: covered_def)
  have "unat (of_nat (covered req) + 1 :: u64) = Suc (covered req)"
    using unat_add_one [of "of_nat (covered req)"] f u by (simp add: fits_def)
  then have "(1 :: u64) \<le> of_nat (covered req) + 1" by (simp add: word_le_nat_alt)
  then have "max (of_nat (covered req) + 1 :: u64) 1 = of_nat (covered req) + 1" by (simp add: max_def)
  with u e show ?thesis by simp
qed

lemma match_keptD:
  "match_kept s t \<Longrightarrow> role t = leaderState \<Longrightarrow> i < length (cluster t) \<Longrightarrow>
     matchIndex (cluster t ! i) = 0 \<or> matchIndex (cluster t ! i) = matchIndex (cluster s ! i)"
  unfolding match_kept_def by blast

lemma step_matches:
  assumes "cluster_step cfg grow c c'" "cluster_inv cfg c" "a < length cfg" "noConfig (raftLog (srv c' a))"
    "role (srv c' a) = leaderState" "i < length (cluster (srv c' a))"
  shows "matchIndex (cluster (srv c' a) ! i) = 0 \<or>
    matchIndex (cluster (srv c' a) ! i) = matchIndex (cluster (srv c a) ! i) \<or>
    (\<exists>req rsp. (a, i, req, rsp) \<in> appendAnswers c \<and> Success rsp \<and> ended (nodes c a) (nodes c' a) (AppendSent i req) \<and>
       unat (matchIndex (cluster (srv c' a) ! i)) = covered req)"
proof (cases "nodes c' a = nodes c a")
  case False
  note inv = inv_node [OF assms(2,3)]
  have keep: ?thesis if "match_kept (srv c a) (srv c' a)"
    using match_keptD [OF that assms(5,6)] by blast
  have com: ?thesis if "commit_moves (srv c a) (srv c' a)"
    using that assms(4) keep unfolding commit_moves_def by blast
  show ?thesis
    using assms(1)
  proof cases
    case (own b m)
    with False have "a = b" "nodes c' a = m" by (simp_all split: if_splits)
    with local_commit [of grow "nodes c a" m] own(3) inv(1) com show ?thesis by simp
  next
    case (vote_call b xs j ys addr req)
    with False have "srv c' a = srv c a" by (simp split: if_splits)
    then show ?thesis by simp
  next
    case (vote_serve b j addr req d rsp s')
    with False have "a = d" "srv c' a = s'" by (simp_all split: if_splits)
    with on_vote_commit(1) [OF inv(4)] vote_serve(5) com show ?thesis by simp
  next
    case (vote_return b xs j req ys rsp s')
    with False have "a = b" "srv c' a = s'" by (simp_all split: if_splits)
    with vote_response_commit [OF inv(4)] vote_return(5) com show ?thesis by simp
  next
    case (append_call b xs j ys addr req)
    with False have "srv c' a = srv c a" by (simp split: if_splits)
    then show ?thesis by simp
  next
    case (append_serve b j addr req d rsp s')
    with False have "a = d" "srv c' a = s'" by (simp_all split: if_splits)
    moreover have "wf_request req" using append_serve(2) assms(2) unfolding cluster_inv_def by blast
    ultimately show ?thesis using on_append_commit(4) [OF inv(3)] append_serve(5) keep by blast
  next
    case (append_return b xs j req ys rsp s')
    with False have e: "a = b" "srv c' a = s'" "routines (nodes c' a) = xs @ ys" by (simp_all split: if_splits)
    have "ended (nodes c a) (nodes c' a) (AppendSent j req)"
      using e(1,3) append_return(3) by (simp add: ended_def)
    moreover have "wf_request req" using append_return(4) assms(2) unfolding cluster_inv_def by blast
    moreover have "handleAppendResponse j req rsp (srv c a) = Inr (srv c' a)" using append_return(5) e by simp
    ultimately show ?thesis
      using append_response_commit(3) [OF inv(4) _ assms(5,6)] append_return(4) e(1) covered_word by metis
  qed
qed simp

lemma step_firm:
  assumes "cluster_step cfg grow c c'" "cluster_inv cfg c" "lawful cfg c c'" "members_ok cfg c'" "steady cfg c c'"
  shows "firm cfg c c'"
  unfolding firm_def
proof (intro conjI)
  show "\<forall>a < length cfg. \<forall>i < length cfg. role (srv c' a) = leaderState \<longrightarrow>
        matchIndex (cluster (srv c' a) ! i) = 0 \<or>
        matchIndex (cluster (srv c' a) ! i) = matchIndex (cluster (srv c a) ! i) \<or>
        (\<exists>req rsp. (a, i, req, rsp) \<in> appendAnswers c \<and> Success rsp \<and> Term req = currentTerm (srv c' a) \<and>
           unat (matchIndex (cluster (srv c' a) ! i)) = covered req)"
  proof (intro allI impI)
    fix a i assume a: "a < length cfg" "i < length cfg" "role (srv c' a) = leaderState"
    have st: "noConfig (raftLog (srv c' a))" "addresses (cluster (srv c' a)) = addresses cfg"
      using assms(4) a(1) by (simp_all add: members_ok_def static_def)
    have "i < length (cluster (srv c' a))" using addresses_length [OF st(2)] a(2) by simp
    from step_matches [OF assms(1,2) a(1) st(1) a(3) this] assms(5) a(1,3)
    show "matchIndex (cluster (srv c' a) ! i) = 0 \<or>
        matchIndex (cluster (srv c' a) ! i) = matchIndex (cluster (srv c a) ! i) \<or>
        (\<exists>req rsp. (a, i, req, rsp) \<in> appendAnswers c \<and> Success rsp \<and> Term req = currentTerm (srv c' a) \<and>
           unat (matchIndex (cluster (srv c' a) ! i)) = covered req)"
      unfolding steady_def by blast
  qed
qed (use assms(3,5) in \<open>simp_all add: steady_def\<close>)

section \<open>What a step is to the commit index\<close>

text \<open>A node takes over a request.\<close>

definition takes :: "AppendEntriesRequest \<Rightarrow> ('sm, 'st) Server \<Rightarrow> ('sm, 'st) Server \<Rightarrow> bool" where
  "takes req s t \<longleftrightarrow> accepts req s \<and> role t = followerState \<and> currentTerm t = Term req \<and>
     raftLog t = mergedLog req s \<and>
     commitIndex t = (if commitIndex s < LeaderCommit req
       then min (LeaderCommit req) (logLast (mergedLog req s)) else commitIndex s)"

definition writes :: "('sm, 'st) Cluster \<Rightarrow> ('sm, 'st) Server \<Rightarrow> ('sm, 'st) Server \<Rightarrow> bool" where
  "writes c s t \<longleftrightarrow> log_moves s t \<and> (commitIndex t = commitIndex s \<or> leader_commits s t) \<or>
     (\<exists>a i addr req. (a, i, addr, req) \<in> appendCalls c \<and> takes req s t)"

definition sends :: "('sm, 'st) Cluster \<Rightarrow> nat \<Rightarrow> ('sm, 'st) Cluster \<Rightarrow> bool" where
  "sends c b c' \<longleftrightarrow> voteCalls c \<subseteq> voteCalls c' \<and> appendCalls c \<subseteq> appendCalls c' \<and>
     (\<forall>a i addr req. (a, i, addr, req) \<in> voteCalls c' \<longrightarrow> (a, i, addr, req) \<in> voteCalls c \<or>
        a = b \<and> srv c' b = srv c b \<and> buildRequestVote i (srv c b) = Inr (addr, req)) \<and>
     (\<forall>a i addr req. (a, i, addr, req) \<in> appendCalls c' \<longrightarrow> (a, i, addr, req) \<in> appendCalls c \<or>
        a = b \<and> srv c' b = srv c b \<and> buildAppendEntries i (srv c b) = Inr (addr, req))"

definition replies :: "('sm, 'st) Cluster \<Rightarrow> nat \<Rightarrow> ('sm, 'st) Cluster \<Rightarrow> bool" where
  "replies c b c' \<longleftrightarrow> voteAnswers c \<subseteq> voteAnswers c' \<and>
     (\<forall>a i req rsp. (a, i, req, rsp) \<in> voteAnswers c' \<longrightarrow> (a, i, req, rsp) \<in> voteAnswers c \<or>
        i = b \<and> (\<exists>addr. (a, i, addr, req) \<in> voteCalls c) \<and> (VoteGranted rsp \<longrightarrow> grantable req (srv c b) \<and>
          raftLog (srv c' b) = raftLog (srv c b) \<and> termOf c' b = Term req)) \<and>
     (\<forall>a i req rsp. (a, i, req, rsp) \<in> appendAnswers c' \<longrightarrow> (a, i, req, rsp) \<in> appendAnswers c \<or>
        i = b \<and> (\<exists>addr. (a, i, addr, req) \<in> appendCalls c) \<and> (Success rsp \<longrightarrow> takes req (srv c b) (srv c' b)))"

definition commit_acts ::
  "ClusterMember list \<Rightarrow> ('sm, 'st) Cluster \<Rightarrow> nat \<Rightarrow> ('sm, 'st) Cluster \<Rightarrow> bool" where
  "commit_acts cfg c b c' \<longleftrightarrow> acts cfg c b c' \<and> writes c (srv c b) (srv c' b) \<and> sends c b c' \<and> replies c b c' \<and>
     (role (srv c' b) = leaderState \<longrightarrow> role (srv c b) = leaderState \<or>
        (\<forall>i < length (cluster (srv c' b)). matchIndex (cluster (srv c' b) ! i) = 0))"

text \<open>Where append requests go.\<close>

definition addressed :: "ClusterMember list \<Rightarrow> ('sm, 'st) Cluster \<Rightarrow> bool" where
  "addressed cfg c \<longleftrightarrow> (\<forall>a i addr req. (a, i, addr, req) \<in> appendCalls c \<longrightarrow>
     a < length cfg \<and> i < length cfg \<and> addr = Address (cfg ! i))"

lemma appended_by:
  assumes "distinct (map Address cfg)" "addressed cfg c" "(a, i, addr, req) \<in> appendCalls c"
    "b < length cfg" "Address (cfg ! b) = addr"
  shows "i = b"
proof -
  have "i < length cfg" "Address (cfg ! i) = Address (cfg ! b)"
    using assms(2,3,5) unfolding addressed_def by metis+
  with assms(1,4) show ?thesis by (simp add: distinct_conv_nth) (metis length_map nth_map)
qed

lemma commit_moves_writes:
  "commit_moves s t \<Longrightarrow> log_moves s t \<Longrightarrow> noConfig (raftLog t) \<Longrightarrow> writes c s t \<and>
     (role t = leaderState \<longrightarrow> role s = leaderState \<or> (\<forall>i < length (cluster t). matchIndex (cluster t ! i) = 0))"
  unfolding commit_moves_def writes_def match_kept_def by blast

lemma writes_refl [simp]: "writes c s s"
  by (simp add: writes_def log_moves_def)

lemma grantable_moves:
  assumes "node_ok s" "HandleRequestVoteRequest req s = Inr (rsp, t)" "VoteGranted rsp"
  shows "grantable req s \<and> raftLog t = raftLog s \<and> currentTerm t = Term req"
  using on_vote_commit [OF assms(1,2)] on_vote_moves(2) [OF assms(1,2)] assms(3) by blast

lemma handler_takes:
  assumes "node_inv s" "HandleAppendEntriesRequest grow req s = Inr (rsp, t)" "wf_request req" "accepts req s"
  shows "takes req s t"
proof -
  note m = on_append_moves [OF assms(1-3)] and k = on_append_commit [OF assms(1-3)]
  have "max (currentTerm s) (Term req) = Term req" using assms(4) by (auto simp: accepts_iff)
  then show ?thesis using m(2,3) k(2,3) assms(4) by (simp add: takes_def)
qed

lemma step_commit_acts:
  assumes "cluster_step cfg grow c c'" "cluster_inv cfg c" "calls_ok cfg c" "addressed cfg c"
    "distinct (map Address cfg)" "members_ok cfg c'"
  obtains b where "commit_acts cfg c b c'"
proof -
  have nc: "noConfig (raftLog (srv c' a))" if "a < length cfg" for a
    using assms(6) that by (simp add: members_ok_def static_def)
  have "\<exists>b. commit_acts cfg c b c'"
    using assms(1)
  proof cases
    case (own a m)
    have r: "run_inv (nodes c a)" using own(2) assms(2) by (simp add: cluster_inv_def)
    have "acts cfg c a c'"
    proof -
      have "moves (srv c a) (server m)" by (rule local_moves [OF own(3) r])
      with own moves_parts(1,2) [OF this] show ?thesis by (simp add: acts_def)
    qed
    moreover note commit_moves_writes [OF local_commit [OF own(3) r] moves_parts(2) [OF local_moves [OF own(3) r]]]
    ultimately show ?thesis
      using own nc [OF own(2)] by (intro exI [of _ a]) (simp add: commit_acts_def sends_def replies_def subset_insertI)
  next
    case (vote_call a xs i ys addr req)
    with moves_parts(1,2) [OF moves_refl [of "srv c a"]] have "acts cfg c a c'" by (simp add: acts_def)
    with vote_call show ?thesis
      by (intro exI [of _ a]) (simp add: commit_acts_def sends_def replies_def subset_insertI)
  next
    case (vote_serve a i addr req b rsp s')
    have ok: "node_ok (srv c b)" by (rule inv_node(4) [OF assms(2) vote_serve(3)])
    note m = on_vote_moves [OF ok vote_serve(5)] and k = on_vote_commit [OF ok vote_serve(5)]
      and g = grantable_moves [OF ok vote_serve(5)]
    have i: "i = b" by (rule served_by [OF assms(5,3) vote_serve(2,3,4)])
    with vote_serve moves_parts(1,2) [OF m(1)] m(2) have a: "acts cfg c b c'" by (simp add: acts_def)
    have "noConfig (raftLog s')" using nc [OF vote_serve(3)] vote_serve(1) by simp
    note w = commit_moves_writes [OF k(1) moves_parts(2) [OF m(1)] this]
    have "replies c b c'" using vote_serve i g unfolding replies_def by auto
    with a w vote_serve(1) show ?thesis
      by (intro exI [of _ b]) (simp add: commit_acts_def sends_def subset_insertI)
  next
    case (vote_return a xs i req ys rsp s')
    have ok: "node_ok (srv c a)" by (rule inv_node(4) [OF assms(2) vote_return(2)])
    note m = vote_response_moves [OF ok vote_return(5)]
    from vote_return moves_parts(1,2) [OF m] have a: "acts cfg c a c'" by (simp add: acts_def)
    have "noConfig (raftLog s')" using nc [OF vote_return(2)] vote_return(1) by simp
    note w = commit_moves_writes [OF vote_response_commit [OF ok vote_return(5)] moves_parts(2) [OF m] this]
    from a w vote_return(1) show ?thesis
      by (intro exI [of _ a]) (simp add: commit_acts_def sends_def replies_def subset_insertI)
  next
    case (append_call a xs i ys addr req)
    have ok: "node_ok (srv c a)" by (rule inv_node(4) [OF assms(2) append_call(2)])
    from append_call moves_parts(1,2) [OF moves_refl [of "srv c a"]] built_piece [OF ok append_call(4)]
    have "acts cfg c a c'" by (simp add: acts_def)
    with append_call show ?thesis
      by (intro exI [of _ a]) (simp add: commit_acts_def sends_def replies_def subset_insertI)
  next
    case (append_serve a i addr req b rsp s')
    have inv: "node_inv (srv c b)" "wf_request req"
      using inv_node(3) [OF assms(2) append_serve(3)] append_serve(2) assms(2) unfolding cluster_inv_def by blast+
    note m = on_append_moves [OF inv(1) append_serve(5) inv(2)] and k = on_append_commit [OF inv(1) append_serve(5) inv(2)]
      and t = handler_takes [OF inv(1) append_serve(5) inv(2)]
    have i: "i = b" by (rule appended_by [OF assms(5,4) append_serve(2,3,4)])
    have w: "writes c (srv c b) s'"
    proof (cases "accepts req (srv c b)")
      case True
      from t [OF this] append_serve(2) show ?thesis unfolding writes_def by blast
    next
      case False
      with m(2) k(3) show ?thesis by (simp add: writes_def log_moves_def)
    qed
    have l: "log_moves (srv c b) s' \<or> role s' = followerState \<and>
        (\<exists>a i addr req. (a, i, addr, req) \<in> appendCalls c \<and> validPreviousLog req (srv c b) \<and>
           raftLog s' = mergedLog req (srv c b))"
      using w unfolding writes_def takes_def accepts_iff by blast
    with append_serve m(1) have a: "acts cfg c b c'" by (simp add: acts_def)
    have "replies c b c'" using append_serve i t k(1) unfolding replies_def by auto
    moreover have "role s' = leaderState \<longrightarrow> role (srv c b) = leaderState \<or>
        (\<forall>i < length (cluster s'). matchIndex (cluster s' ! i) = 0)"
      using k(4) unfolding match_kept_def by blast
    ultimately show ?thesis using a w append_serve(1)
      by (intro exI [of _ b]) (simp add: commit_acts_def sends_def subset_insertI)
  next
    case (append_return a xs i req ys rsp s')
    have ok: "node_ok (srv c a)" by (rule inv_node(4) [OF assms(2) append_return(2)])
    note m = append_response_moves [OF ok append_return(5)] and k = append_response_commit [OF ok append_return(5)]
    from append_return moves_parts(1,2) [OF m] have a: "acts cfg c a c'" by (simp add: acts_def)
    have "writes c (srv c a) s'" using moves_parts(2) [OF m] k(1) by (simp add: writes_def)
    with a append_return(1) k(2) show ?thesis
      by (intro exI [of _ a]) (simp add: commit_acts_def sends_def replies_def subset_insertI)
  qed
  then show thesis using that by blast
qed

section \<open>What is carried along\<close>

text \<open>
  Votes: a candidate's requests tell its log; who granted one had stored nothing that the
  candidate need not have; and a candidate's votes were answers to its requests.
\<close>

definition vote_calls_ok :: "('sm, 'st) Cluster \<Rightarrow> bool" where
  "vote_calls_ok c \<longleftrightarrow> (\<forall>a i addr req. (a, i, addr, req) \<in> voteCalls c \<longrightarrow> Term req \<le> termOf c a \<and>
     (Term req = termOf c a \<and> role (srv c a) = candidateState \<longrightarrow>
        LastLogTerm req = fst (last (logOf c a)) \<and> unat (LastLogIndex req) = length (logOf c a) - 1))"

definition vote_answers_ok :: "('sm, 'st) Cluster \<Rightarrow> history \<Rightarrow> stores \<Rightarrow> bool" where
  "vote_answers_ok c h A \<longleftrightarrow>
     (\<forall>a i req rsp. (a, i, req, rsp) \<in> voteAnswers c \<longrightarrow> VoteGranted rsp \<longrightarrow>
        Term req \<le> termOf c i \<and> (\<exists>addr. (a, i, addr, req) \<in> voteCalls c)) \<and>
     (\<forall>a i req rsp T j. (a, i, req, rsp) \<in> voteAnswers c \<longrightarrow> VoteGranted rsp \<longrightarrow> (T, i, j) \<in> A \<longrightarrow> T < Term req \<longrightarrow>
        reaches_entry (LastLogTerm req) (unat (LastLogIndex req)) T j \<or> lost h T (Term req) j)"

definition vote_counts_ok :: "ClusterMember list \<Rightarrow> ('sm, 'st) Cluster \<Rightarrow> bool" where
  "vote_counts_ok cfg c \<longleftrightarrow>
     (\<forall>a < length cfg. \<forall>i < length cfg. role (srv c a) = candidateState \<longrightarrow> i \<noteq> a \<longrightarrow> counted (srv c a) i \<longrightarrow>
        (\<exists>req rsp. (a, i, req, rsp) \<in> voteAnswers c \<and> VoteGranted rsp \<and> Term req = termOf c a))"

definition votes_ok :: "ClusterMember list \<Rightarrow> ('sm, 'st) Cluster \<Rightarrow> history \<Rightarrow> stores \<Rightarrow> bool" where
  "votes_ok cfg c h A \<longleftrightarrow> vote_calls_ok c \<and> vote_answers_ok c h A \<and> vote_counts_ok cfg c"

text \<open>Append requests: a piece of the log of their term's leader, up to an entry of that term, with a safe commit index.\<close>

definition request_ok :: "ClusterMember list \<Rightarrow> history \<Rightarrow> stores \<Rightarrow> AppendEntriesRequest \<Rightarrow> bool" where
  "request_ok cfg h A req \<longleftrightarrow> Term req \<in> fst ` elected h \<and>
     (\<exists>es. piece_of req es \<and> length es = Suc (covered req) \<and>
        plainLog es = take (Suc (covered req)) (canon h (Term req))) \<and>
     has (canon h (Term req)) (covered req) (Term req) \<and> unat (LeaderCommit req) \<le> covered req \<and>
     safe_commit (majorityOf (length cfg)) h A (canon h (Term req)) (Term req) (unat (LeaderCommit req))"

definition appends_ok :: "ClusterMember list \<Rightarrow> ('sm, 'st) Cluster \<Rightarrow> history \<Rightarrow> stores \<Rightarrow> bool" where
  "appends_ok cfg c h A \<longleftrightarrow> addressed cfg c \<and>
     (\<forall>a i addr req. (a, i, addr, req) \<in> appendCalls c \<longrightarrow> request_ok cfg h A req) \<and>
     (\<forall>a i req rsp. (a, i, req, rsp) \<in> appendAnswers c \<longrightarrow> Success rsp \<longrightarrow> (Term req, i, covered req) \<in> A)"

text \<open>A leader's match indices are entries of its term that the members have stored.\<close>

definition matches_ok :: "ClusterMember list \<Rightarrow> ('sm, 'st) Cluster \<Rightarrow> stores \<Rightarrow> bool" where
  "matches_ok cfg c A \<longleftrightarrow> (\<forall>a < length cfg. \<forall>i < length cfg. role (srv c a) = leaderState \<longrightarrow> i \<noteq> a \<longrightarrow>
     matchIndex (cluster (srv c a) ! i) = 0 \<or> (termOf c a, i, unat (matchIndex (cluster (srv c a) ! i))) \<in> A)"

definition commits_ok :: "ClusterMember list \<Rightarrow> ('sm, 'st) Cluster \<Rightarrow> history \<Rightarrow> stores \<Rightarrow> bool" where
  "commits_ok cfg c h A \<longleftrightarrow> (\<forall>a < length cfg. (\<forall>e \<in> set (logOf c a). fst e \<le> termOf c a) \<and>
     safe_commit (majorityOf (length cfg)) h A (logOf c a) (termOf c a) (unat (commitIndex (srv c a))))"

definition tracks_commit ::
  "ClusterMember list \<Rightarrow> ('sm, MemStorage) Cluster \<Rightarrow> history \<Rightarrow> stores \<Rightarrow> bool" where
  "tracks_commit cfg c h A \<longleftrightarrow> tracks cfg c h \<and> canon_ok h \<and> stores_ok (length cfg) h A (termOf c) (logOf c) \<and>
     quorums_ok (majorityOf (length cfg)) h A (termOf c) \<and> votes_ok cfg c h A \<and> appends_ok cfg c h A \<and>
     matches_ok cfg c A \<and> commits_ok cfg c h A"

section \<open>One step\<close>

text \<open>The stores after a step of node \<open>b\<close>, and all that is known of the step.\<close>

abbreviation filed :: "('sm, 'st) Cluster \<Rightarrow> nat \<Rightarrow> stores \<Rightarrow> stores" where
  "filed c b A \<equiv> storing (termOf c b) b (logOf c b) A"

definition turn ::
  "ClusterMember list \<Rightarrow> ('sm, MemStorage) Cluster \<Rightarrow> nat \<Rightarrow> ('sm, MemStorage) Cluster \<Rightarrow> history \<Rightarrow> history \<Rightarrow> stores \<Rightarrow> bool" where
  "turn cfg c b c' h h' A \<longleftrightarrow> tracks_commit cfg c h A \<and> firm cfg c c' \<and> commit_acts cfg c b c' \<and> proper cfg \<and>
     h' = recorded c b c' h \<and> spec_run (length cfg) h h' \<and> tracks cfg c' h'"

lemma tracks_spec:
  assumes "tracks cfg c h"
  shows "spec_inv (length cfg) h" "a < length cfg \<Longrightarrow> legal h (logOf c a)"
    "T \<in> fst ` elected h \<Longrightarrow> T \<noteq> 0 \<and> legal h (canon h T)" "canon h 0 = [(0, [])]"
proof -
  show s: "spec_inv (length cfg) h" "a < length cfg \<Longrightarrow> legal h (logOf c a)"
    using assms by (simp_all add: tracks_def logs_ok_def)
  show "T \<in> fst ` elected h \<Longrightarrow> T \<noteq> 0 \<and> legal h (canon h T)" "canon h 0 = [(0, [])]"
    using s(1) unfolding spec_inv_def by auto
qed

lemma turnD:
  assumes "turn cfg c b c' h h' A"
  shows "tracks_commit cfg c h A" "tracks cfg c h" "tracks cfg c' h'" "firm cfg c c'" "lawful cfg c c'"
    "commit_acts cfg c b c'" "acts cfg c b c'" "b < length cfg" "a \<noteq> b \<Longrightarrow> nodes c' a = nodes c a" "grows h h'"
    "termOf c v \<le> termOf c' v"
    "h' = recorded c b c' h"
proof -
  show t: "tracks_commit cfg c h A" "tracks cfg c h" "tracks cfg c' h'" "firm cfg c c'" "lawful cfg c c'"
    "commit_acts cfg c b c'" "acts cfg c b c'" "h' = recorded c b c' h"
    using assms unfolding turn_def tracks_commit_def firm_def commit_acts_def by blast+
  show b: "b < length cfg" "a \<noteq> b \<Longrightarrow> nodes c' a = nodes c a" for a using t(7) by (simp_all add: acts_def)
  show "grows h h'"
    using assms spec_run_grows [OF _ tracks_spec(1) [OF t(2)]] unfolding turn_def by blast
  show "termOf c v \<le> termOf c' v"
    using b lawful_at [OF t(5) b(1)] by (cases "v = b") (simp_all add: lawful_node_def)
qed

lemma tracks_commitD:
  assumes "tracks_commit cfg c h A"
  shows "canon_ok h" "stores_ok (length cfg) h A (termOf c) (logOf c)"
    "quorums_ok (majorityOf (length cfg)) h A (termOf c)" "votes_ok cfg c h A" "appends_ok cfg c h A"
    "matches_ok cfg c A" "commits_ok cfg c h A" "tracks cfg c h"
  using assms by (simp_all add: tracks_commit_def)

lemma filed_mono: "A \<subseteq> filed c b A"
  by (simp add: storing_def)

text \<open>A request that a node takes over leaves it its log or the piece of the leader's.\<close>

lemma merged_overwrite:
  assumes "legal h (plainLog es)" "legal h (plainLog (raftLog s))" "piece_of req es"
    "length es = Suc (covered req)" "validPreviousLog req s"
  shows "plainLog (mergedLog req s) = overwrite (plainLog (raftLog s)) (plainLog es)"
proof -
  let ?fs = "raftLog s" and ?p = "unat (PrevLogIndex req)" and ?n = "length (Entries req)"
  have ne: "?fs \<noteq> []" using assms(2) by (auto simp: legal_def)
  have p: "?p < length ?fs" "?p = 0 \<or> entryTerm (?fs ! ?p) = entryTerm (es ! ?p)"
    using assms(3,5) ne by (auto simp: validPreviousLog_def piece_of_def)
  have E: "Entries req = take ?n (drop (Suc ?p) es)" using assms(3) unfolding piece_of_def by blast
  have len: "Suc ?p + ?n = length es" using assms(4) by (simp add: covered_def)
  let ?m = "mergeLog ?fs (Suc ?p) (Entries req)"
  note m = legal_log_matching [OF assms(1,2)]
  have same: "same_upto (Suc ?p) es ?fs"
    using m p len by (cases "?p = 0") (auto simp: log_matching_def)
  have le: "Suc ?p + ?n \<le> length es" using len by simp
  have "same_upto (length es) es ?m"
    using merge_same_upto [OF m Suc_leI [OF p(1)] same le] unfolding E [symmetric] len .
  then have up: "plainLog es = take (length es) (plainLog ?m)" by (simp add: same_upto_plain)
  have "?m = ?fs \<or> length ?m = length es"
    using mergeLog_kept_or_cut [of "Suc ?p" ?fs "Entries req"] p(1) len by auto
  then show ?thesis
  proof
    assume m: "?m = ?fs"
    moreover from up m have "take (length (plainLog es)) (plainLog ?fs) = plainLog es" by (metis plainLog_simps(4))
    ultimately show ?thesis by (simp only: mergedLog_def overwrite_def if_True simp_thms)
  next
    assume "length ?m = length es"
    with up have eq: "plainLog ?m = plainLog es" by simp
    show ?thesis
    proof (cases "take (length es) (plainLog ?fs) = plainLog es")
      case True
      have l: "length es \<le> length ?fs" using arg_cong [OF True, of length] by simp
      have "entryTerm (?fs ! (Suc ?p + j)) = entryTerm (Entries req ! j)" if j: "j < ?n" for j
      proof -
        have k: "Suc ?p + j < length es" using len j by simp
        have "Entries req ! j = take ?n (drop (Suc ?p) es) ! j" by (rule arg_cong [OF E])
        also have "\<dots> = es ! (Suc ?p + j)" using j k by simp
        finally have "Entries req ! j = es ! (Suc ?p + j)" .
        moreover have "plainLog ?fs ! (Suc ?p + j) = plainLog es ! (Suc ?p + j)"
          using arg_cong [OF True, of "\<lambda>x. x ! (Suc ?p + j)"] k by simp
        ultimately show ?thesis using k l by (simp add: plainLog_nth)
      qed
      then have "?m = ?fs" using len l by (intro mergeLog_present) auto
      with True show ?thesis by (simp add: mergedLog_def overwrite_def)
    next
      case False
      with eq show ?thesis by (simp add: mergedLog_def overwrite_def)
    qed
  qed
qed

lemma recorded_fields:
  "elected (recorded c b c' h) = (if role (srv c' b) = leaderState
     then insert (termOf c' b, selfId (srv c' b)) (elected h) else elected h)"
  "canon (recorded c b c' h) = (if role (srv c' b) = leaderState then (canon h)(termOf c' b := logOf c' b) else canon h)"
  by (auto simp: recorded_def led_fields fun_eq_iff)

lemma canon_ok_cong: "elected h' = elected h \<Longrightarrow> canon h' = canon h \<Longrightarrow> canon_ok h' = canon_ok h"
  by (simp add: canon_ok_def)

lemma commits_okD:
  assumes "commits_ok cfg c h A" "a < length cfg"
  shows "e \<in> set (logOf c a) \<Longrightarrow> fst e \<le> termOf c a"
    "safe_commit (majorityOf (length cfg)) h A (logOf c a) (termOf c a) (unat (commitIndex (srv c a)))"
  using assms unfolding commits_ok_def by blast+

lemma canon_step:
  assumes "turn cfg c b c' h h' A"
  shows "canon_ok h'"
proof (cases "role (srv c' b) = leaderState")
  case False
  note d = turnD [OF assms]
  from False tracks_commitD(1) [OF d(1)] show ?thesis
    unfolding d(12) by (subst canon_ok_cong [of _ h]) (simp_all add: recorded_fields)
next
  case True
  note d = turnD [OF assms] and k = tracks_commitD [OF turnD(1) [OF assms]]
  let ?T = "termOf c' b"
  have l: "legal h (logOf c b)" by (rule tracks_spec(2) [OF d(2,8)])
  note ext = canon_ok_extend [OF k(1) tracks_spec(4) [OF d(2)] l, of ?T _ "selfId (srv c' b)"]
  have le: "\<forall>e \<in> set (logOf c b). fst e \<le> termOf c b" using commits_okD(1) [OF k(7) d(8)] by blast
  have "\<exists>es. logOf c' b = logOf c b @ es \<and> (\<forall>e \<in> set es. fst e = ?T) \<and> (es \<noteq> [] \<or> fst (last (logOf c b)) = ?T) \<and>
      (\<forall>e \<in> set (logOf c b). fst e \<le> ?T)"
    using d(7,5) True
  proof (cases rule: leads_cases)
    case (led ys)
    have ld: "leaders_ok cfg c h" using d(2) by (simp add: tracks_def)
    have "fst (last (canon h (termOf c b))) = termOf c b"
      using k(1) leaders_okD(1) [OF ld d(8) led(1)] unfolding canon_ok_def by (metis fst_conv image_eqI)
    with leaders_okD(2) [OF ld d(8) led(1)] led le show ?thesis
      by (intro exI [of _ "plainLog ys"]) (auto simp: plainLog_def)
  next
    case elected
    with le show ?thesis by (intro exI [of _ "[(termOf c b, [])]"]) simp
  qed
  then obtain es where es: "logOf c' b = logOf c b @ es" "\<forall>e \<in> set es. fst e = ?T"
    "es \<noteq> [] \<or> fst (last (logOf c b)) = ?T" "\<forall>e \<in> set (logOf c b). fst e \<le> ?T" by blast
  from ext [OF es(4,2,3)] show ?thesis
    unfolding d(12) using True es(1) by (subst canon_ok_cong) (auto simp: recorded_fields)
qed

section \<open>Stores and quorums\<close>

text \<open>A request that the node takes over, with what it carries.\<close>

lemma taken_piece:
  assumes "turn cfg c b c' h h' A" "(a, i, addr, req) \<in> appendCalls c" "takes req (srv c b) (srv c' b)"
  shows "request_ok cfg h A req" "Term req = termOf c' b" "termOf c b \<le> Term req"
    "logOf c' b = overwrite (logOf c b) (take (Suc (covered req)) (canon h (Term req)))"
    "has (logOf c' b) (covered req) (Term req)"
proof -
  note d = turnD [OF assms(1)] and k = tracks_commitD [OF turnD(1) [OF assms(1)]]
  show r: "request_ok cfg h A req" using k(5) assms(2) unfolding appends_ok_def by blast
  have t: "accepts req (srv c b)" "termOf c' b = Term req" "raftLog (srv c' b) = mergedLog req (srv c b)"
    using assms(3) by (simp_all add: takes_def)
  then show "Term req = termOf c' b" "termOf c b \<le> Term req" by (auto simp: accepts_iff)
  obtain es where es: "piece_of req es" "length es = Suc (covered req)"
    "plainLog es = take (Suc (covered req)) (canon h (Term req))"
    and el: "Term req \<in> fst ` elected h" and hs: "has (canon h (Term req)) (covered req) (Term req)"
    using r unfolding request_ok_def by blast
  have "legal h (canon h (Term req))" using tracks_spec(3) [OF d(2) el] by blast
  then have "legal h (plainLog es)" unfolding es(3) by (rule legal_take) simp
  from merged_overwrite [OF this tracks_spec(2) [OF d(2,8)] es(1,2)] t(1,3)
  show o: "logOf c' b = overwrite (logOf c b) (take (Suc (covered req)) (canon h (Term req)))"
    by (simp add: accepts_iff es(3))
  have "has (take (Suc (covered req)) (canon h (Term req))) (covered req) (Term req)"
    using hs by (simp add: has_def)
  from overwrite_has [OF this] show "has (logOf c' b) (covered req) (Term req)" unfolding o .
qed

lemma writes_log:
  assumes "turn cfg c b c' h h' A"
  obtains ys where "logOf c' b = logOf c b @ ys"
  | a i addr req where "(a, i, addr, req) \<in> appendCalls c" "takes req (srv c b) (srv c' b)"
proof -
  have "writes c (srv c b) (srv c' b)" using turnD(6) [OF assms] by (simp add: commit_acts_def)
  then consider "log_moves (srv c b) (srv c' b)"
    | a i addr req where "(a, i, addr, req) \<in> appendCalls c" "takes req (srv c b) (srv c' b)"
    unfolding writes_def by blast
  then show thesis
  proof cases
    case 1
    then obtain ys where "raftLog (srv c' b) = raftLog (srv c b) @ ys"
      unfolding log_moves_def by (metis append_Nil2)
    then have "logOf c' b = logOf c b @ plainLog ys" by simp
    then show thesis by (rule that(1))
  next
    case 2
    then show thesis by (rule that(2))
  qed
qed

lemma has_append: "has l j T \<Longrightarrow> has (l @ ys) j T"
  by (simp add: has_def nth_append)

lemma stores_turn:
  assumes "turn cfg c b c' h h' A"
  shows "stores_ok (length cfg) h' (filed c' b A) (termOf c') (logOf c')"
proof -
  note d = turnD [OF assms] and k = tracks_commitD [OF turnD(1) [OF assms]]
  have l: "legal h' (logOf c' b)" "legal h (logOf c b)"
    by (rule tracks_spec(2) [OF d(3,8)], rule tracks_spec(2) [OF d(2,8)])
  show ?thesis
  proof (rule stores_step [where cur' = "termOf c'" and logs' = "logOf c'", OF k(2) d(10,8) _ d(11) l(1)])
    fix T j assume a: "(T, b, j) \<in> A" "has (logOf c b) j T"
    note o = stores_okD(1) [OF k(2) a(1)]
    show "has (logOf c' b) j T \<or> lost h' T (termOf c' b) j"
      using assms
    proof (cases rule: writes_log)
      case (1 ys)
      with has_append [OF a(2)] show ?thesis by simp
    next
      case (2 d' i addr req)
      note t = taken_piece [OF assms 2]
      have e: "Term req \<in> fst ` elected h" using t(1) by (simp add: request_ok_def)
      have "T \<le> Term req" using o d(11) [of b] t(2) by (metis order_trans)
      from kept_by_piece [OF l(2) a(2) _ this e] tracks_spec(3) [OF d(2) e] o t(4)
      have "has (logOf c' b) j T \<or> lost h T (Term req) j" by auto
      with lost_grows [OF d(10)] t(2) show ?thesis by auto
    qed
  qed (use d(9) in simp)
qed

lemma lost_strict: "lost h T T' j \<Longrightarrow> T' \<notin> fst ` elected h \<Longrightarrow> \<exists>U < T'. lost h T U j"
  unfolding lost_def by (metis order.not_eq_order_implies_strict order_refl)

lemma static_length:
  assumes "tracks cfg c h" "a < length cfg"
  shows "length (cluster (srv c a)) = length cfg" "clusterIndex (srv c a) = a"
    "i < length cfg \<Longrightarrow> Address (cluster (srv c a) ! i) = Address (cfg ! i)" "noConfig (raftLog (srv c a))"
    "node_inv (srv c a)" "raftLog (srv c a) \<noteq> []" "fits (length (raftLog (srv c a)))"
proof -
  have m: "addresses (cluster (srv c a)) = addresses cfg" "clusterIndex (srv c a) = a" "noConfig (raftLog (srv c a))"
    using assms by (simp_all add: tracks_def members_ok_def static_def)
  show l: "length (cluster (srv c a)) = length cfg" by (rule addresses_length [OF m(1)])
  show "clusterIndex (srv c a) = a" "noConfig (raftLog (srv c a))" by (fact m)+
  show "i < length cfg \<Longrightarrow> Address (cluster (srv c a) ! i) = Address (cfg ! i)"
    using addresses_nth [OF m(1)] l by simp
  have "cluster_inv cfg c" using assms(1) by (simp add: tracks_def)
  note n = inv_node(3,4) [OF this assms(2)]
  show "node_inv (srv c a)" "raftLog (srv c a) \<noteq> []" "fits (length (raftLog (srv c a)))"
    using n by (simp_all add: node_ok_def)
qed

lemma votes_okD:
  assumes "votes_ok cfg c h A"
  shows "(a, i, addr, req) \<in> voteCalls c \<Longrightarrow> Term req \<le> termOf c a"
    "(a, i, addr, req) \<in> voteCalls c \<Longrightarrow> Term req = termOf c a \<Longrightarrow> role (srv c a) = candidateState \<Longrightarrow>
       LastLogTerm req = fst (last (logOf c a)) \<and> unat (LastLogIndex req) = length (logOf c a) - 1"
    "(a, i, req, rsp) \<in> voteAnswers c \<Longrightarrow> VoteGranted rsp \<Longrightarrow>
       Term req \<le> termOf c i \<and> (\<exists>addr. (a, i, addr, req) \<in> voteCalls c)"
    "(a, i, req, rsp) \<in> voteAnswers c \<Longrightarrow> VoteGranted rsp \<Longrightarrow> (T, i, j) \<in> A \<Longrightarrow> T < Term req \<Longrightarrow>
       reaches_entry (LastLogTerm req) (unat (LastLogIndex req)) T j \<or> lost h T (Term req) j"
    "a < length cfg \<Longrightarrow> i < length cfg \<Longrightarrow> role (srv c a) = candidateState \<Longrightarrow> i \<noteq> a \<Longrightarrow> counted (srv c a) i \<Longrightarrow>
       \<exists>req rsp. (a, i, req, rsp) \<in> voteAnswers c \<and> VoteGranted rsp \<and> Term req = termOf c a"
  proof -
  have v: "vote_calls_ok c" "vote_answers_ok c h A" "vote_counts_ok cfg c" using assms by (simp_all add: votes_ok_def)
  from v(1) show "(a, i, addr, req) \<in> voteCalls c \<Longrightarrow> Term req \<le> termOf c a"
    "(a, i, addr, req) \<in> voteCalls c \<Longrightarrow> Term req = termOf c a \<Longrightarrow> role (srv c a) = candidateState \<Longrightarrow>
       LastLogTerm req = fst (last (logOf c a)) \<and> unat (LastLogIndex req) = length (logOf c a) - 1"
    unfolding vote_calls_ok_def by blast+
  from v(2) show "(a, i, req, rsp) \<in> voteAnswers c \<Longrightarrow> VoteGranted rsp \<Longrightarrow>
       Term req \<le> termOf c i \<and> (\<exists>addr. (a, i, addr, req) \<in> voteCalls c)"
    "(a, i, req, rsp) \<in> voteAnswers c \<Longrightarrow> VoteGranted rsp \<Longrightarrow> (T, i, j) \<in> A \<Longrightarrow> T < Term req \<Longrightarrow>
       reaches_entry (LastLogTerm req) (unat (LastLogIndex req)) T j \<or> lost h T (Term req) j"
    unfolding vote_answers_ok_def by blast+
  from v(3) show "a < length cfg \<Longrightarrow> i < length cfg \<Longrightarrow> role (srv c a) = candidateState \<Longrightarrow> i \<noteq> a \<Longrightarrow>
       counted (srv c a) i \<Longrightarrow> \<exists>req rsp. (a, i, req, rsp) \<in> voteAnswers c \<and> VoteGranted rsp \<and> Term req = termOf c a"
    unfolding vote_counts_ok_def by blast
qed

text \<open>A voter that the candidate counts has given it all it had stored, or that was lost before.\<close>

lemma voter_gives:
  assumes "tracks_commit cfg c h A" "a < length cfg" "role (srv c a) = candidateState" "v < length cfg"
    "counted (srv c a) v" "termOf c a \<notin> fst ` elected h"
  shows "termOf c a \<le> termOf c v \<and> ((T, v, j) \<in> A \<longrightarrow> T < termOf c a \<longrightarrow>
    has (logOf c a) j T \<or> (\<exists>U < termOf c a. lost h T U j))"
proof (cases "v = a")
  case True
  with stores_okD(3) [OF tracks_commitD(2) [OF assms(1)]] lost_strict assms(6) show ?thesis by blast
next
  case False
  note k = tracks_commitD [OF assms(1)]
  obtain req rsp where q: "(a, v, req, rsp) \<in> voteAnswers c" "VoteGranted rsp" "Term req = termOf c a"
    using votes_okD(5) [OF k(4) assms(2,4,3) False assms(5)] by blast
  obtain addr where call: "(a, v, addr, req) \<in> voteCalls c" and le: "Term req \<le> termOf c v"
    using votes_okD(3) [OF k(4) q(1,2)] by blast
  note log = votes_okD(2) [OF k(4) call q(3) assms(3)]
  have "has (logOf c a) j T \<or> (\<exists>U < termOf c a. lost h T U j)" if A: "(T, v, j) \<in> A" "T < termOf c a"
  proof -
    have "reaches_entry (fst (last (logOf c a))) (length (logOf c a) - 1) T j \<or> lost h T (termOf c a) j"
      using votes_okD(4) [OF k(4) q(1,2) A(1)] A(2) q(3) log by simp
    then have "has (logOf c a) j T \<or> lost h T (termOf c a) j"
    proof
      assume r: "reaches_entry (fst (last (logOf c a))) (length (logOf c a) - 1) T j"
      have l: "legal h (logOf c a)" by (rule tracks_spec(2) [OF k(8) assms(2)])
      then have "logOf c a \<noteq> []" by (auto simp: legal_def)
      then have "fst (last (logOf c a)) \<le> termOf c a" using commits_okD(1) [OF k(7) assms(2)] last_in_set by blast
      moreover have "T \<in> fst ` elected h" "has (canon h T) j T" using stores_okD(1) [OF k(2) A(1)] by blast+
      ultimately show ?thesis using candidate_has [OF k(1) l r] lost_later by blast
    qed simp
    with lost_strict [OF _ assms(6)] show ?thesis by blast
  qed
  with le q(3) show ?thesis by simp
qed

lemma elected_quorum:
  assumes "turn cfg c b c' h h' A" "T' \<in> fst ` elected h'" "T' \<notin> fst ` elected h"
  shows "\<exists>Q. majorityOf (length cfg) Q \<and> (\<forall>v \<in> Q. T' \<le> termOf c' v \<and>
    (\<forall>T j. (T, v, j) \<in> A \<longrightarrow> T < T' \<longrightarrow> has (canon h' T') j T \<or> (\<exists>U < T'. lost h' T U j)))"
proof -
  note d = turnD [OF assms(1)]
  have r: "role (srv c' b) = leaderState" "T' = termOf c' b"
    using assms(2,3) unfolding d(12) recorded_fields by (auto split: if_splits)
  have "role (srv c b) = candidateState \<and> termOf c b = T' \<and>
      majority (length (cluster (srv c b))) \<le> length (voters (srv c b)) \<and> (\<exists>ys. logOf c' b = logOf c b @ ys)"
    using d(7,5) r(1)
  proof (cases rule: leads_cases)
    case (led ys)
    have ld: "leaders_ok cfg c h" using d(2) by (simp add: tracks_def)
    have "T' \<in> fst ` elected h" using leaders_okD(1) [OF ld d(8) led(1)] led(2) r(2) by (metis fst_conv image_eqI)
    with assms(3) show ?thesis by simp
  next
    case elected
    with r(2) show ?thesis by simp
  qed
  then have cand: "role (srv c b) = candidateState" "termOf c b = T'"
    "majority (length (cluster (srv c b))) \<le> length (voters (srv c b))" "\<exists>ys. logOf c' b = logOf c b @ ys" by blast+
  have cn: "canon h' T' = logOf c' b" using r unfolding d(12) recorded_fields by simp
  let ?Q = "{v. v < length cfg \<and> counted (srv c b) v}"
  have n: "length (cluster (srv c b)) = length cfg" by (rule static_length(1) [OF d(2,8)])
  have "length (voters (srv c b)) = card ?Q"
    by (simp add: voters_def length_filter_conv_card counted_def n)
  with cand(3) n have "majorityOf (length cfg) ?Q" by (auto simp: majorityOf_def majority_def)
  moreover have "T' \<le> termOf c' v \<and> (\<forall>T j. (T, v, j) \<in> A \<longrightarrow> T < T' \<longrightarrow> has (canon h' T') j T \<or> (\<exists>U < T'. lost h' T U j))"
    if "v \<in> ?Q" for v
  proof -
    have v: "v < length cfg" "counted (srv c b) v" using that by simp_all
    note g = voter_gives [OF d(1,8) cand(1) v, unfolded cand(2), OF assms(3)]
    have "T' \<le> termOf c' v" using g d(11) [of v] by (metis order_trans)
    with g cn cand(4) has_append lost_grows [OF d(10)] show ?thesis by metis
  qed
  ultimately show ?thesis by blast
qed

lemma quorums_turn:
  assumes "turn cfg c b c' h h' A"
  shows "quorums_ok (majorityOf (length cfg)) h' (filed c' b A) (termOf c')"
  using turnD(10,11) [OF assms] tracks_commitD(3) [OF turnD(1) [OF assms]] elected_quorum [OF assms]
  by (intro quorums_step [where cur' = "termOf c'"]) auto

section \<open>Votes\<close>

lemma turn_writes:
  assumes "turn cfg c b c' h h' A"
  shows "writes c (srv c b) (srv c' b)" "sends c b c'" "replies c b c'" "role_moves (srv c b) (srv c' b)"
    "role (srv c' b) = leaderState \<Longrightarrow> role (srv c b) \<noteq> leaderState \<Longrightarrow> i < length (cluster (srv c' b)) \<Longrightarrow>
       matchIndex (cluster (srv c' b) ! i) = 0"
  using turnD(6,7) [OF assms] by (simp_all add: commit_acts_def acts_def)

lemma logOf_last:
  assumes "raftLog (srv c a) \<noteq> []"
  shows "fst (last (logOf c a)) = entryTerm (raftLog (srv c a) ! (length (raftLog (srv c a)) - 1))"
proof -
  have "logOf c a \<noteq> []" using assms by (metis length_0_conv plainLog_simps(4))
  then show ?thesis using assms by (simp add: last_conv_nth plainLog_nth)
qed

text \<open>A candidate after the step was one before, with the same log, or has just moved on to a new term.\<close>

lemma stays_candidate:
  assumes "turn cfg c b c' h h' A" "role (srv c' b) = candidateState"
  obtains "role (srv c b) = candidateState" "termOf c' b = termOf c b" "raftLog (srv c' b) = raftLog (srv c b)"
  | "termOf c b < termOf c' b" "\<And>i. i < length cfg \<Longrightarrow> i \<noteq> b \<Longrightarrow> votedFor (cluster (srv c' b) ! i) = 0"
proof -
  note d = turnD [OF assms(1)] and w = turn_writes [OF assms(1)]
  have log: "raftLog (srv c' b) = raftLog (srv c b)"
    using w(1) assms(2) by (auto simp: writes_def log_moves_def takes_def)
  have len: "length (cluster (srv c' b)) = length cfg" "clusterIndex (srv c' b) = b"
    by (rule static_length(1,2) [OF d(3,8)])+
  from w(4) assms(2) consider "role (srv c b) = candidateState \<and> termOf c' b = termOf c b"
    | "termOf c' b = termOf c b + 1" "\<forall>i < length cfg. i \<noteq> b \<longrightarrow> votedFor (cluster (srv c' b) ! i) = 0"
    by (auto simp: role_moves_def len)
  then show thesis
  proof cases
    case 1
    with that(1) log show thesis by blast
  next
    case 2
    have "termOf c b \<le> termOf c' b" by (rule d(11))
    moreover have "termOf c b \<noteq> termOf c' b" using 2(1) by simp
    ultimately have "termOf c b < termOf c' b" by simp
    with that(2) 2(2) show thesis by blast
  qed
qed

lemma vote_calls_turn:
  assumes "turn cfg c b c' h h' A" "(a, i, addr, req) \<in> voteCalls c'"
  shows "Term req \<le> termOf c' a \<and> (Term req = termOf c' a \<and> role (srv c' a) = candidateState \<longrightarrow>
    LastLogTerm req = fst (last (logOf c' a)) \<and> unat (LastLogIndex req) = length (logOf c' a) - 1)"
proof -
  note d = turnD [OF assms(1)] and k = tracks_commitD [OF turnD(1) [OF assms(1)]] and w = turn_writes [OF assms(1)]
  show ?thesis
  proof (cases "(a, i, addr, req) \<in> voteCalls c")
    case True
    note old = votes_okD(1,2) [OF k(4) True]
    have le: "Term req \<le> termOf c' a" using old(1) d(11) by (rule order_trans)
    have "LastLogTerm req = fst (last (logOf c' a)) \<and> unat (LastLogIndex req) = length (logOf c' a) - 1"
      if T: "Term req = termOf c' a" "role (srv c' a) = candidateState"
    proof (cases "a = b")
      case False
      with old(2) d(9) T show ?thesis by simp
    next
      case b: True
      show ?thesis
        using assms(1) T(2) [unfolded b]
      proof (cases rule: stays_candidate)
        case 1
        with old(2) T b show ?thesis by simp
      next
        case 2
        with old(1) T(1) b show ?thesis by simp
      qed
    qed
    with le show ?thesis by blast
  next
    case False
    with w(2) assms(2) have n: "a = b" "srv c' b = srv c b" "buildRequestVote i (srv c b) = Inr (addr, req)"
      unfolding sends_def by blast+
    note st = static_length(6,7) [OF d(2,8)]
    show ?thesis
      using n(3) st logOf_last [OF st(1)] unfolding n(1,2)
      by (auto simp: buildRequestVote_def split: if_splits)
  qed
qed

lemma vote_answers_turn:
  assumes "turn cfg c b c' h h' A" "(a, i, req, rsp) \<in> voteAnswers c'" "VoteGranted rsp"
  shows "Term req \<le> termOf c' i \<and> (\<exists>addr. (a, i, addr, req) \<in> voteCalls c) \<and>
    ((T, i, j) \<in> filed c' b A \<longrightarrow> T < Term req \<longrightarrow>
       reaches_entry (LastLogTerm req) (unat (LastLogIndex req)) T j \<or> lost h' T (Term req) j)"
proof -
  note d = turnD [OF assms(1)] and k = tracks_commitD [OF turnD(1) [OF assms(1)]] and w = turn_writes [OF assms(1)]
  show ?thesis
  proof (cases "(a, i, req, rsp) \<in> voteAnswers c")
    case True
    note old = votes_okD(3,4) [OF k(4) True assms(3)]
    have le: "Term req \<le> termOf c' i" using old(1) d(11) order_trans by blast
    moreover have "(T, i, j) \<in> A" if "(T, i, j) \<in> filed c' b A" "T < Term req"
      using that le by (auto simp: storing_iff)
    ultimately show ?thesis using old lost_grows [OF d(10)] by blast
  next
    case False
    with w(3) assms(2,3) have n: "i = b" "\<exists>addr. (a, i, addr, req) \<in> voteCalls c" "grantable req (srv c b)"
      "raftLog (srv c' b) = raftLog (srv c b)" "termOf c' b = Term req" unfolding replies_def by blast+
    have "reaches_entry (LastLogTerm req) (unat (LastLogIndex req)) T j \<or> lost h' T (Term req) j"
      if A: "(T, b, j) \<in> filed c' b A" "T < Term req"
      using stores_okD(3) [OF stores_turn [OF assms(1)] A(1)]
    proof
      assume hs: "has (logOf c' b) j T"
      have l: "legal h (logOf c b)" by (rule tracks_spec(2) [OF d(2,8)])
      note st = static_length(6) [OF d(2,8)]
      have "fst (last (logOf c b)) = lastTerm (srv c b)" using logOf_last [OF st] by (simp add: lastTerm_def)
      then have "fst (last (logOf c b)) < LastLogTerm req \<or>
          fst (last (logOf c b)) = LastLogTerm req \<and> length (logOf c b) - 1 \<le> unat (LastLogIndex req)"
        using n(3) by (auto simp: grantable_def upToDate_def)
      from voter_reaches [OF legal_sorted [OF k(1) tracks_spec(4) [OF d(2)] l] _ this] hs n(4) show ?thesis by simp
    qed (use n(5) in simp)
    with n show ?thesis by simp
  qed
qed

lemma counted_turn:
  assumes "turn cfg c b c' h h' A" "a < length cfg" "i < length cfg" "role (srv c' a) = candidateState" "i \<noteq> a"
    "counted (srv c' a) i"
  shows "\<exists>req rsp. (a, i, req, rsp) \<in> voteAnswers c' \<and> VoteGranted rsp \<and> Term req = termOf c' a"
proof -
  note d = turnD [OF assms(1)] and k = tracks_commitD [OF turnD(1) [OF assms(1)]] and w = turn_writes [OF assms(1)]
  have "\<exists>req rsp. (a, i, req, rsp) \<in> voteAnswers c \<and> VoteGranted rsp \<and> Term req = termOf c' a"
  proof (cases "a = b")
    case False
    with votes_okD(5) [OF k(4) assms(2,3)] assms(4-6) d(9) show ?thesis by simp
  next
    case b: True
    note len = static_length(1,2) [OF d(3,8)]
    show ?thesis
    proof (cases "counted (srv c b) i")
      case False
      have "role (srv c' b) \<in> {candidateState, leaderState}" using assms(4) b by simp
      with False lawful_at [OF d(5,8)] assms(3,5,6) b len show ?thesis unfolding lawful_node_def by metis
    next
      case True
      show ?thesis
        using assms(1) assms(4) [unfolded b]
      proof (cases rule: stays_candidate)
        case 1
        with votes_okD(5) [OF k(4) assms(2,3)] b True assms(5) show ?thesis by simp
      next
        case 2
        have "selfId (srv c' b) = memberId (cfg ! b)" using d(3,8) by (simp add: tracks_def members_ok_def)
        moreover have "\<forall>m \<in> set cfg. memberId m \<noteq> 0" using assms(1) by (auto simp: turn_def proper_def)
        ultimately have "selfId (srv c' b) \<noteq> 0" using d(8) by simp
        with 2(2) [of i] assms(3,5,6) b show ?thesis by (simp add: counted_def)
      qed
    qed
  qed
  with w(3) show ?thesis unfolding replies_def by blast
qed

lemma votes_turn:
  assumes "turn cfg c b c' h h' A"
  shows "votes_ok cfg c' h' (filed c' b A)"
proof -
  have sub: "voteCalls c \<subseteq> voteCalls c'" using turn_writes(2) [OF assms] by (simp add: sends_def)
  have "vote_calls_ok c'" using vote_calls_turn [OF assms] unfolding vote_calls_ok_def by blast
  moreover have "vote_answers_ok c' h' (filed c' b A)"
    unfolding vote_answers_ok_def
    by (intro conjI allI impI; drule (1) vote_answers_turn [OF assms]) (use sub in blast)+
  moreover have "vote_counts_ok cfg c'" using counted_turn [OF assms] unfolding vote_counts_ok_def by blast
  ultimately show ?thesis by (simp add: votes_ok_def)
qed

section \<open>Append requests and answers\<close>

lemma built_fields:
  assumes "buildAppendEntries i s = Inr (addr, req)"
  shows "i < length (cluster s)" "addr = Address (cluster s ! i)" "Term req = currentTerm s" "LeaderCommit req = commitIndex s"
  using assms by (auto simp: buildAppendEntries_def Let_def split: if_splits)

text \<open>A request whose batch is not full covers the log of its sender.\<close>

lemma built_covers:
  assumes "node_ok s" "buildAppendEntries i s = Inr (addr, req)" "length (Entries req) < MAX_APPEND_ENTRIES_BATCH"
  shows "Suc (covered req) = length (raftLog s)"
proof -
  let ?es = "raftLog s" and ?next = "nextIndex (cluster s ! i)"
  let ?p = "?next - 1"
  have f: "?es \<noteq> []" "fits (length ?es)" using assms(1) by (auto simp: node_ok_def)
  have p: "unat ?p < length ?es"
    using assms(2) by (auto simp: buildAppendEntries_def Let_def split: if_splits)
  have "unat (?p + 1) = Suc (unat ?p)" using p f(2) by (intro unat_add_one) (simp add: fits_def)
  then have n: "unat ?next = Suc (unat ?p)" by simp
  have r: "(if ?next \<le> logLast ?es then drop (unat ?next) ?es else []) = drop (Suc (unat ?p)) ?es"
    using f n by (auto simp: word_le_nat_alt)
  have q: "PrevLogIndex req = ?p" "Entries req = take MAX_APPEND_ENTRIES_BATCH (drop (Suc (unat ?p)) ?es)"
    using assms(2) r by (auto simp: buildAppendEntries_def Let_def split: if_splits)
  from assms(3) have "length (drop (Suc (unat ?p)) ?es) < MAX_APPEND_ENTRIES_BATCH"
    unfolding q(2) by (simp add: min_def split: if_splits)
  then have "Entries req = drop (Suc (unat ?p)) ?es" unfolding q(2) by simp
  with p show ?thesis by (simp add: covered_def q(1))
qed

lemma request_ok_grows:
  assumes "request_ok cfg h A req" "grows h h'" "A \<subseteq> A'"
  shows "request_ok cfg h' A' req"
proof -
  let ?T = "Term req" and ?m = "covered req"
  have r: "?T \<in> fst ` elected h" "has (canon h ?T) ?m ?T" "unat (LeaderCommit req) \<le> ?m"
    "safe_commit (majorityOf (length cfg)) h A (canon h ?T) ?T (unat (LeaderCommit req))"
    using assms(1) by (simp_all add: request_ok_def)
  have m: "?m < length (canon h ?T)" using r(2) by (simp add: has_def)
  note t = grows_has(4) [OF assms(2) r(1) m]
  have hm: "has (canon h' ?T) ?m ?T" by (rule grows_has(1) [OF assms(2) r(1,2)])
  have "unat (LeaderCommit req) < length (canon h ?T)" using r(3) m by simp
  from grows_has(4) [OF assms(2) r(1) this] hm r(3)
  have "safe_commit (majorityOf (length cfg)) h' A' (canon h' ?T) ?T (unat (LeaderCommit req))"
    by (intro safe_commit_take [OF safe_commit_grows [OF assms(2,3) order_refl r(4)] order_refl]) (auto simp: has_def)
  with assms(1) t hm grows_elected [OF assms(2) r(1)] show ?thesis by (simp add: request_ok_def)
qed

lemma leader_log:
  assumes "tracks cfg c h" "a < length cfg" "role (srv c a) = leaderState"
  shows "termOf c a \<in> fst ` elected h" "canon h (termOf c a) = logOf c a"
proof -
  have ld: "leaders_ok cfg c h" using assms(1) by (simp add: tracks_def)
  show "termOf c a \<in> fst ` elected h" using leaders_okD(1) [OF ld assms(2,3)] by (metis fst_conv image_eqI)
  show "canon h (termOf c a) = logOf c a" using leaders_okD(2) [OF ld assms(2,3)] by simp
qed

text \<open>The last entry of a leader's log is of its term.\<close>

lemma leader_last:
  assumes "tracks_commit cfg c h A" "a < length cfg" "role (srv c a) = leaderState"
  shows "has (logOf c a) (length (logOf c a) - 1) (termOf c a)"
proof -
  note k = tracks_commitD [OF assms(1)]
  note l = leader_log [OF k(8) assms(2,3)]
  have "logOf c a \<noteq> []" "fst (last (logOf c a)) = termOf c a"
    using k(1) l unfolding canon_ok_def by metis+
  then show ?thesis unfolding has_def by (simp only: last_conv_nth diff_less length_greater_0_conv zero_less_one simp_thms)
qed

lemma built_request_ok:
  assumes "tracks_commit cfg c h A" "a < length cfg" "role (srv c a) = leaderState"
    "buildAppendEntries i (srv c a) = Inr (addr, req)" "length (Entries req) < MAX_APPEND_ENTRIES_BATCH"
  shows "request_ok cfg h A req"
proof -
  note k = tracks_commitD [OF assms(1)]
  have ok: "node_ok (srv c a)" using static_length(5) [OF k(8) assms(2)] by (simp add: node_inv_def)
  note f = built_fields [OF assms(4)] and cv = built_covers [OF ok assms(4,5)]
  note l = leader_log [OF k(8) assms(2,3), folded f(3)] and sc = commits_okD(2) [OF k(7) assms(2), folded f(3,4)]
  have all: "take (Suc (covered req)) (logOf c a) = logOf c a" using cv by simp
  have "\<exists>es. piece_of req es \<and> length es = Suc (covered req) \<and> plainLog es = take (Suc (covered req)) (canon h (Term req))"
    using built_piece [OF ok assms(4)] cv by (intro exI [of _ "raftLog (srv c a)"]) (simp add: l(2) all)
  moreover have "has (canon h (Term req)) (covered req) (Term req)"
    using leader_last [OF assms(1-3)] l(2) f(3) arg_cong [OF cv, of "\<lambda>x. x - 1"] by simp
  moreover have "unat (LeaderCommit req) \<le> covered req"
    using sc cv by (auto simp: safe_commit_def)
  ultimately show ?thesis using l(1) sc by (simp add: request_ok_def l(2))
qed

lemma appends_okD:
  assumes "appends_ok cfg c h A"
  shows "addressed cfg c" "(a, i, addr, req) \<in> appendCalls c \<Longrightarrow> request_ok cfg h A req"
    "(a, i, req, rsp) \<in> appendAnswers c \<Longrightarrow> Success rsp \<Longrightarrow> (Term req, i, covered req) \<in> A"
  using assms unfolding appends_ok_def by blast+

lemma append_calls_turn:
  assumes "turn cfg c b c' h h' A" "(a, i, addr, req) \<in> appendCalls c'"
  shows "a < length cfg \<and> i < length cfg \<and> addr = Address (cfg ! i) \<and> request_ok cfg h' (filed c' b A) req"
proof -
  note d = turnD [OF assms(1)] and k = tracks_commitD [OF turnD(1) [OF assms(1)]] and w = turn_writes [OF assms(1)]
  have "a < length cfg \<and> i < length cfg \<and> addr = Address (cfg ! i) \<and> request_ok cfg h A req"
  proof (cases "(a, i, addr, req) \<in> appendCalls c")
    case True
    with appends_okD(1,2) [OF k(5)] show ?thesis unfolding addressed_def by blast
  next
    case False
    with w(2) assms(2) have n: "a = b" "buildAppendEntries i (srv c b) = Inr (addr, req)"
      unfolding sends_def by blast+
    have "role (srv c b) = leaderState" "length (Entries req) < MAX_APPEND_ENTRIES_BATCH"
      using d(4) assms(2) False n(1) unfolding firm_def by blast+
    from built_request_ok [OF d(1,8) this(1) n(2) this(2)] built_fields(1,2) [OF n(2)] static_length(1,3) [OF d(2,8)]
      d(8) n(1) show ?thesis by simp
  qed
  with request_ok_grows [OF _ d(10) filed_mono] show ?thesis by blast
qed

lemma appends_turn:
  assumes "turn cfg c b c' h h' A"
  shows "appends_ok cfg c' h' (filed c' b A)"
proof -
  note d = turnD [OF assms] and k = tracks_commitD [OF turnD(1) [OF assms]] and w = turn_writes [OF assms]
  have "(Term req, i, covered req) \<in> filed c' b A" if q: "(a, i, req, rsp) \<in> appendAnswers c'" "Success rsp" for a i req rsp
  proof (cases "(a, i, req, rsp) \<in> appendAnswers c")
    case True
    with appends_okD(3) [OF k(5)] q(2) show ?thesis by (simp add: storing_iff)
  next
    case False
    with w(3) q obtain addr where n: "i = b" "(a, i, addr, req) \<in> appendCalls c" "takes req (srv c b) (srv c' b)"
      unfolding replies_def by blast
    note t = taken_piece [OF assms n(2,3)]
    have "Term req \<noteq> 0" using t(1) tracks_spec(3) [OF d(2)] by (simp add: request_ok_def)
    with t(2,5) n(1) show ?thesis by (simp add: storing_iff)
  qed
  moreover have "addressed cfg c'" unfolding addressed_def using append_calls_turn [OF assms] by blast
  ultimately show ?thesis unfolding appends_ok_def using append_calls_turn [OF assms] by blast
qed

lemma matches_turn:
  assumes "turn cfg c b c' h h' A"
  shows "matches_ok cfg c' (filed c' b A)"
  unfolding matches_ok_def
proof (intro allI impI)
  note d = turnD [OF assms] and k = tracks_commitD [OF turnD(1) [OF assms]] and w = turn_writes [OF assms]
  fix a i assume a: "a < length cfg" "i < length cfg" "role (srv c' a) = leaderState" "i \<noteq> a"
  let ?m = "matchIndex (cluster (srv c' a) ! i)"
  have old: "role (srv c a) = leaderState \<Longrightarrow> matchIndex (cluster (srv c a) ! i) = 0 \<or>
      (termOf c a, i, unat (matchIndex (cluster (srv c a) ! i))) \<in> A"
    using k(6) a(1,2,4) unfolding matches_ok_def by blast
  have "?m = 0 \<or> (termOf c' a, i, unat ?m) \<in> A"
  proof (cases "a = b")
    case False
    with old a(3) d(9) show ?thesis by simp
  next
    case True
    consider "?m = 0" | "?m = matchIndex (cluster (srv c a) ! i)"
      | req rsp where "(a, i, req, rsp) \<in> appendAnswers c" "Success rsp" "Term req = termOf c' a" "unat ?m = covered req"
      using d(4) a(1-3) unfolding firm_def by blast
    then show ?thesis
    proof cases
      case 2
      have len: "i < length (cluster (srv c' b))" using static_length(1) [OF d(3,8)] a(2) by simp
      show ?thesis
      proof (cases "role (srv c b) = leaderState")
        case lead: True
        have "termOf c' b = termOf c b" using w(4) a(3) True by (simp add: role_moves_def)
        with old lead True 2 show ?thesis by simp
      next
        case False
        with w(5) [OF _ False len] a(3) True show ?thesis by simp
      qed
    next
      case 3
      with appends_okD(3) [OF k(5) 3(1,2)] show ?thesis by simp
    qed simp
  qed
  with filed_mono show "?m = 0 \<or> (termOf c' a, i, unat ?m) \<in> filed c' b A" by blast
qed

section \<open>Commits\<close>

text \<open>
  What a leader commits is an entry of its own term that a majority has stored: every member
  that counts has stored an entry of the term, and the least of these is where the count ends.
\<close>

lemma leader_commit:
  assumes "tracks_commit cfg c h A" "b < length cfg" "leader_commits (srv c b) t" "commitIndex t \<noteq> 0"
  shows "committed (majorityOf (length cfg)) h A (termOf c b) (unat (commitIndex t))"
proof -
  note k = tracks_commitD [OF assms(1)]
  let ?s = "srv c b" and ?T = "termOf c b" and ?i = "unat (commitIndex t)" and ?n = "length cfg"
  let ?m = "\<lambda>v. matchIndex (cluster ?s ! v)"
  have r: "role ?s = leaderState" "?i < length (raftLog ?s)" "acked ?s ?i"
    "\<And>j. ?i < j \<Longrightarrow> j < length (raftLog ?s) \<Longrightarrow> \<not> acked ?s j" using assms(3) by (auto simp: leader_commits_def)
  note st = static_length(1,2,7) [OF k(8) assms(2)] and lg = leader_log [OF k(8) assms(2) r(1)]
  have T: "?T \<noteq> 0" using tracks_spec(3) [OF k(8) lg(1)] by blast
  let ?Q = "\<lambda>j. {v. v < ?n \<and> (of_nat j \<le> ?m v \<or> v = b)}"
  have ack: "acked ?s j \<longleftrightarrow> majority ?n \<le> card (?Q j)" for j by (simp add: acked_def acks_def st)
  have fin: "finite (?Q j)" for j by simp
  have i0: "of_nat ?i = commitIndex t" "0 < ?i" using assms(4) by (simp_all add: unat_gt_0)
  have stored: "(?T, v, unat (?m v)) \<in> A \<and> ?i \<le> unat (?m v)" if v: "v \<in> ?Q ?i" "v \<noteq> b" for v
  proof -
    have le: "commitIndex t \<le> ?m v" using v i0(1) by simp
    then have "?m v \<noteq> 0" using assms(4) by auto
    with k(6) v assms(2) r(1) le show ?thesis unfolding matches_ok_def by (auto simp: word_le_nat_alt)
  qed
  have greatest: "j = ?i" if j: "?i \<le> j" "j < length (raftLog ?s)" "?Q ?i \<subseteq> ?Q j" for j
  proof (rule ccontr)
    assume "j \<noteq> ?i"
    with j(1,2) r(4) have "\<not> acked ?s j" by simp
    moreover have "majority ?n \<le> card (?Q j)"
      using ack [THEN iffD1, OF r(3)] card_mono [OF fin j(3)] by (rule le_trans)
    ultimately show False using ack [of j] by blast
  qed
  have hi: "has (canon h ?T) ?i ?T"
  proof (cases "\<exists>v \<in> ?Q ?i. v \<noteq> b")
    case False
    have "?Q ?i \<subseteq> ?Q (length (raftLog ?s) - 1)" using False by auto
    then have "length (raftLog ?s) - 1 = ?i" using r(2) by (intro greatest) auto
    with leader_last [OF assms(1,2) r(1)] lg(2) show ?thesis by simp
  next
    case True
    let ?M = "{unat (?m v) | v. v \<in> ?Q ?i \<and> v \<noteq> b}"
    have M: "finite ?M" "?M \<noteq> {}" using True by auto
    obtain v where v: "v \<in> ?Q ?i" "v \<noteq> b" "Min ?M = unat (?m v)" using Min_in [OF M] by blast
    note s = stored [OF v(1,2)]
    then have hv: "has (canon h ?T) (unat (?m v)) ?T" using stores_okD(1) [OF k(2)] by blast
    have "?Q ?i \<subseteq> ?Q (unat (?m v))"
    proof
      fix u assume u: "u \<in> ?Q ?i"
      show "u \<in> ?Q (unat (?m v))"
      proof (cases "u = b")
        case False
        with u have "Min ?M \<le> unat (?m u)" by (intro Min_le [OF M(1)]) blast
        with u v(3) show ?thesis by (simp add: word_le_nat_alt)
      qed (use u in simp)
    qed
    then have "unat (?m v) = ?i" using s hv lg(2) by (intro greatest) (auto simp: has_def)
    with hv show ?thesis by simp
  qed
  have "(?T, v, ?i) \<in> A" if v: "v \<in> ?Q ?i" for v
  proof (cases "v = b")
    case True
    with stores_okD(4) [OF k(2) assms(2) T] hi lg(2) show ?thesis by simp
  next
    case False
    from stores_okD(2) [OF k(2)] stored [OF v False] hi show ?thesis by blast
  qed
  moreover have "majorityOf ?n (?Q ?i)" using r(3) ack [of ?i] by (auto simp: majorityOf_def majority_def)
  ultimately show ?thesis using lg(1) hi unfolding committed_def by blast
qed

lemma overwrite_take: "take (length es) (overwrite l es) = es"
  by (simp add: overwrite_def)

text \<open>The commit index of the node that moved, in terms of what was committed before.\<close>

lemma commit_moved:
  assumes "turn cfg c b c' h h' A"
  shows "safe_commit (majorityOf (length cfg)) h A (logOf c' b) (termOf c' b) (unat (commitIndex (srv c' b)))"
    (is "?safe (logOf c' b) (termOf c' b) (unat (commitIndex ?t))")
proof -
  note d = turnD [OF assms] and k = tracks_commitD [OF turnD(1) [OF assms]] and w = turn_writes [OF assms]
  let ?s = "srv c b"
  note old = commits_okD(2) [OF k(7) d(8)]
  have bound: "unat (commitIndex ?s) < length (logOf c b)"
    using old static_length(6) [OF d(2,8)] by (auto simp: safe_commit_def)
  consider (same) "log_moves ?s ?t" "commitIndex ?t = commitIndex ?s" | (lead) "leader_commits ?s ?t"
    | (take) a i addr req where "(a, i, addr, req) \<in> appendCalls c" "takes req ?s ?t"
    using w(1) unfolding writes_def by blast
  then show ?thesis
  proof cases
    case same
    obtain ys where ys: "raftLog ?t = raftLog ?s @ ys" using same(1) unfolding log_moves_def by (metis append_Nil2)
    have "?safe (logOf c b) (termOf c' b) (unat (commitIndex ?t))"
      using safe_commit_grows [OF grows_refl subset_refl d(11) old] same(2) by simp
    moreover have "take (Suc (unat (commitIndex ?t))) (logOf c' b) = take (Suc (unat (commitIndex ?t))) (logOf c b)"
      "unat (commitIndex ?t) < length (logOf c' b)" using bound same(2) unfolding ys by simp_all
    ultimately show ?thesis by (rule safe_commit_take [OF _ order_refl])
  next
    case lead
    then have e: "raftLog ?t = raftLog ?s" "termOf c' b = termOf c b" "role ?s = leaderState"
      "unat (commitIndex ?t) < length (raftLog ?s)" by (simp_all add: leader_commits_def)
    show ?thesis
    proof (cases "commitIndex ?t = 0")
      case False
      from leader_commit [OF d(1,8) lead False] e leader_log(2) [OF d(2,8) e(3)]
      show ?thesis by (intro safe_commitI [of _ _ _ "termOf c b" "unat (commitIndex ?t)"]) simp_all
    qed simp
  next
    case take
    note t = taken_piece [OF assms take]
    let ?U = "Term req" and ?es = "take (Suc (covered req)) (canon h (Term req))"
    have r: "?U \<in> fst ` elected h" "unat (LeaderCommit req) \<le> covered req"
      "?safe (canon h ?U) ?U (unat (LeaderCommit req))" "has (canon h ?U) (covered req) ?U"
      using t(1) by (simp_all add: request_ok_def)
    have com: "commitIndex ?t = (if commitIndex ?s < LeaderCommit req
        then min (LeaderCommit req) (logLast (mergedLog req ?s)) else commitIndex ?s)"
      using take(2) by (simp add: takes_def)
    show ?thesis
    proof (cases "commitIndex ?s < LeaderCommit req")
      case False
      with com majorities.safe_commit_overwrite [OF k(3) tracks_spec(3) [OF d(2)] old t(3) r(1) HOL.refl] t(2,4)
      show ?thesis by simp
    next
      case True
      with com have le: "unat (commitIndex ?t) \<le> unat (LeaderCommit req)" by (simp add: word_le_nat_alt flip: word_le_nat_alt)
      have len: "length ?es = Suc (covered req)" using r(4) by (simp add: has_def)
      have up: "take (Suc (covered req)) (logOf c' b) = ?es" using overwrite_take [of ?es "logOf c b"] len t(4) by simp
      have i: "Suc (unat (commitIndex ?t)) \<le> Suc (covered req)" using le r(2) by simp
      have "take (Suc (unat (commitIndex ?t))) (logOf c' b) = take (Suc (unat (commitIndex ?t))) (canon h ?U)"
        using arg_cong [OF up, of "take (Suc (unat (commitIndex ?t)))"] i by (simp add: min_def)
      moreover have "unat (commitIndex ?t) < length (logOf c' b)" using t(5) i by (simp add: has_def)
      ultimately show ?thesis using safe_commit_take [OF r(3) le] t(2) by simp
    qed
  qed
qed

lemma terms_turn:
  assumes "turn cfg c b c' h h' A" "e \<in> set (logOf c' b)"
  shows "fst e \<le> termOf c' b"
proof -
  note d = turnD [OF assms(1)] and k = tracks_commitD [OF turnD(1) [OF assms(1)]]
  have old: "fst e \<le> termOf c' b" if "e \<in> set (logOf c b)"
    using commits_okD(1) [OF k(7) d(8) that] d(11) by (rule order_trans)
  have "writes c (srv c b) (srv c' b)" by (rule turn_writes(1) [OF assms(1)])
  then consider (own) "log_moves (srv c b) (srv c' b)"
    | (take) a i addr req where "(a, i, addr, req) \<in> appendCalls c" "takes req (srv c b) (srv c' b)"
    unfolding writes_def by blast
  then show ?thesis
  proof cases
    case own
    with assms(2) old show ?thesis by (auto simp: log_moves_def plainLog_def)
  next
    case take
    note t = taken_piece [OF assms(1) take]
    have r: "Term req \<in> fst ` elected h" using t(1) by (simp add: request_ok_def)
    have "fst e \<le> termOf c' b" if "e \<in> set (canon h (Term req))"
    proof -
      have so: "sorted (map fst (canon h (Term req)))" "fst (last (canon h (Term req))) = Term req"
        using k(1) r unfolding canon_ok_def by blast+
      with that sorted_last [OF so(1)] t(2) show ?thesis by (metis in_set_conv_nth)
    qed
    moreover have "e \<in> set (logOf c b) \<union> set (canon h (Term req))"
      using subsetD [OF overwrite_set assms(2) [unfolded t(4)]] by (auto dest: in_set_takeD)
    ultimately show ?thesis using old by blast
  qed
qed

lemma commits_turn:
  assumes "turn cfg c b c' h h' A"
  shows "commits_ok cfg c' h' (filed c' b A)"
  unfolding commits_ok_def
proof (intro allI impI conjI ballI)
  note d = turnD [OF assms] and k = tracks_commitD [OF turnD(1) [OF assms]]
  fix a assume a: "a < length cfg"
  { fix e assume "e \<in> set (logOf c' a)"
    with terms_turn [OF assms] commits_okD(1) [OF k(7) a] d(9) show "fst e \<le> termOf c' a"
      by (cases "a = b") auto }
  have "safe_commit (majorityOf (length cfg)) h A (logOf c' a) (termOf c' a) (unat (commitIndex (srv c' a)))"
    using commit_moved [OF assms] commits_okD(2) [OF k(7) a] d(9) by (cases "a = b") auto
  then show "safe_commit (majorityOf (length cfg)) h' (filed c' b A) (logOf c' a) (termOf c' a) (unat (commitIndex (srv c' a)))"
    by (rule safe_commit_grows [OF d(10) filed_mono order_refl])
qed

section \<open>Runs\<close>

lemma step_turn:
  assumes "tracks_commit cfg c h A" "cluster_step cfg grow c c'" "steady cfg c c'" "proper cfg"
  obtains b where "turn cfg c b c' h (recorded c b c' h) A"
proof -
  note k = tracks_commitD [OF assms(1)]
  have c: "cluster_inv cfg c" "calls_ok cfg c" "members_ok cfg c" using k(8) by (simp_all add: tracks_def)
  have reg: "regular cfg c c'" and ad: "distinct (map Address cfg)"
    using assms(3,4) by (simp_all add: steady_def proper_def)
  have m: "members_ok cfg c'" by (rule members_step [OF assms(2) c reg])
  obtain b where b: "commit_acts cfg c b c'"
    by (rule step_commit_acts [OF assms(2) c(1,2) appends_okD(1) [OF k(5)] ad m])
  then have "acts cfg c b c'" by (simp add: commit_acts_def)
  moreover have "firm cfg c c'"
    using step_firm [OF assms(2) c(1) step_lawful [OF assms(2) c(1,3) reg] m assms(3)] assms(4) by (simp add: proper_def)
  ultimately show thesis
    using simulation_at [OF k(8) assms(2) reg assms(4)] that [of b] assms(1,4) b by (simp add: turn_def)
qed

lemma commit_simulation:
  assumes "tracks_commit cfg c h A" "cluster_step cfg grow c c'" "steady cfg c c'" "proper cfg"
  shows "\<exists>h' A'. grows h h' \<and> A \<subseteq> A' \<and> tracks_commit cfg c' h' A'"
proof -
  obtain b where t: "turn cfg c b c' h (recorded c b c' h) A" by (rule step_turn [OF assms])
  have "tracks_commit cfg c' (recorded c b c' h) (filed c' b A)"
    using turnD(3) [OF t] canon_step [OF t] stores_turn [OF t] quorums_turn [OF t] votes_turn [OF t] appends_turn [OF t]
      matches_turn [OF t] commits_turn [OF t] by (simp add: tracks_commit_def)
  with turnD(10) [OF t] filed_mono show ?thesis by blast
qed

text \<open>The commit index of a node does not go back.\<close>

lemma commit_mono:
  assumes "turn cfg c b c' h h' A"
  shows "commitIndex (srv c a) \<le> commitIndex (srv c' a)"
proof (cases "a = b")
  case False
  with turnD(9) [OF assms] show ?thesis by simp
next
  case True
  note d = turnD [OF assms] and k = tracks_commitD [OF turnD(1) [OF assms]] and w = turn_writes [OF assms]
  let ?s = "srv c b" and ?t = "srv c' b"
  consider (same) "commitIndex ?t = commitIndex ?s" | (lead) "leader_commits ?s ?t"
    | (take) a i addr req where "(a, i, addr, req) \<in> appendCalls c" "takes req ?s ?t"
    using w(1) unfolding writes_def by blast
  then show ?thesis
  proof cases
    case take
    note t = taken_piece [OF assms take]
    have r: "Term req \<in> fst ` elected h" using t(1) by (simp add: request_ok_def)
    have com: "commitIndex ?t = (if commitIndex ?s < LeaderCommit req
        then min (LeaderCommit req) (logLast (raftLog ?t)) else commitIndex ?s)"
      using take(2) by (simp add: takes_def)
    have "safe_commit (majorityOf (length cfg)) h A (logOf c' b) (Term req) (unat (commitIndex ?s))"
      unfolding t(4)
      by (rule majorities.safe_commit_overwrite [OF k(3) tracks_spec(3) [OF d(2)] commits_okD(2) [OF k(7) d(8)] t(3) r HOL.refl])
    then have "unat (commitIndex ?s) < length (raftLog ?t)"
      using static_length(6) [OF d(3,8)] by (auto simp: safe_commit_def)
    then have "commitIndex ?s \<le> logLast (raftLog ?t)"
      using static_length(6,7) [OF d(3,8)] by (simp add: word_le_nat_alt)
    with com True show ?thesis by (simp add: less_imp_le)
  qed (use True in \<open>simp_all add: leader_commits_def\<close>)
qed

lemma steady_simulation:
  "steady_run cfg grow c c' \<Longrightarrow> tracks_commit cfg c h A \<Longrightarrow> proper cfg \<Longrightarrow>
     \<exists>h' A'. grows h h' \<and> A \<subseteq> A' \<and> tracks_commit cfg c' h' A'"
proof (induction rule: steady_run.induct)
  case start
  then show ?case using grows_refl by blast
next
  case (step c' c'')
  then obtain h' A' where a: "grows h h'" "A \<subseteq> A'" "tracks_commit cfg c' h' A'" by blast
  from commit_simulation [OF a(3) step.hyps(2,3) step.prems(2)]
  obtain h'' A'' where "grows h' h''" "A' \<subseteq> A''" "tracks_commit cfg c'' h'' A''" by blast
  with a grows_trans show ?case by blast
qed

lemma fresh_tracks_commit:
  assumes "proper cfg" "fresh_cluster cfg grow machine rnd clk c"
  shows "tracks_commit cfg c emptyHistory {}"
proof -
  have nz: "\<forall>m \<in> set cfg. memberId m \<noteq> 0" using assms(1) by (simp add: proper_def)
  note f = fresh_member [OF nz assms(2)]
  have calls: "voteCalls c = {}" "voteAnswers c = {}" "appendCalls c = {}" "appendAnswers c = {}"
    using assms(2) by (simp_all add: fresh_cluster_def)
  have v: "raftLog (srv c a) = [dummyEntry] \<and> termOf c a = 0 \<and> role (srv c a) = followerState \<and> commitIndex (srv c a) = 0"
    if "a < length cfg" for a using f [OF that] by simp
  have e: "elected emptyHistory = {}" by (simp add: emptyHistory_def)
  show ?thesis
    using fresh_tracks [OF assms] v calls
    by (simp add: tracks_commit_def canon_ok_def stores_ok_def quorums_ok_def votes_ok_def vote_calls_ok_def
        vote_answers_ok_def vote_counts_ok_def appends_ok_def addressed_def matches_ok_def commits_ok_def e dummyEntry_def)
qed

lemma run_tracks_commit:
  assumes "proper cfg" "fresh_cluster cfg grow machine rnd clk c" "steady_run cfg grow c c'"
  obtains h A where "tracks_commit cfg c' h A"
  using steady_simulation [OF assms(3) fresh_tracks_commit [OF assms(1,2)] assms(1)] by blast

text \<open>What a node has committed at one moment is in the log of every leader of its or a later term, then and later.\<close>

lemma committed_later:
  assumes "proper cfg" "tracks_commit cfg c h A" "steady_run cfg grow c c'" "a < length cfg" "b < length cfg"
    and "role (srv c' b) = leaderState" "termOf c a \<le> termOf c' b"
  shows "unat (commitIndex (srv c a)) < length (logOf c' b) \<and>
    take (Suc (unat (commitIndex (srv c a)))) (logOf c a) = take (Suc (unat (commitIndex (srv c a)))) (logOf c' b)"
proof -
  obtain h' A' where g: "grows h h'" "A \<subseteq> A'" "tracks_commit cfg c' h' A'"
    using steady_simulation [OF assms(3,2,1)] by blast
  note k = tracks_commitD [OF g(3)] and k0 = tracks_commitD [OF assms(2)]
  let ?i = "unat (commitIndex (srv c a))"
  have "safe_commit (majorityOf (length cfg)) h' A' (logOf c a) (termOf c a) ?i"
    by (rule safe_commit_grows [OF g(1,2) order_refl commits_okD(2) [OF k0(7) assms(4)]])
  note s = majorities.safe_commit_leader [OF k(3) tracks_spec(3) [OF k(8)] this _ assms(7)]
  note l = leader_log [OF k(8) assms(5,6)]
  show ?thesis
  proof (cases "?i = 0")
    case True
    have "take 1 (logOf c a) = take 1 (logOf c' b)"
      using tracks_spec(2) [OF k0(8) assms(4)] tracks_spec(2) [OF k(8) assms(5)] by (simp add: legal_def)
    with True static_length(6) [OF k(8) assms(5)] show ?thesis by simp
  next
    case False
    from s [OF _ False l(1)] l(2) show ?thesis by simp
  qed
qed

text \<open>What two nodes have committed, at one moment or at two, is the same.\<close>

lemma committed_agree:
  assumes "proper cfg" "tracks_commit cfg c h A" "steady_run cfg grow c c'" "a < length cfg" "b < length cfg"
    and "i \<le> unat (commitIndex (srv c a))" "i \<le> unat (commitIndex (srv c' b))"
  shows "take (Suc i) (logOf c a) = take (Suc i) (logOf c' b)"
proof -
  obtain h' A' where g: "grows h h'" "A \<subseteq> A'" "tracks_commit cfg c' h' A'"
    using steady_simulation [OF assms(3,2,1)] by blast
  note k = tracks_commitD [OF g(3)] and k0 = tracks_commitD [OF assms(2)]
  have "safe_commit (majorityOf (length cfg)) h' A' (logOf c a) (termOf c a) (unat (commitIndex (srv c a)))"
    by (rule safe_commit_grows [OF g(1,2) order_refl commits_okD(2) [OF k0(7) assms(4)]])
  moreover have "legal h' (logOf c a)"
  proof (rule legal_mono [OF tracks_spec(2) [OF k0(8) assms(4)]])
    show "elected h \<subseteq> elected h'" using g(1) by (simp add: grows_def)
    fix T assume "T = 0 \<or> T \<in> fst ` elected h"
    then show "\<exists>es. canon h' T = canon h T @ es"
    proof
      assume "T = 0"
      with tracks_spec(4) [OF k(8)] tracks_spec(4) [OF k0(8)] show ?thesis by simp
    next
      assume "T \<in> fst ` elected h"
      with g(1) show ?thesis unfolding grows_def by blast
    qed
  qed
  ultimately show ?thesis
    using majorities.safe_commit_agree [OF k(3) tracks_spec(3) [OF k(8)] _ commits_okD(2) [OF k(7) assms(5)] _
      tracks_spec(2) [OF k(8) assms(5)] assms(6,7)] by blast
qed

end
