(* ===== verification/Apply_Moves.thy ===== *)
theory Apply_Moves
  imports Commit_Moves
begin

text \<open>
  Only \<^verbatim>\<open>advanceCommitIndex\<close> touches the state machine: every other locked section leaves it and
  the number of applied entries alone.
\<close>

definition inert :: "('sm, 'st) Server \<Rightarrow> ('sm, 'st) Server \<Rightarrow> bool" where
  "inert s t \<longleftrightarrow> lastApplied t = lastApplied s \<and> statemachine t = statemachine s"

lemma inert_refl [simp]: "inert s s"
  by (simp add: inert_def)

lemma inert_trans [trans]: "inert s t \<Longrightarrow> inert t u \<Longrightarrow> inert s u"
  by (simp add: inert_def)

section \<open>The building blocks\<close>

lemma persist_inert: "persist w n s = Inr t \<Longrightarrow> inert s t"
  by (auto simp: inert_def persist_def Let_def split: option.splits sum.splits prod.splits if_splits)

lemma setVotedFor_inert: "setVotedFor v s = Inr t \<Longrightarrow> inert s t"
  by (auto simp: inert_def setVotedFor_def split: if_splits)

lemma reset_inert: "resetElectionTimeout s = Inr t \<Longrightarrow> inert s t"
  by (auto simp: inert_def resetElectionTimeout_def Intn_def Now_def split: if_splits prod.splits sum.splits)

lemma rebuild_inert: "rebuildClusterFromLog v s = Inr t \<Longrightarrow> inert s t"
  by (auto simp: inert_def rebuildClusterFromLog_def split: sum.splits)

lemma updateTerm_inert:
  assumes "updateTerm msg s = Inr (b, t)"
  shows "inert s t"
proof (cases "currentTerm s < Term msg")
  case False
  with assms show ?thesis by (simp add: updateTerm_def)
next
  case True
  then obtain s1 s2 where u: "setVotedFor 0 (s\<lparr>currentTerm := Term msg, role := followerState\<rparr>) = Inr s1"
    "resetElectionTimeout (s1\<lparr>pendingConfigChangeIndex := 0\<rparr>) = Inr s2" "persist False 0 s2 = Inr t"
    using assms by (auto simp: updateTerm_def chain_Inr_iff)
  from setVotedFor_inert [OF u(1)] reset_inert [OF u(2)] persist_inert [OF u(3)] show ?thesis
    by (simp add: inert_def)
qed

section \<open>The operations\<close>

lemma heartbeat_inert: "heartbeat s = (is, t) \<Longrightarrow> inert s t"
  by (auto simp: inert_def heartbeat_def Now_def Let_def split: if_splits)

lemma timeout_inert:
  assumes "timeout s = Inr (is, t)"
  shows "inert s t"
proof (cases "Passive s \<or> \<not> electionTimeout s < clock s 0")
  case True
  with assms show ?thesis by (auto simp: timeout_def Now_def inert_def split: if_splits)
next
  case False
  let ?s1 = "s\<lparr>clock := \<lambda>n. clock s (Suc n)\<rparr>"
  let ?c = "?s1\<lparr>role := candidateState, currentTerm := currentTerm s + 1, cluster := resetVotes ?s1\<rparr>"
  obtain s2 where "resetElectionTimeout ?c = Inr s2" "persist False 0 s2 = Inr t"
    using assms False by (auto simp: timeout_def Now_def chain_Inr_iff)
  from reset_inert [OF this(1)] persist_inert [OF this(2)] show ?thesis by (simp add: inert_def)
qed

lemma becomeLeader_inert: "becomeLeader grow s = Inr t \<Longrightarrow> inert s t"
  by (auto simp: becomeLeader_def chain_Inr_iff Let_def Now_def inert_def appendLog_def
      dest!: persist_inert split: if_splits)

lemma vote_response_inert:
  assumes "handleVoteResponse i req rsp s = Inr t"
  shows "inert s t"
proof -
  obtain b s1 where u: "updateTerm rsp s = Inr (b, s1)"
    using assms by (auto simp: handleVoteResponse_def chain_Inr_iff)
  have "inert s1 t" using assms u by (auto simp: handleVoteResponse_def inert_def split: if_splits)
  with updateTerm_inert [OF u] show ?thesis by (rule inert_trans)
qed

lemma on_vote_inert:
  assumes "HandleRequestVoteRequest req s = Inr (rsp, t)"
  shows "inert s t"
proof -
  obtain b s1 where u: "updateTerm req s = Inr (b, s1)"
    using assms by (auto simp: HandleRequestVoteRequest_def chain_Inr_iff)
  consider "t = s1" | s2 s3 where "setVotedFor (CandidateId req) s1 = Inr s2" "resetElectionTimeout s2 = Inr s3"
      "persist False 0 s3 = Inr t"
    using assms u
    by (auto simp: HandleRequestVoteRequest_def chain_Inr_iff Let_def split: if_splits sum.splits)
  then have "inert s1 t"
    by cases (simp, meson inert_trans setVotedFor_inert reset_inert persist_inert)
  with updateTerm_inert [OF u] show ?thesis by (rule inert_trans)
qed

lemma append_response_inert:
  assumes "handleAppendResponse i req rsp s = Inr t"
  shows "inert s t"
proof -
  obtain b s1 where u: "updateTerm rsp s = Inr (b, s1)"
    using assms by (auto simp: handleAppendResponse_def chain_Inr_iff)
  have "inert s1 t" using assms u by (auto simp: handleAppendResponse_def Let_def inert_def split: if_splits)
  with updateTerm_inert [OF u] show ?thesis by (rule inert_trans)
qed

lemma appendLoop_inert:
  "appendLoop grow T i rs v n s = Inr (k, t) \<Longrightarrow> inert s t"
proof (induction rs arbitrary: i n s)
  case (Cons r rs)
  let ?e = "r\<lparr>result := None\<rparr>"
  obtain s1 s2 d s3 s4 where st: "reserveLog T i s = Inr s1" "truncateLog i ?e v s1 = Inr s2"
    "placeEntry grow i ?e s2 = Inr (d, s3)" "adoptConfig i ?e v s3 = Inr s4"
    "appendLoop grow T (i + 1) rs v (n + d) s4 = Inr (k, t)"
    using Cons.prems by (auto simp: Let_def chain_Inr_iff)
  have "inert s s1" using st(1) by (auto simp: reserveLog_def inert_def split: if_splits)
  also have "inert s1 s2"
    using st(2) rebuild_inert [of v "s1\<lparr>raftLog := take (unat i) (raftLog s1)\<rparr>"]
    by (auto simp: truncateLog_def inert_def split: if_splits)
  also have "inert s2 s3"
    using st(3) by (auto simp: placeEntry_def appendLog_def inert_def Let_def split: if_splits)
  also have "inert s3 s4"
    using st(4) by (auto simp: adoptConfig_def inert_def Let_def split: if_splits sum.splits)
  also have "inert s4 t" by (rule Cons.IH [OF st(5)])
  finally show ?case .
qed simp

lemma stepDown_inert [simp]: "inert s (stepDown req s)"
  by (simp add: inert_def stepDown_def)

lemma on_append_inert:
  assumes "HandleAppendEntriesRequest grow req s = Inr (rsp, t)"
  shows "inert s t"
proof -
  obtain b s1 where u: "updateTerm req s = Inr (b, s1)"
    using assms by (auto simp: HandleAppendEntriesRequest_def chain_Inr_iff)
  note eq = HandleAppendEntriesRequest_def [of grow req s, unfolded u chain_simps prod.case Let_def,
    folded stepDown_def]
  consider "t = stepDown req s1"
    | s3 where "resetElectionTimeout (stepDown req s1) = Inr s3" "t = s3\<lparr>Passive := False\<rparr>"
    | s3 v n s5 where "resetElectionTimeout (stepDown req s1) = Inr s3"
      "appendLoop grow (PrevLogIndex req + 1 + of_nat (length (Entries req)))
          (PrevLogIndex req + 1) (Entries req) v 0 (s3\<lparr>Passive := False\<rparr>) = Inr (n, s5)"
      "persist (n \<noteq> 0) (int n) (if commitIndex s5 < LeaderCommit req
        then s5\<lparr>commitIndex := min (LeaderCommit req) (logLast (raftLog s5))\<rparr> else s5) = Inr t"
    using assms unfolding eq by (auto simp: chain_Inr_iff split: if_splits sum.splits)
  then have "inert (stepDown req s1) t"
  proof cases
    case 2
    with reset_inert show ?thesis by (auto simp: inert_def)
  next
    case 3
    have "inert (stepDown req s1) s3" by (rule reset_inert [OF 3(1)])
    also have "inert s3 s5" using appendLoop_inert [OF 3(2)] by (simp add: inert_def)
    also have "inert s5 t" using persist_inert [OF 3(3)] by (simp add: inert_def split: if_splits)
    finally show ?thesis .
  qed simp
  with updateTerm_inert [OF u] stepDown_inert show ?thesis by (blast intro: inert_trans)
qed

lemma client_inert: "Apply grow cs s = Inr (r, t) \<Longrightarrow> inert s t"
  using appendCommands_ok [of grow cs s]
  by (auto simp: Apply_def chain_Inr_iff Let_def inert_def dest!: persist_inert split: if_splits)

lemma add_inert: "AddServer grow i a s = Inr (q, t) \<Longrightarrow> inert s t"
  by (auto simp: AddServer_def appendLocked_def appendLog_def chain_Inr_iff Let_def inert_def
      dest!: persist_inert split: if_splits sum.splits prod.splits)

section \<open>The steps of a node\<close>

definition apply_moves :: "('sm, 'st) Server \<Rightarrow> ('sm, 'st) Server \<Rightarrow> bool" where
  "apply_moves s t \<longleftrightarrow> inert s t \<or> advanceCommitIndex s = Inr t"

lemmas loop_inert = reset_inert heartbeat_inert timeout_inert becomeLeader_inert

lemma loopStep_apply: "loopStep grow p s = Inr (p', gs, t) \<Longrightarrow> apply_moves s t"
  by (cases p) (auto simp: apply_moves_def chain_Inr_iff Let_def split: prod.splits intro: loop_inert)

lemma local_apply:
  assumes "local_step grow n m"
  shows "apply_moves (server n) (server m)"
  using assms
proof cases
  case (loop p gs s')
  with loopStep_apply show ?thesis by auto
next
  case (client cs r s')
  with client_inert show ?thesis by (auto simp: apply_moves_def)
next
  case (add i addr q s')
  with add_inert show ?thesis by (auto simp: apply_moves_def)
next
  case stop
  then show ?thesis by (simp add: apply_moves_def Stop_def inert_def)
qed (simp_all add: apply_moves_def)

text \<open>A step of a cluster is one of a node's.\<close>

lemma node_apply:
  assumes "node_step grow n m"
  shows "apply_moves (server n) (server m)"
  using assms
proof cases
  case own
  then show ?thesis by (rule local_apply)
next
  case (vote_response xs i req ys rsp s')
  with vote_response_inert show ?thesis by (auto simp: apply_moves_def)
next
  case (append_response xs i areq ys arsp s')
  with append_response_inert show ?thesis by (auto simp: apply_moves_def)
next
  case (on_vote req rsp s')
  with on_vote_inert show ?thesis by (auto simp: apply_moves_def)
next
  case (on_append areq arsp s')
  with on_append_inert show ?thesis by (auto simp: apply_moves_def)
qed (simp_all add: apply_moves_def)

end
