(* ===== verification/Cluster_Machine.thy ===== *)
theory Cluster_Machine
  imports Cluster_Commit Apply_Moves
begin

text \<open>
  The state machines of a cluster: each is the fold of the committed commands its node has
  applied, and since committed entries agree and stay, no two of them ever fork.
\<close>

definition machines_ok ::
  "ClusterMember list \<Rightarrow> (nat \<Rightarrow> 'sm StateMachine) \<Rightarrow> ('sm, MemStorage) Cluster \<Rightarrow> bool" where
  "machines_ok cfg machine c \<longleftrightarrow> (\<forall>a < length cfg. applied_ok (sm (machine a)) (srv c a) \<and>
     sm_Apply (statemachine (srv c a)) = sm_Apply (machine a) \<and>
     unat (lastApplied (srv c a)) \<le> Suc (unat (commitIndex (srv c a))))"

lemma plain_commands: "plainLog es = plainLog fs \<Longrightarrow> map Command es = map Command fs"
  by (drule arg_cong [of _ _ "map snd"]) (simp add: plainLog_def comp_def)

lemma same_prefix_fold:
  assumes "take k (plainLog es) = take k (plainLog fs)"
  shows "applyLog f x (take k es) = applyLog f x (take k fs)"
  by (rule applyLog_commands [OF plain_commands]) (use assms in simp)

lemma applied_kept:
  assumes "applied_ok x s" "inert s t" "take (unat (lastApplied s)) (plainLog (raftLog s)) = take (unat (lastApplied s)) (plainLog (raftLog t))"
    "raftLog t \<noteq> []" "fits (length (raftLog t))"
  shows "applied_ok x t"
proof -
  let ?k = "unat (lastApplied s)"
  have "min (length (raftLog s)) ?k = min (length (raftLog t)) ?k"
    using arg_cong [OF assms(3), of length] by simp
  moreover have "?k \<le> length (raftLog s)" using assms(1) by (simp add: applied_ok_def)
  ultimately have "?k \<le> length (raftLog t)" by simp
  with assms(1,2,4,5) same_prefix_fold [OF assms(3), of "sm_Apply (statemachine s)" x] show ?thesis by (simp add: applied_ok_def inert_def)
qed

lemma machines_step:
  assumes "machines_ok cfg machine c" "tracks_commit cfg c h A" "cluster_step cfg grow c c'" "steady cfg c c'" "proper cfg"
  shows "machines_ok cfg machine c'"
  unfolding machines_ok_def
proof (intro allI impI)
  fix a assume a: "a < length cfg"
  note k = tracks_commitD [OF assms(2)]
  have inv: "cluster_inv cfg c" using k(8) by (simp add: tracks_def)
  obtain b0 where t: "turn cfg c b0 c' h (recorded c b0 c' h) A" by (rule step_turn [OF assms(2-5)])
  have tr: "tracks cfg c' (recorded c b0 c' h)" by (rule turnD(3) [OF t])
  let ?s = "srv c a" and ?t = "srv c' a"
  have old: "applied_ok (sm (machine a)) ?s" "sm_Apply (statemachine ?s) = sm_Apply (machine a)"
    "unat (lastApplied ?s) \<le> Suc (unat (commitIndex ?s))"
    using assms(1) a by (simp_all add: machines_ok_def)
  obtain b where b: "b < length cfg" "node_step grow (nodes c b) (nodes c' b)" "\<And>a. a \<noteq> b \<Longrightarrow> nodes c' a = nodes c a"
    using cluster_node_step [OF inv assms(3)] by metis
  have "apply_moves ?s ?t"
    using node_apply [OF b(2)] b(3) by (cases "a = b") (simp_all add: apply_moves_def)
  then show "applied_ok (sm (machine a)) ?t \<and> sm_Apply (statemachine ?t) = sm_Apply (machine a) \<and>
      unat (lastApplied ?t) \<le> Suc (unat (commitIndex ?t))"
    unfolding apply_moves_def
  proof
    assume adv: "advanceCommitIndex ?s = Inr ?t"
    note n = advance_applied_ok [OF old(1) adv]
    have "unat (lastApplied ?t) \<le> Suc (unat (commitIndex ?t))"
    proof (cases "lastApplied ?t = lastApplied ?s")
      case True
      with old(3) n show ?thesis by (simp add: word_le_nat_alt)
    next
      case False
      with n have "lastApplied ?t = lastApplied ?s + 1" "lastApplied ?s \<le> commitIndex ?t" by auto
      moreover have "unat (lastApplied ?s + 1) \<le> Suc (unat (lastApplied ?s))"
        by (simp add: unat_plus_if') arith
      ultimately show ?thesis by (simp add: word_le_nat_alt)
    qed
    with n old(2) show ?thesis by simp
  next
    assume i: "inert ?s ?t"
    have mono: "commitIndex ?s \<le> commitIndex ?t" by (rule commit_mono [OF t])
    then have le: "unat (commitIndex ?s) \<le> unat (commitIndex ?t)" by (simp add: word_le_nat_alt)
    have "steady_run cfg grow c c'" by (rule steady_run.step [OF steady_run.start assms(3,4)])
    from committed_agree [OF assms(5,2) this a a order_refl le]
    have "take (Suc (unat (commitIndex ?s))) (logOf c a) = take (Suc (unat (commitIndex ?s))) (logOf c' a)" .
    from arg_cong [OF this, of "take (unat (lastApplied ?s))"] old(3)
    have "take (unat (lastApplied ?s)) (logOf c a) = take (unat (lastApplied ?s)) (logOf c' a)" by (simp add: min_def)
    from applied_kept [OF old(1) i this static_length(6,7) [OF tr a]] old(2,3) i le
    show ?thesis by (simp add: inert_def)
  qed
qed

lemma machines_run:
  assumes "steady_run cfg grow c c'" "machines_ok cfg machine c" "tracks_commit cfg c h A" "proper cfg"
  shows "machines_ok cfg machine c' \<and> (\<exists>h' A'. tracks_commit cfg c' h' A')"
  using assms
proof (induction rule: steady_run.induct)
  case start
  then show ?case by blast
next
  case (step c' c'')
  then obtain h' A' where m: "machines_ok cfg machine c'" "tracks_commit cfg c' h' A'" by blast
  with machines_step [OF m step.hyps(2,3) step.prems(3)] commit_simulation [OF m(2) step.hyps(2,3) step.prems(3)]
  show ?case by blast
qed

lemma fresh_machines:
  assumes "\<forall>m \<in> set cfg. memberId m \<noteq> 0" "fresh_cluster cfg grow machine rnd clk c"
  shows "machines_ok cfg machine c"
  unfolding machines_ok_def
proof (intro allI impI)
  fix a assume a: "a < length cfg"
  obtain s where s: "NewServer cfg (machine a) (int a) (rnd a) (clk a) = Inr s"
    "Start grow (Inr (memDevice NewMemStorage)) s = Inr (nodes c a)"
    using assms(2) a unfolding fresh_cluster_def by blast
  obtain s1 n where f: "NewServer cfg (machine a) (int a) (rnd a) (clk a) = Inr s1"
    "Start grow (Inr (memDevice NewMemStorage)) (s1\<lparr>Passive := False\<rparr>) = Inr n"
    "raftLog (server n) = [dummyEntry]" "statemachine (server n) = machine a" "lastApplied (server n) = 0"
    by (rule fresh_start [OF assms(1) a])
  have "s1 = s" using s(1) f(1) by simp
  then have "n = nodes c a" using s(2) f(2) new_not_passive [OF s(1)] by simp
  with f(3-5) show "applied_ok (sm (machine a)) (srv c a) \<and> sm_Apply (statemachine (srv c a)) = sm_Apply (machine a) \<and>
      unat (lastApplied (srv c a)) \<le> Suc (unat (commitIndex (srv c a)))"
    by (simp add: applied_ok_def fits_def)
qed

text \<open>A machine is the fold of what its node has applied, and so of the log of any node that has applied as much.\<close>

lemma machines_prefix:
  assumes "proper cfg" "machines_ok cfg machine c" "tracks_commit cfg c h A" "steady_run cfg grow c c'"
    and "a < length cfg" "b < length cfg" "lastApplied (srv c a) \<le> lastApplied (srv c' b)"
  shows "applyLog (sm_Apply (machine a)) (sm (machine a)) (take (unat (lastApplied (srv c a))) (raftLog (srv c' b)))
    = Inr (sm (statemachine (srv c a)))"
proof -
  have m': "machines_ok cfg machine c'" using machines_run [OF assms(4,2,3,1)] by blast
  let ?s = "srv c a" and ?t = "srv c' b" and ?f = "sm_Apply (machine a)" and ?x = "sm (machine a)"
  let ?i = "unat (lastApplied ?s)" and ?j = "unat (lastApplied ?t)"
  have f: "sm_Apply (statemachine ?s) = ?f" using assms(2,5) by (simp add: machines_ok_def)
  have "applied_ok ?x ?s" using assms(2,5) by (simp add: machines_ok_def)
  then have fold: "applyLog ?f ?x (take ?i (raftLog ?s)) = Inr (sm (statemachine ?s))"
    unfolding applied_ok_def f by blast
  have s: "?i \<le> Suc (unat (commitIndex ?s))" and t: "?j \<le> Suc (unat (commitIndex ?t))"
    using assms(2,5,6) m' by (simp_all add: machines_ok_def)
  have ij: "?i \<le> ?j" using assms(7) by (simp add: word_le_nat_alt)
  have "take ?i (logOf c a) = take ?i (logOf c' b)"
  proof (cases "?i = 0")
    case False
    then have "?i - 1 \<le> unat (commitIndex ?s)" "?i - 1 \<le> unat (commitIndex ?t)" using s t ij by simp_all
    from committed_agree [OF assms(1,3,4,5,6) this] False show ?thesis by simp
  qed simp
  from same_prefix_fold [OF this, of ?f ?x] fold show ?thesis by simp
qed

end
