(* ===== verification/Clocks.thy ===== *)
theory Clocks
  imports Cluster_Machine
begin

text \<open>
  Nodes with fast clocks, for concrete runs: between two readings of the clock every timeout
  passes, whatever the generator returns. No operation of a node changes that.
\<close>

text \<open>The state that only clients and the application of commands change.\<close>

definition served :: "('sm, 'st) Server \<Rightarrow> nat \<times> 'sm StateMachine \<times> (nat \<times> ApplyResult) list" where
  [simp]: "served s = (nextChan s, statemachine s, delivered s)"

definition fast_clock :: "('sm, 'st) Server \<Rightarrow> bool" where
  "fast_clock s \<longleftrightarrow> 0 < heartbeatMs s \<and> electionTimeout s < clock s 0 \<and> heartbeatTimeout s < clock s 0 \<and>
     (\<forall>n. clock s n + 4 * heartbeatMs s * Millisecond \<le> clock s (Suc n)) \<and> \<not> stopped s \<and> \<not> Passive s"

definition fast ::
  "nat \<times> 'sm StateMachine \<times> (nat \<times> ApplyResult) list \<Rightarrow> ('sm, 'st) Server \<Rightarrow> bool" where
  "fast x s \<longleftrightarrow> fast_clock s \<and> served s = x"

text \<open>What the clock depends on is left alone.\<close>

definition timers_kept :: "('sm, 'st) Server \<Rightarrow> ('sm, 'st) Server \<Rightarrow> bool" where
  "timers_kept s t \<longleftrightarrow> clock t = clock s \<and> electionTimeout t = electionTimeout s \<and> heartbeatMs t = heartbeatMs s \<and>
     heartbeatTimeout t = heartbeatTimeout s \<and> stopped t = stopped s \<and> Passive t = Passive s \<and> served t = served s"

lemma timers_trans [trans]: "timers_kept s t \<Longrightarrow> timers_kept t u \<Longrightarrow> timers_kept s u"
  by (simp add: timers_kept_def)

lemma fast_kept: "fast x s \<Longrightarrow> timers_kept s t \<Longrightarrow> fast x t"
  by (simp add: fast_def fast_clock_def timers_kept_def)

lemma fast_gap: "fast x s \<Longrightarrow> clock s n < clock s (Suc n)"
proof -
  assume f: "fast x s"
  then have "0 < 4 * heartbeatMs s * Millisecond" by (simp add: fast_def fast_clock_def)
  moreover have "clock s n + 4 * heartbeatMs s * Millisecond \<le> clock s (Suc n)" using f unfolding fast_def fast_clock_def by blast
  ultimately show ?thesis by linarith
qed

lemma fast_now: "fast x s \<Longrightarrow> fast x (s\<lparr>clock := \<lambda>n. clock s (Suc n)\<rparr>)"
  using fast_gap [of x s 0] by (auto simp: fast_def fast_clock_def)

lemma fast_reset:
  assumes "fast x s" "resetElectionTimeout s = Inr t"
  shows "fast x t"
proof -
  let ?r = "int (rand s 0) mod (heartbeatMs s * 2)"
  have h: "0 < heartbeatMs s" using assms(1) by (simp add: fast_def fast_clock_def)
  have t: "t = s\<lparr>rand := \<lambda>k. rand s (Suc k), clock := \<lambda>n. clock s (Suc n),
      electionTimeout := clock s 0 + (?r + heartbeatMs s * 2) * Millisecond\<rparr>"
    using assms(2) h by (simp add: resetElectionTimeout_def Intn_def Now_def)
  have "?r < heartbeatMs s * 2" using h by simp
  then have "(?r + heartbeatMs s * 2) * Millisecond < 4 * heartbeatMs s * Millisecond"
    by (intro mult_strict_right_mono) simp_all
  moreover have "clock s 0 + 4 * heartbeatMs s * Millisecond \<le> clock s (Suc 0)"
    using assms(1) unfolding fast_def fast_clock_def by blast
  ultimately have "electionTimeout t < clock t 0" unfolding t by simp
  moreover have "heartbeatTimeout t < clock t 0" using assms(1) fast_gap [OF assms(1), of 0] unfolding t fast_def fast_clock_def by simp
  ultimately show ?thesis using assms(1) unfolding fast_def fast_clock_def by (simp add: t)
qed

lemma persist_timers: "persist w n s = Inr t \<Longrightarrow> timers_kept s t"
  by (auto simp: timers_kept_def persist_def Let_def split: option.splits sum.splits prod.splits if_splits)

lemma setVote_timers: "setVotedFor v s = Inr t \<Longrightarrow> timers_kept s t"
  by (auto simp: timers_kept_def setVotedFor_def split: if_splits)

lemma rebuild_timers: "rebuildClusterFromLog v s = Inr t \<Longrightarrow> timers_kept s t"
  by (auto simp: timers_kept_def rebuildClusterFromLog_def split: sum.splits)

lemma fast_updateTerm:
  assumes "fast x s" "updateTerm msg s = Inr (b, t)"
  shows "fast x t"
proof (cases "currentTerm s < Term msg")
  case False
  with assms show ?thesis by (simp add: updateTerm_def)
next
  case True
  then obtain s1 s2 where u: "setVotedFor 0 (s\<lparr>currentTerm := Term msg, role := followerState\<rparr>) = Inr s1"
    "resetElectionTimeout (s1\<lparr>pendingConfigChangeIndex := 0\<rparr>) = Inr s2" "persist False 0 s2 = Inr t"
    using assms(2) by (auto simp: updateTerm_def chain_Inr_iff)
  have "timers_kept s (s1\<lparr>pendingConfigChangeIndex := 0\<rparr>)"
    using setVote_timers [OF u(1)] by (simp add: timers_kept_def)
  from fast_kept [OF fast_reset [OF fast_kept [OF assms(1) this] u(2)] persist_timers [OF u(3)]] show ?thesis .
qed

lemma fast_vote:
  assumes "fast x s" "HandleRequestVoteRequest req s = Inr (rsp, t)"
  shows "fast x t"
proof -
  obtain b s1 where u: "updateTerm req s = Inr (b, s1)"
    using assms(2) by (auto simp: HandleRequestVoteRequest_def chain_Inr_iff)
  have f: "fast x s1" by (rule fast_updateTerm [OF assms(1) u])
  consider "t = s1" | s2 s3 where "setVotedFor (CandidateId req) s1 = Inr s2" "resetElectionTimeout s2 = Inr s3"
      "persist False 0 s3 = Inr t"
    using assms(2) u
    by (auto simp: HandleRequestVoteRequest_def chain_Inr_iff Let_def split: if_splits sum.splits)
  then show ?thesis
  proof cases
    case 2
    from fast_kept [OF fast_reset [OF fast_kept [OF f setVote_timers [OF 2(1)]] 2(2)] persist_timers [OF 2(3)]]
    show ?thesis .
  qed (use f in simp)
qed

lemma fast_timeout:
  assumes "fast x s" "timeout s = Inr (is, t)"
  shows "fast x t"
proof (cases "Passive s")
  case True
  with assms show ?thesis by (simp add: timeout_def)
next
  case False
  let ?s1 = "s\<lparr>clock := \<lambda>n. clock s (Suc n)\<rparr>"
  let ?c = "?s1\<lparr>role := candidateState, currentTerm := currentTerm s + 1, cluster := resetVotes ?s1\<rparr>"
  have fires: "electionTimeout s < clock s 0" using assms(1) by (simp add: fast_def fast_clock_def)
  obtain s2 where "resetElectionTimeout ?c = Inr s2" "persist False 0 s2 = Inr t"
    using assms(2) False fires by (auto simp: timeout_def Now_def chain_Inr_iff)
  moreover have "fast x ?c" using fast_now [OF assms(1)] by (simp add: fast_def fast_clock_def)
  ultimately show ?thesis using fast_reset fast_kept [OF _ persist_timers] by blast
qed

lemma fast_advance:
  assumes "fast x s" "advanceCommitIndex s = Inr t"
  shows "fast (served t) t"
proof -
  let ?f = "fast_clock :: ('a, 'b) Server \<Rightarrow> bool"
  have l: "?f (advanceLeaderCommit s)"
    using assms(1) by (simp add: advanceLeaderCommit_def fast_def fast_clock_def split: option.splits)
  have "?f u" if "applyEntry e s' = Inr u" "?f s'" for e u and s'
    using that
    by (auto simp: applyEntry_def deliver_def fast_clock_def split: if_splits option.splits sum.splits prod.splits)
  with assms(2) l have "?f t"
    by (auto simp: advanceCommitIndex_def Let_def chain_Inr_iff fast_clock_def split: if_splits)
  then show ?thesis by (simp add: fast_def fast_clock_def)
qed

lemma fast_leader:
  assumes "fast x s" "becomeLeader grow s = Inr t"
  shows "fast x t"
proof (cases "countVotes (selfId s) (length (cluster s) div 2 + 1) (cluster s) = 0")
  case False
  with assms show ?thesis by (simp add: becomeLeader_def)
next
  case True
  then obtain s2 where s2: "timers_kept s s2" "t = s2\<lparr>clock := \<lambda>n. clock s2 (Suc n), heartbeatTimeout := clock s2 0\<rparr>"
    using assms(2) by (auto simp: becomeLeader_def chain_Inr_iff Let_def Now_def appendLog_def timers_kept_def
        dest!: persist_timers)
  have f: "fast x s2" by (rule fast_kept [OF assms(1) s2(1)])
  from fast_now [OF f] fast_gap [OF f, of 0] show ?thesis unfolding s2(2) by (simp add: fast_def fast_clock_def)
qed

lemma fast_heartbeat:
  assumes "fast x s" "heartbeat s = (is, t)"
  shows "fast x t" "is = appendEntries s"
proof -
  have due: "heartbeatTimeout s < clock s 0" using assms(1) by (simp add: fast_def fast_clock_def)
  let ?s1 = "s\<lparr>clock := \<lambda>n. clock s (Suc n)\<rparr>"
  let ?s2 = "?s1\<lparr>clock := \<lambda>n. clock ?s1 (Suc n)\<rparr>"
  have t: "t = ?s2\<lparr>heartbeatTimeout := clock s 1 + heartbeatMs s * Millisecond\<rparr>" "is = appendEntries t"
    using assms(2) due by (auto simp: heartbeat_def Now_def Let_def)
  have f: "fast x ?s2" by (intro fast_now assms(1))
  have "heartbeatMs s * Millisecond < 4 * heartbeatMs s * Millisecond" using assms(1) by (simp add: fast_def fast_clock_def)
  moreover have "clock s 1 + 4 * heartbeatMs s * Millisecond \<le> clock s (Suc 1)" using assms(1) unfolding fast_def fast_clock_def by blast
  ultimately have "clock s 1 + heartbeatMs s * Millisecond < clock s 2" by (simp add: numeral_2_eq_2)
  with f show "fast x t" unfolding t(1) by (simp add: fast_def fast_clock_def numeral_2_eq_2)
  show "is = appendEntries s" unfolding t by (simp add: appendEntries_def)
qed

lemma appendLoop_timers:
  "appendLoop grow T i rs v n s = Inr (k, t) \<Longrightarrow> timers_kept s t"
proof (induction rs arbitrary: i n s)
  case Nil
  then show ?case by (simp add: timers_kept_def)
next
  case (Cons r rs)
  let ?e = "r\<lparr>result := None\<rparr>"
  obtain s1 s2 d s3 s4 where st: "reserveLog T i s = Inr s1" "truncateLog i ?e v s1 = Inr s2"
    "placeEntry grow i ?e s2 = Inr (d, s3)" "adoptConfig i ?e v s3 = Inr s4"
    "appendLoop grow T (i + 1) rs v (n + d) s4 = Inr (k, t)"
    using Cons.prems by (auto simp: Let_def chain_Inr_iff)
  have "timers_kept s s1" using st(1) by (auto simp: reserveLog_def timers_kept_def split: if_splits)
  also have "timers_kept s1 s2"
    using st(2) rebuild_timers [of v "s1\<lparr>raftLog := take (unat i) (raftLog s1)\<rparr>"]
    by (auto simp: truncateLog_def timers_kept_def split: if_splits)
  also have "timers_kept s2 s3"
    using st(3) by (auto simp: placeEntry_def appendLog_def timers_kept_def Let_def split: if_splits)
  also have "timers_kept s3 s4"
    using st(4) by (auto simp: adoptConfig_def timers_kept_def Let_def split: if_splits sum.splits)
  also have "timers_kept s4 t" by (rule Cons.IH [OF st(5)])
  finally show ?case .
qed

lemma fast_append:
  assumes "fast x s" "HandleAppendEntriesRequest grow req s = Inr (rsp, t)"
  shows "fast x t"
proof -
  obtain b s1 where u: "updateTerm req s = Inr (b, s1)"
    using assms(2) by (auto simp: HandleAppendEntriesRequest_def chain_Inr_iff)
  note eq = HandleAppendEntriesRequest_def [of grow req s, unfolded u chain_simps prod.case Let_def,
    folded stepDown_def]
  have f: "fast x (stepDown req s1)"
    using fast_updateTerm [OF assms(1) u] by (rule fast_kept) (simp add: stepDown_def timers_kept_def)
  consider "t = stepDown req s1"
    | s3 where "resetElectionTimeout (stepDown req s1) = Inr s3" "t = s3\<lparr>Passive := False\<rparr>"
    | s3 v n s5 where "resetElectionTimeout (stepDown req s1) = Inr s3"
      "appendLoop grow (PrevLogIndex req + 1 + of_nat (length (Entries req)))
          (PrevLogIndex req + 1) (Entries req) v 0 (s3\<lparr>Passive := False\<rparr>) = Inr (n, s5)"
      "persist (n \<noteq> 0) (int n) (if commitIndex s5 < LeaderCommit req
        then s5\<lparr>commitIndex := min (LeaderCommit req) (logLast (raftLog s5))\<rparr> else s5) = Inr t"
    using assms(2) unfolding eq by (auto simp: chain_Inr_iff split: if_splits sum.splits)
  then show ?thesis
  proof cases
    case 2
    from fast_reset [OF f 2(1)] show ?thesis unfolding 2(2) by (simp add: fast_def fast_clock_def)
  next
    case 3
    have r: "fast x s3" by (rule fast_reset [OF f 3(1)])
    then have "\<not> Passive s3" by (simp add: fast_def fast_clock_def)
    then have "timers_kept s3 s5" using appendLoop_timers [OF 3(2)] by (simp add: timers_kept_def)
    also have "timers_kept s5 t" using persist_timers [OF 3(3)] by (simp add: timers_kept_def split: if_splits)
    finally show ?thesis by (rule fast_kept [OF r])
  qed (use f in simp)
qed

lemma fast_vote_response:
  assumes "fast x s" "handleVoteResponse i req rsp s = Inr t"
  shows "fast x t"
proof -
  obtain b s1 where u: "updateTerm rsp s = Inr (b, s1)"
    using assms(2) by (auto simp: handleVoteResponse_def chain_Inr_iff)
  have "timers_kept s1 t" using assms(2) u by (auto simp: handleVoteResponse_def timers_kept_def split: if_splits)
  with fast_updateTerm [OF assms(1) u] show ?thesis by (rule fast_kept)
qed

lemma fast_append_response:
  assumes "fast x s" "handleAppendResponse i req rsp s = Inr t"
  shows "fast x t"
proof -
  obtain b s1 where u: "updateTerm rsp s = Inr (b, s1)"
    using assms(2) by (auto simp: handleAppendResponse_def chain_Inr_iff)
  have "timers_kept s1 t"
    using assms(2) u by (auto simp: handleAppendResponse_def Let_def timers_kept_def split: if_splits)
  with fast_updateTerm [OF assms(1) u] show ?thesis by (rule fast_kept)
qed

end
