(* ===== verification/Sketches.thy ===== *)
theory Sketches
  imports Clocks
begin

text \<open>
  A sketch of a node is a server state whose clock, generator, device and log capacity do not
  matter. On nodes with fast clocks each locked section of the program is a simple function of
  the sketch: what it does to a node it does to its sketch.
\<close>

section \<open>Nodes that look like a sketch\<close>

definition sameState :: "('sm, 'st) Server \<Rightarrow> ('sm, 'st) Server \<Rightarrow> bool" where
  "sameState u s \<longleftrightarrow> currentTerm s = currentTerm u \<and> raftLog s = raftLog u \<and> selfId s = selfId u \<and>
     baseCluster s = baseCluster u \<and> role s = role u \<and> cluster s = cluster u \<and> clusterIndex s = clusterIndex u \<and>
     commitIndex s = commitIndex u \<and> lastApplied s = lastApplied u \<and> served s = served u"

definition like :: "('sm, 'st) Server \<Rightarrow> ('sm, 'st) Server \<Rightarrow> bool" where
  "like u s \<longleftrightarrow> sameState u s \<and> fast_clock s"

lemma likeD:
  assumes "like u s"
  shows "currentTerm s = currentTerm u" "raftLog s = raftLog u" "selfId s = selfId u"
    "baseCluster s = baseCluster u" "role s = role u" "cluster s = cluster u" "clusterIndex s = clusterIndex u"
    "commitIndex s = commitIndex u" "lastApplied s = lastApplied u" "fast (served u) s" "fast_clock s"
    "\<not> stopped s" "\<not> Passive s" "nextChan s = nextChan u" "statemachine s = statemachine u" "delivered s = delivered u"
  using assms by (simp_all add: like_def sameState_def fast_def fast_clock_def)

lemma like_agree: "like u s \<Longrightarrow> agree s t \<Longrightarrow> fast (served u) t \<Longrightarrow> like u t"
  by (simp add: like_def sameState_def agree_def fast_def)

lemma like_sizes:
  assumes "like u s"
  shows "ownVote s = ownVote u" "voters s = voters u" "requestVote s = requestVote u" "appendEntries s = appendEntries u"
    "resetVotes s = resetVotes u" "grantable req s = grantable req u" "accepts areq s = accepts areq u"
    "conflicts areq s = conflicts areq u" "mergedLog areq s = mergedLog areq u"
    "buildRequestVote i s = Inr x \<longleftrightarrow> buildRequestVote i u = Inr x"
    "buildAppendEntries i s = Inr y \<longleftrightarrow> buildAppendEntries i u = Inr y"
  using likeD(1-9) [OF assms]
  by (simp_all add: ownVote_def voters_def requestVote_def appendEntries_def resetVotes_def grantable_def
      upToDate_def lastTerm_def accepts_iff validPreviousLog_def conflicts_def mergedLog_def
      buildRequestVote_def buildAppendEntries_def Let_def cong: if_cong)

text \<open>The request for a member, as long as the log is short enough for one batch.\<close>

definition requestFor :: "nat \<Rightarrow> ('sm, 'st) Server \<Rightarrow> (bytes \<times> AppendEntriesRequest) option" where
  "requestFor i u = (let next = nextIndex (cluster u ! i); es = raftLog u in
     if i < length (cluster u) \<and> clusterIndex u < length (cluster u) \<and> unat (next - 1) < length es \<and> length es < 20
     then Some (Address (cluster u ! i), \<lparr>Term = currentTerm u, LeaderId = memberId (cluster u ! clusterIndex u),
       PrevLogIndex = next - 1, PrevLogTerm = entryTerm (es ! unat (next - 1)),
       Entries = (if next \<le> logLast es then drop (unat next) es else []), LeaderCommit = commitIndex u\<rparr>)
     else None)"

lemma requestFor_built: "requestFor i u = Some x \<Longrightarrow> buildAppendEntries i u = Inr x"
  by (auto simp: requestFor_def buildAppendEntries_def Let_def split: if_splits)

section \<open>The main loop\<close>

definition electing :: "('sm, 'st) Server \<Rightarrow> ('sm, 'st) Server" where
  "electing u = u\<lparr>role := candidateState, currentTerm := currentTerm u + 1, cluster := resetVotes u\<rparr>"

definition winning :: "('sm, 'st) Server \<Rightarrow> ('sm, 'st) Server" where
  "winning u = (if majority (length (cluster u)) \<le> length (voters u)
     then u\<lparr>role := leaderState, raftLog := raftLog u @ [\<lparr>Command = [], entryTerm = currentTerm u, result = None\<rparr>],
       cluster := map (\<lambda>m. m\<lparr>nextIndex := of_nat (length (raftLog u) + 1), matchIndex := 0\<rparr>) (cluster u)\<rparr>
     else u)"

text \<open>A section of the loop, but for the application of commands, which is the program's own.\<close>

fun sketchLoop :: "loopPoint \<Rightarrow> ('sm, 'st) Server \<Rightarrow> (loopPoint \<times> goroutine list \<times> ('sm, 'st) Server) option" where
  "sketchLoop AtReset u = Some (AtTop, [], u)"
| "sketchLoop AtTop u = Some (case role u of leaderState \<Rightarrow> AtHeartbeat | followerState \<Rightarrow> AtFollowerTimeout
     | candidateState \<Rightarrow> AtCandidateTimeout | NoState \<Rightarrow> AtTop, [], u)"
| "sketchLoop AtHeartbeat u = Some (AtLeaderAdvance, map AppendTo (appendEntries u), u)"
| "sketchLoop AtFollowerTimeout u = Some (AtFollowerAdvance, map VoteTo (requestVote u), electing u)"
| "sketchLoop AtCandidateTimeout u = Some (AtBecomeLeader, map VoteTo (requestVote u), electing u)"
| "sketchLoop AtBecomeLeader u = Some (AtTop, [], winning u)"
| "sketchLoop AtLeaderAdvance u = (case advanceCommitIndex u of Inl _ \<Rightarrow> None | Inr v \<Rightarrow> Some (AtTop, [], v))"
| "sketchLoop AtFollowerAdvance u = (case advanceCommitIndex u of Inl _ \<Rightarrow> None | Inr v \<Rightarrow> Some (AtTop, [], v))"
| "sketchLoop Exited u = Some (Exited, [], u)"

lemma same_apply:
  assumes "sameState u s" "applyEntry e u = Inr v"
  shows "\<exists>t. applyEntry e s = Inr t \<and> sameState v t"
proof (cases "Command e = [] \<or> isConfigChangeCommand (Command e)")
  case True
  with assms show ?thesis by (auto simp: applyEntry_def deliver_def sameState_def split: if_splits option.splits)
next
  case False
  then obtain r err x where r: "sm_Apply (statemachine u) (sm (statemachine u)) (Command e) = Inr ((r, err), x)"
    using assms(2) by (auto simp: applyEntry_def split: sum.splits prod.splits)
  with False assms show ?thesis by (auto simp: applyEntry_def deliver_def sameState_def split: option.splits)
qed

lemma same_advance:
  assumes "sameState u s" "advanceCommitIndex u = Inr v"
  shows "\<exists>t. advanceCommitIndex s = Inr t \<and> sameState v t"
proof -
  let ?u = "advanceLeaderCommit u" and ?s = "advanceLeaderCommit s"
  have l: "sameState ?u ?s" using assms(1) by (simp add: advanceLeaderCommit_def sameState_def split: option.splits)
  then have f: "lastApplied ?s = lastApplied ?u" "commitIndex ?s = commitIndex ?u" "raftLog ?s = raftLog ?u"
    by (simp_all add: sameState_def)
  show ?thesis
  proof (cases "lastApplied ?u \<le> commitIndex ?u")
    case True
    then obtain w where w: "applyEntry (raftLog ?u ! unat (lastApplied ?u)) ?u = Inr w" "unat (lastApplied ?u) < length (raftLog ?u)"
      "v = w\<lparr>lastApplied := lastApplied w + 1\<rparr>"
      using assms(2) by (auto simp: advanceCommitIndex_def Let_def chain_Inr_iff split: if_splits)
    obtain t where "applyEntry (raftLog ?u ! unat (lastApplied ?u)) ?s = Inr t" "sameState w t"
      using same_apply [OF l w(1)] by blast
    with True w f show ?thesis by (auto simp: advanceCommitIndex_def Let_def sameState_def)
  next
    case False
    with assms(2) have "v = ?u" by (simp add: advanceCommitIndex_def Let_def)
    with False l f show ?thesis by (simp add: advanceCommitIndex_def Let_def)
  qed
qed

lemma like_advance:
  assumes "like u s" "advanceCommitIndex u = Inr v"
  shows "\<exists>t. advanceCommitIndex s = Inr t \<and> like v t"
proof -
  have s: "sameState u s" using assms(1) by (simp add: like_def)
  from same_advance [OF s assms(2)] obtain t where "advanceCommitIndex s = Inr t" "sameState v t" by blast
  with fast_advance [OF likeD(10) [OF assms(1)]] show ?thesis by (simp add: like_def fast_def)
qed

text \<open>Every section of the loop does to a node what it does to its sketch.\<close>

lemma like_reset:
  assumes "like u s" "node_ok s"
  shows "\<exists>t. resetElectionTimeout s = Inr t \<and> like u t"
proof -
  have "0 < heartbeatMs s" using assms(2) by (simp add: node_ok_def)
  then obtain t where t: "resetElectionTimeout s = Inr t" "agree s t" by (rule resetElectionTimeout_ok)
  with like_agree [OF assms(1) t(2) fast_reset [OF likeD(10) [OF assms(1)] t(1)]] show ?thesis by simp
qed

lemma like_timeout:
  assumes "like u s" "node_ok s"
  shows "\<exists>t. timeout s = Inr (requestVote u, t) \<and> like (electing u) t"
proof -
  note l = likeD [OF assms(1)]
  have "electionTimeout s < clock s 0" using l(11) by (simp add: fast_clock_def)
  then obtain t where t: "timeout s = Inr (requestVote s, t)"
    "agree (s\<lparr>role := candidateState, currentTerm := currentTerm s + 1, cluster := resetVotes s\<rparr>) t"
    using timeout_starts_election [OF assms(2) l(13)] by metis
  from fast_timeout [OF l(10) t(1)] have "fast (served u) t" .
  with t(2) l like_sizes(5) [OF assms(1)] have "like (electing u) t"
    by (simp add: like_def sameState_def agree_def electing_def fast_def)
  with t(1) like_sizes(3) [OF assms(1)] show ?thesis by auto
qed

lemma like_becomeLeader:
  assumes "like u s" "node_ok s" "fits (Suc (length (raftLog s)))"
  shows "\<exists>t. becomeLeader grow s = Inr t \<and> like (winning u) t"
proof (cases "majority (length (cluster u)) \<le> length (voters u)")
  case True
  note l = likeD [OF assms(1)]
  have m: "majority (length (cluster s)) \<le> length (voters s)" using True l like_sizes(2) [OF assms(1)] by simp
  obtain t where t: "becomeLeader grow s = Inr t" "role t = leaderState" "currentTerm t = currentTerm s"
    "raftLog t = raftLog s @ [\<lparr>Command = [], entryTerm = currentTerm s, result = None\<rparr>]"
    "cluster t = map (\<lambda>m. m\<lparr>nextIndex := of_nat (length (raftLog s) + 1), matchIndex := 0\<rparr>) (cluster s)"
    "clusterIndex t = clusterIndex s" "selfId t = selfId s" "commitIndex t = commitIndex s"
    "lastApplied t = lastApplied s" "baseCluster t = baseCluster s"
    by (rule becomeLeader_wins [OF assms(2,3) m])
  from fast_leader [OF l(10) t(1)] have "fast (served u) t" .
  with t l True have "like (winning u) t" by (simp add: like_def sameState_def winning_def fast_def)
  with t(1) show ?thesis by blast
next
  case False
  then have "length (voters s) < majority (length (cluster s))"
    using likeD(6) [OF assms(1)] like_sizes(2) [OF assms(1)] by simp
  with assms(1) False show ?thesis by (simp add: becomeLeader_waits winning_def)
qed

lemma like_heartbeat:
  assumes "like u s"
  shows "\<exists>t. heartbeat s = (appendEntries u, t) \<and> like u t"
proof -
  obtain js t where t: "heartbeat s = (js, t)" by (cases "heartbeat s") simp
  note f = fast_heartbeat [OF likeD(10) [OF assms] t]
  have "sameState u t"
    using t assms by (auto simp: heartbeat_def Now_def Let_def like_def sameState_def split: if_splits)
  with t f like_sizes(4) [OF assms] show ?thesis by (simp add: like_def fast_def)
qed

lemma like_loop:
  assumes "like u s" "node_ok s" "fits (Suc (length (raftLog s)))" "sketchLoop p u = Some (p', gs, v)"
  shows "\<exists>t. loopStep grow p s = Inr (p', gs, t) \<and> like v t"
proof (cases p)
  case AtReset
  with like_reset [OF assms(1,2)] assms(4) show ?thesis by auto
next
  case AtTop
  with likeD(5,12) [OF assms(1)] assms(1,4) show ?thesis by auto
next
  case AtHeartbeat
  with like_heartbeat [OF assms(1)] assms(4) show ?thesis by auto
next
  case AtLeaderAdvance
  with assms(4) obtain w where w: "advanceCommitIndex u = Inr w" "v = w" "p' = AtTop" "gs = []" by (auto split: sum.splits)
  with like_advance [OF assms(1) w(1)] AtLeaderAdvance show ?thesis by auto
next
  case AtFollowerTimeout
  with like_timeout [OF assms(1,2)] assms(4) show ?thesis by auto
next
  case AtFollowerAdvance
  with assms(4) obtain w where w: "advanceCommitIndex u = Inr w" "v = w" "p' = AtTop" "gs = []" by (auto split: sum.splits)
  with like_advance [OF assms(1) w(1)] AtFollowerAdvance show ?thesis by auto
next
  case AtCandidateTimeout
  with like_timeout [OF assms(1,2)] assms(4) show ?thesis by auto
next
  case AtBecomeLeader
  with like_becomeLeader [OF assms(1-3), of grow] assms(4) show ?thesis by auto
next
  case Exited
  with assms(1,4) show ?thesis by auto
qed

section \<open>Requests and answers\<close>

definition afterVote :: "RequestVoteRequest \<Rightarrow> ('sm, 'st) Server \<Rightarrow> ('sm, 'st) Server" where
  "afterVote req u = (if grantable req u then castVote (CandidateId req) (adoptTerm (Term req) u) else adoptTerm (Term req) u)"

lemma like_vote:
  assumes "like u s" "node_ok s"
  shows "\<exists>t. HandleRequestVoteRequest req s
      = Inr (\<lparr>Term = max (currentTerm u) (Term req), VoteGranted = grantable req u\<rparr>, t) \<and> like (afterVote req u) t"
proof -
  note l = likeD [OF assms(1)]
  obtain t where t: "HandleRequestVoteRequest req s
       = Inr (\<lparr>Term = max (currentTerm s) (Term req), VoteGranted = grantable req s\<rparr>, t)"
    "agree (if grantable req s then castVote (CandidateId req) (adoptTerm (Term req) s)
            else adoptTerm (Term req) s) t"
    by (rule HandleRequestVoteRequest_ok [OF assms(2)])
  have "fast (served u) t" by (rule fast_vote [OF l(10) t(1)])
  moreover have "sameState (afterVote req u) t"
    using t(2) l like_sizes(6) [OF assms(1)]
    by (auto simp: afterVote_def sameState_def agree_def castVote_def adoptTerm_def)
  ultimately show ?thesis using t(1) l(1) like_sizes(6) [OF assms(1)] by (auto simp: like_def fast_def)
qed

text \<open>What an append request does to the members: a conflict brings back the founding ones.\<close>

lemma on_append_cluster:
  assumes "node_inv s" "HandleAppendEntriesRequest grow req s = Inr (rsp, t)" "static s" "noConfig (Entries req)"
    "wf_request req"
  shows "cluster t = (if accepts req s \<and> conflicts req s then baseCluster s else cluster (adoptTerm (Term req) s))"
proof -
  obtain w where w: "prepared req s w" "\<not> accepts req s \<Longrightarrow> HandleAppendEntriesRequest grow req s
       = Inr (\<lparr>Term = max (currentTerm s) (Term req), Success = False\<rparr>, w)"
    "\<And>n s5 t. accepts req s \<Longrightarrow>
       appendLoop grow (PrevLogIndex req + 1 + of_nat (length (Entries req))) (PrevLogIndex req + 1)
         (Entries req) (ownVote w) 0 w = Inr (n, s5) \<Longrightarrow>
       persist (n \<noteq> 0) (int n) (if commitIndex s5 < LeaderCommit req
         then s5\<lparr>commitIndex := min (LeaderCommit req) (logLast (raftLog s5))\<rparr> else s5) = Inr t \<Longrightarrow>
       HandleAppendEntriesRequest grow req s = Inr (\<lparr>Term = max (currentTerm s) (Term req), Success = True\<rparr>, t)"
    using append_prepared [OF assms(1), of req grow] by metis
  note d = preparedD [OF w(1)] and c = prepared_members [OF w(1) assms(1)]
  show ?thesis
  proof (cases "accepts req s")
    case False
    with w(2) assms(2) d(8) show ?thesis by simp
  next
    case True
    then have v: "validPreviousLog req w" using c(4) by (simp add: accepts_iff)
    have st: "static w" using assms(3) d(2,3,8) by (simp add: static_def adoptTerm_def)
    let ?k = "Suc (unat (PrevLogIndex req))" and ?rs = "Entries req"
    obtain n s5 u where u: "appendLoop grow (PrevLogIndex req + 1 + of_nat (length ?rs)) (PrevLogIndex req + 1)
         ?rs (ownVote w) 0 w = Inr (n, s5)" "looped w ?k ?rs s5"
      "persist (n \<noteq> 0) (int n) (if commitIndex s5 < LeaderCommit req
         then s5\<lparr>commitIndex := min (LeaderCommit req) (logLast (raftLog s5))\<rparr> else s5) = Inr u"
      by (rule accept_looped [OF d(1) wf_takeable [OF assms(5)] v, where grow = grow])
    have "cluster t = cluster s5" using w(3) [OF True u(1,3)] assms(2) persist_frame [OF u(3)] by (simp split: if_splits)
    moreover have "static s5" "baseCluster s5 = baseCluster w" using appendLoop_static [OF u(1) st assms(4)] by blast+
    then have "length (cluster s5) = length (baseCluster w)" "length (cluster w) = length (baseCluster w)"
      using st addresses_length unfolding static_def by metis+
    then have "cluster s5 = (if conflict (raftLog w) ?k ?rs then baseCluster w else cluster w)"
      using loopedD(4,5) [OF u(2)] by (metis append_Nil2 append_eq_append_conv)
    ultimately show ?thesis using True c(6) d(3,8) by (simp add: conflicts_def)
  qed
qed

definition afterAppend :: "AppendEntriesRequest \<Rightarrow> ('sm, 'st) Server \<Rightarrow> ('sm, 'st) Server" where
  "afterAppend req u = (adoptTerm (Term req) u)\<lparr>
     role := (if currentTerm u < Term req \<or> Term req = currentTerm u \<and> role u = candidateState
       then followerState else role u),
     raftLog := (if accepts req u then mergedLog req u else raftLog u),
     commitIndex := (if accepts req u \<and> commitIndex u < LeaderCommit req
       then min (LeaderCommit req) (logLast (mergedLog req u)) else commitIndex u),
     cluster := (if accepts req u \<and> conflicts req u then baseCluster u else cluster (adoptTerm (Term req) u))\<rparr>"

lemma like_append:
  assumes "like u (server n)" "run_inv n" "static (server n)" "noConfig (Entries req)" "wf_request req"
  shows "\<exists>t. HandleAppendEntriesRequest grow req (server n)
      = Inr (\<lparr>Term = max (currentTerm u) (Term req), Success = accepts req u\<rparr>, t) \<and> like (afterAppend req u) t"
proof -
  let ?s = "server n"
  note l = likeD [OF assms(1)] and z = like_sizes(7-9) [OF assms(1), of req]
  have inv: "node_inv ?s" by (rule run_inv_parts(2) [OF assms(2)])
  obtain t where t: "HandleAppendEntriesRequest grow req ?s
       = Inr (\<lparr>Term = max (currentTerm ?s) (Term req), Success = accepts req ?s\<rparr>, t)"
    "currentTerm t = max (currentTerm ?s) (Term req)"
    "raftLog t = (if accepts req ?s then mergedLog req ?s else raftLog ?s)"
    "commitIndex t = (if accepts req ?s \<and> commitIndex ?s < LeaderCommit req
       then min (LeaderCommit req) (logLast (mergedLog req ?s)) else commitIndex ?s)"
    "role t = (if currentTerm ?s < Term req \<or> Term req = currentTerm ?s \<and> role ?s = candidateState
       then followerState else role ?s)"
    "lastApplied t = lastApplied ?s" "selfId t = selfId ?s" "baseCluster t = baseCluster ?s"
    by (rule HandleAppendEntriesRequest_ok [OF inv assms(5)])
  have "step_ok ?s (server (n\<lparr>server := t\<rparr>))"
    using node_step_ok [OF node_step.on_append [OF t(1)] assms(2)] assms(5) by (simp add: wf_request_def)
  then have ci: "clusterIndex t = clusterIndex ?s"
    using same_index [OF run_inv_parts(1) [OF assms(2)]] by simp
  have f: "fast (served u) t" by (rule fast_append [OF l(10) t(1)])
  note cl = on_append_cluster [OF inv t(1) assms(3-5)]
  have ad: "cluster (adoptTerm (Term req) ?s) = cluster (adoptTerm (Term req) u)"
    "currentTerm (adoptTerm (Term req) u) = max (currentTerm u) (Term req)"
    "selfId (adoptTerm T u) = selfId u" "baseCluster (adoptTerm T u) = baseCluster u"
    "clusterIndex (adoptTerm T u) = clusterIndex u" "lastApplied (adoptTerm T u) = lastApplied u"
    "served (adoptTerm T u) = served u" for T
    using l by (auto simp: adoptTerm_def)
  have "sameState (afterAppend req u) t"
    unfolding sameState_def afterAppend_def
    using t(2-8) ci f cl l(1-9) z ad by (simp add: fast_def cong: if_cong)
  with f t(1) l(1) z(1) show ?thesis by (auto simp: like_def fast_def)
qed

text \<open>Answers of no later term, and a client's command.\<close>

lemma like_count_vote:
  assumes "like u s" "\<not> currentTerm u < Term rsp" "handleVoteResponse i req rsp u = Inr v"
  shows "\<exists>t. handleVoteResponse i req rsp s = Inr t \<and> like v t"
  using assms likeD [OF assms(1)]
  by (auto simp: handleVoteResponse_def updateTerm_def like_def sameState_def fast_clock_def split: if_splits)

lemma like_count_append:
  assumes "like u s" "\<not> currentTerm u < Term rsp" "handleAppendResponse i req rsp u = Inr v"
  shows "\<exists>t. handleAppendResponse i req rsp s = Inr t \<and> like v t"
  using assms likeD [OF assms(1)]
  by (auto simp: handleAppendResponse_def updateTerm_def like_def sameState_def fast_clock_def Let_def split: if_splits)

definition commanded :: "bytes \<Rightarrow> ('sm, 'st) Server \<Rightarrow> ('sm, 'st) Server" where
  "commanded cmd u = u\<lparr>nextChan := Suc (nextChan u),
     raftLog := raftLog u @ [\<lparr>Command = cmd, entryTerm = currentTerm u, result = Some (nextChan u)\<rparr>]\<rparr>"

lemma like_client:
  assumes "like u s" "node_ok s" "role u = leaderState" "length cmd \<le> 112" "fits (Suc (length (raftLog s)))"
  shows "\<exists>t. Apply grow [cmd] s = Inr (Inr ([nextChan u], appendEntries u), t) \<and> like (commanded cmd u) t"
proof -
  note l = likeD [OF assms(1)]
  obtain t where t: "Apply grow [cmd] s = Inr (Inr ([nextChan s..<nextChan s + length [cmd]], appendEntries t), t)"
    "role t = leaderState" "raftLog t = raftLog s @ clientEntries (currentTerm s) (nextChan s) [cmd]"
    "lastApplied t = lastApplied s" "commitIndex t = commitIndex s" "cluster t = cluster s"
    "clusterIndex t = clusterIndex s" "currentTerm t = currentTerm s" "selfId t = selfId s" "baseCluster t = baseCluster s"
    using Apply_leader [OF assms(2), of "[cmd]" grow] assms(3-5) l(5) by (metis (no_types, lifting) One_nat_def
        add_Suc_right add.right_neutral list.size(3,4) empty_iff empty_set list.distinct(1) set_ConsD)
  obtain s1 where s1: "persist True 1 (snd (appendLocked grow cmd s)) = Inr s1" "t = s1"
    using t(1) l(5) assms(3) by (auto simp: Apply_def chain_Inr_iff split: prod.splits)
  have "fast_clock t \<and> served t = (Suc (nextChan u), statemachine u, delivered u)"
    using persist_timers [OF s1(1)] l(11,14-16) s1(2)
    by (simp add: appendLocked_def appendLog_def timers_kept_def fast_clock_def Let_def)
  with t l assms(3) have "like (commanded cmd u) t" by (simp add: like_def sameState_def commanded_def)
  moreover have "appendEntries t = appendEntries u" using t l by (simp add: appendEntries_def)
  ultimately show ?thesis using t(1) l(14) by auto
qed

end
