(* ===== verification/Scenes.thy ===== *)
theory Scenes
  imports Sketches
begin

text \<open>
  Concrete runs of three nodes. A scene says that the nodes of a cluster look like their
  sketches, and which requests and answers are under way; a script is a list of acts, and
  playing it, which is a computation, shows that the cluster has a run, and whether that run is
  regular or steady.
\<close>

section \<open>Stages, acts and scripts\<close>

record ('sm, 'st) stage =
  cast :: "('sm, 'st) Node list"
  ballotsAsked :: "(nat \<times> nat \<times> bytes \<times> RequestVoteRequest) list"
  ballotsGiven :: "(nat \<times> nat \<times> RequestVoteRequest \<times> RequestVoteResponse) list"
  entriesSent :: "(nat \<times> nat \<times> bytes \<times> AppendEntriesRequest) list"
  entriesTaken :: "(nat \<times> nat \<times> AppendEntriesRequest \<times> AppendEntriesResponse) list"

text \<open>
  What may happen next: a section of the main loop of a node; a client's command; the goroutine
  at some position of a node's list builds its request, or takes the latest answer to it; the
  last request of its kind is served where it was sent.
\<close>

datatype act =
    Loop nat
  | Submit nat bytes
  | AskVote nat nat
  | GiveVote
  | CountVote nat nat
  | SendEntries nat nat
  | TakeEntries
  | CountEntries nat nat

definition trio :: "ClusterMember list" where
  "trio = [newMember 1 [1], newMember 2 [2], newMember 3 [3]]"

abbreviation exact :: "nat \<Rightarrow> nat \<Rightarrow> nat" where
  "exact c n \<equiv> n"

definition recast :: "nat \<Rightarrow> ('sm, 'st) Node \<Rightarrow> ('sm, 'st) stage \<Rightarrow> ('sm, 'st) stage" where
  "recast k n sg = sg\<lparr>cast := (cast sg)[k := n]\<rparr>"

definition latest :: "nat \<Rightarrow> nat \<Rightarrow> 'q \<Rightarrow> (nat \<times> nat \<times> 'q \<times> 'r) list \<Rightarrow> 'r option" where
  "latest k i req xs = map_of (map (\<lambda>(k, i, req, rsp). ((k, i, req), rsp)) xs) (k, i, req)"

fun play :: "act \<Rightarrow> ('sm, 'st) stage \<Rightarrow> ('sm, 'st) stage option" where
  "play (Loop k) sg = (let n = cast sg ! k in
     if k < 3 \<and> length (raftLog (server n)) < 20
     then case sketchLoop (point n) (server n) of
         None \<Rightarrow> None
       | Some (p, gs, u) \<Rightarrow> Some (recast k \<lparr>point = p, routines = routines n @ gs, server = u\<rparr> sg)
     else None)"
| "play (Submit k cmd) sg = (let n = cast sg ! k; u = server n in
     if k < 3 \<and> length (raftLog u) < 20 \<and> role u = leaderState \<and> length cmd \<le> 112 \<and> \<not> isConfigChangeCommand cmd
     then Some (recast k (n\<lparr>routines := routines n @ map AppendTo (appendEntries u), server := commanded cmd u\<rparr>) sg)
     else None)"
| "play (AskVote k j) sg = (let n = cast sg ! k in
     if k < 3 \<and> j < length (routines n)
     then case routines n ! j of
         VoteTo i \<Rightarrow> (case buildRequestVote i (server n) of
           Inl _ \<Rightarrow> None
         | Inr (addr, req) \<Rightarrow> Some (recast k (n\<lparr>routines := (routines n)[j := VoteSent i req]\<rparr>)
             (sg\<lparr>ballotsAsked := (k, i, addr, req) # ballotsAsked sg\<rparr>)))
       | _ \<Rightarrow> None
     else None)"
| "play GiveVote sg = (case ballotsAsked sg of
       [] \<Rightarrow> None
     | (k, i, addr, req) # _ \<Rightarrow> (let n = cast sg ! i; u = server n in
         if i < 3 \<and> Address (trio ! i) = addr
         then Some (recast i (n\<lparr>server := afterVote req u\<rparr>) (sg\<lparr>ballotsGiven :=
           (k, i, req, \<lparr>Term = max (currentTerm u) (Term req), VoteGranted = grantable req u\<rparr>) # ballotsGiven sg\<rparr>))
         else None))"
| "play (CountVote k j) sg = (let n = cast sg ! k in
     if k < 3 \<and> j < length (routines n)
     then case routines n ! j of
         VoteSent i req \<Rightarrow> (case latest k i req (ballotsGiven sg) of
           None \<Rightarrow> None
         | Some rsp \<Rightarrow> if currentTerm (server n) < Term rsp then None
             else case handleVoteResponse i req rsp (server n) of
               Inl _ \<Rightarrow> None
             | Inr u \<Rightarrow> Some (recast k (n\<lparr>routines := take j (routines n) @ drop (Suc j) (routines n), server := u\<rparr>) sg))
       | _ \<Rightarrow> None
     else None)"
| "play (SendEntries k j) sg = (let n = cast sg ! k in
     if k < 3 \<and> j < length (routines n)
     then case routines n ! j of
         AppendTo i \<Rightarrow> (case requestFor i (server n) of
           None \<Rightarrow> None
         | Some (addr, req) \<Rightarrow> Some (recast k (n\<lparr>routines := (routines n)[j := AppendSent i req]\<rparr>)
             (sg\<lparr>entriesSent := (k, i, addr, req) # entriesSent sg\<rparr>)))
       | _ \<Rightarrow> None
     else None)"
| "play TakeEntries sg = (case entriesSent sg of
       [] \<Rightarrow> None
     | (k, i, addr, req) # _ \<Rightarrow> (let n = cast sg ! i; u = server n in
         if i < 3 \<and> Address (trio ! i) = addr \<and> static u \<and> noConfig (Entries req)
         then Some (recast i (n\<lparr>server := afterAppend req u\<rparr>) (sg\<lparr>entriesTaken :=
           (k, i, req, \<lparr>Term = max (currentTerm u) (Term req), Success = accepts req u\<rparr>) # entriesTaken sg\<rparr>))
         else None))"
| "play (CountEntries k j) sg = (let n = cast sg ! k in
     if k < 3 \<and> j < length (routines n)
     then case routines n ! j of
         AppendSent i req \<Rightarrow> (case latest k i req (entriesTaken sg) of
           None \<Rightarrow> None
         | Some rsp \<Rightarrow> if currentTerm (server n) < Term rsp then None
             else case handleAppendResponse i req rsp (server n) of
               Inl _ \<Rightarrow> None
             | Inr u \<Rightarrow> Some (recast k (n\<lparr>routines := take j (routines n) @ drop (Suc j) (routines n), server := u\<rparr>) sg))
       | _ \<Rightarrow> None
     else None)"

text \<open>The node that an act changes.\<close>

fun actor :: "act \<Rightarrow> ('sm, 'st) stage \<Rightarrow> nat" where
  "actor (Loop k) sg = k"
| "actor (Submit k cmd) sg = k"
| "actor (AskVote k j) sg = k"
| "actor GiveVote sg = fst (snd (hd (ballotsAsked sg)))"
| "actor (CountVote k j) sg = k"
| "actor (SendEntries k j) sg = k"
| "actor TakeEntries sg = fst (snd (hd (entriesSent sg)))"
| "actor (CountEntries k j) sg = k"

text \<open>The goroutine that an act ends.\<close>

fun finished :: "act \<Rightarrow> ('sm, 'st) stage \<Rightarrow> goroutine option" where
  "finished (CountVote k j) sg = Some (routines (cast sg ! k) ! j)"
| "finished (CountEntries k j) sg = Some (routines (cast sg ! k) ! j)"
| "finished x sg = None"

text \<open>The conditions of a regular and of a steady step, on stages.\<close>

definition orderlyNode :: "('sm, 'st) Server \<Rightarrow> ('sm, 'st) Server \<Rightarrow> bool" where
  "orderlyNode s t \<longleftrightarrow>
     (role t = leaderState \<longrightarrow> role s = leaderState \<or> role s = candidateState) \<and>
     currentTerm s \<le> currentTerm t \<and>
     (currentTerm t = currentTerm s \<and> ownVote s \<noteq> 0 \<longrightarrow> take (length (raftLog s)) (raftLog t) = raftLog s) \<and>
     noConfig (raftLog t)"

definition votesPrompt :: "goroutine option \<Rightarrow> ('sm, 'st) Server \<Rightarrow> ('sm, 'st) Server \<Rightarrow> bool" where
  "votesPrompt g s t = (case g of
     Some (VoteSent i req) \<Rightarrow> \<not> counted s i \<and> counted t i \<longrightarrow> Term req = currentTerm t
   | _ \<Rightarrow> True)"

definition matchesPrompt :: "goroutine option \<Rightarrow> ('sm, 'st) Server \<Rightarrow> ('sm, 'st) Server \<Rightarrow> bool" where
  "matchesPrompt g s t = (case g of
     Some (AppendSent i req) \<Rightarrow> role t = leaderState \<and> matchIndex (cluster t ! i) \<noteq> matchIndex (cluster s ! i) \<longrightarrow>
       Term req = currentTerm t
   | _ \<Rightarrow> True)"

definition orderly :: "act \<Rightarrow> ('sm, 'st) stage \<Rightarrow> ('sm, 'st) stage \<Rightarrow> bool" where
  "orderly x sg sg' \<longleftrightarrow> (let a = actor x sg; s = server (cast sg ! a); t = server (cast sg' ! a)
     in orderlyNode s t \<and> votesPrompt (finished x sg) s t)"

fun sender_leads :: "act \<Rightarrow> ('sm, 'st) stage \<Rightarrow> bool" where
  "sender_leads (SendEntries k j) sg = (role (server (cast sg ! k)) = leaderState)"
| "sender_leads x sg = True"

definition calm :: "act \<Rightarrow> ('sm, 'st) stage \<Rightarrow> ('sm, 'st) stage \<Rightarrow> bool" where
  "calm x sg sg' \<longleftrightarrow> orderly x sg sg' \<and> sender_leads x sg \<and>
     (let a = actor x sg in matchesPrompt (finished x sg) (server (cast sg ! a)) (server (cast sg' ! a)))"

fun perform ::
  "(act \<Rightarrow> ('sm, 'st) stage \<Rightarrow> ('sm, 'st) stage \<Rightarrow> bool) \<Rightarrow> act list \<Rightarrow> ('sm, 'st) stage \<Rightarrow> ('sm, 'st) stage option" where
  "perform q [] sg = Some sg"
| "perform q (x # xs) sg = (case play x sg of
     None \<Rightarrow> None
   | Some sg' \<Rightarrow> if q x sg sg' then perform q xs sg' else None)"

text \<open>What is played more often: campaigns, votes, and rounds of requests.\<close>

definition campaign :: "nat \<Rightarrow> act list" where
  "campaign k = replicate 6 (Loop k)"

definition solicit :: "nat \<Rightarrow> nat \<Rightarrow> act list" where
  "solicit k j = [AskVote k j, GiveVote, CountVote k j]"

definition pass_on :: "nat \<Rightarrow> nat \<Rightarrow> act list" where
  "pass_on k j = [SendEntries k j, TakeEntries, CountEntries k j]"

text \<open>The stage on which a cluster of three starts.\<close>

definition newcomer :: "'sm StateMachine \<Rightarrow> nat \<Rightarrow> ('sm, 'st) Node" where
  "newcomer m k = \<lparr>point = AtReset, routines = [], server =
     \<lparr>stopped = False, currentTerm = 0, raftLog = [dummyEntry], logCap = 1, selfId = of_nat (Suc k),
      selfAddress = [], electionTimeout = 0, heartbeatMs = 300, heartbeatTimeout = 0, statemachine = m,
      storage = None, baseCluster = trio, Passive = False, commitIndex = 0, lastApplied = 0, role = followerState,
      cluster = trio, clusterIndex = k, pendingConfigChangeIndex = 0, rand = (\<lambda>_. 0), clock = (\<lambda>_. 0),
      nextChan = 0, delivered = []\<rparr>\<rparr>"

definition curtain :: "(nat \<Rightarrow> 'sm StateMachine) \<Rightarrow> ('sm, 'st) stage" where
  "curtain m = \<lparr>cast = map (\<lambda>k. newcomer (m k) k) [0, 1, 2],
     ballotsAsked = [], ballotsGiven = [], entriesSent = [], entriesTaken = []\<rparr>"

section \<open>Scenes\<close>

definition scene :: "('sm, MemStorage) Cluster \<Rightarrow> ('sm, MemStorage) stage \<Rightarrow> bool" where
  "scene c sg \<longleftrightarrow> cluster_inv trio c \<and> length (cast sg) = 3 \<and>
     (\<forall>k < 3. point (nodes c k) = point (cast sg ! k) \<and> routines (nodes c k) = routines (cast sg ! k) \<and>
        like (server (cast sg ! k)) (srv c k)) \<and>
     voteCalls c = set (ballotsAsked sg) \<and> voteAnswers c = set (ballotsGiven sg) \<and>
     appendCalls c = set (entriesSent sg) \<and> appendAnswers c = set (entriesTaken sg)"

lemma sceneD:
  assumes "scene c sg"
  shows "cluster_inv trio c" "length (cast sg) = 3"
    "k < 3 \<Longrightarrow> point (nodes c k) = point (cast sg ! k)" "k < 3 \<Longrightarrow> routines (nodes c k) = routines (cast sg ! k)"
    "k < 3 \<Longrightarrow> like (server (cast sg ! k)) (srv c k)" "k < 3 \<Longrightarrow> run_inv (nodes c k)" "k < 3 \<Longrightarrow> node_ok (srv c k)"
    "voteCalls c = set (ballotsAsked sg)" "voteAnswers c = set (ballotsGiven sg)"
    "appendCalls c = set (entriesSent sg)" "appendAnswers c = set (entriesTaken sg)"
proof -
  show i: "cluster_inv trio c" using assms by (simp add: scene_def)
  show "k < 3 \<Longrightarrow> run_inv (nodes c k)" "k < 3 \<Longrightarrow> node_ok (srv c k)"
    using inv_node(1,4) [OF i] by (simp_all add: trio_def)
qed (use assms in \<open>simp_all add: scene_def\<close>)

lemma regular_run_trans:
  "regular_run cfg grow c' c'' \<Longrightarrow> regular_run cfg grow c c' \<Longrightarrow> regular_run cfg grow c c''"
  by (induction rule: regular_run.induct) (auto intro: regular_run.step)

lemma length_trio [simp]: "length trio = 3"
  by (simp add: trio_def)

lemma recast_simps [simp]:
  "cast (recast k m sg) = (cast sg)[k := m]" "ballotsAsked (recast k m sg) = ballotsAsked sg"
  "ballotsGiven (recast k m sg) = ballotsGiven sg" "entriesSent (recast k m sg) = entriesSent sg"
  "entriesTaken (recast k m sg) = entriesTaken sg"
  by (simp_all add: recast_def)

lemma scene_recast:
  assumes "scene c sg" "cluster_step trio exact c c'" "k < 3" "nodes c' = (nodes c)(k := n)"
    "point n = point m" "routines n = routines m" "like (server m) (server n)" "cast sg1 = cast sg"
    "voteCalls c' = set (ballotsAsked sg1)" "voteAnswers c' = set (ballotsGiven sg1)"
    "appendCalls c' = set (entriesSent sg1)" "appendAnswers c' = set (entriesTaken sg1)"
  shows "\<exists>c'. cluster_step trio exact c c' \<and> scene c' (recast k m sg1)"
proof -
  have "cluster_inv trio c'" by (rule cluster_inv_step [OF assms(2) sceneD(1) [OF assms(1)]])
  with assms have "scene c' (recast k m sg1)" by (simp add: scene_def nth_list_update)
  with assms(2) show ?thesis by blast
qed

lemma latest_Some: "latest k i req xs = Some rsp \<Longrightarrow> (k, i, req, rsp) \<in> set xs"
  unfolding latest_def by (drule map_of_SomeD) auto

lemma split_at:
  assumes "j < length xs"
  shows "xs = take j xs @ xs ! j # drop (Suc j) xs" "xs[j := y] = take j xs @ y # drop (Suc j) xs"
  using assms by (simp_all add: id_take_nth_drop upd_conv_take_nth_drop)

lemma fits_short: "n < 20 \<Longrightarrow> fits (Suc n)"
  by (simp add: fits_def)

lemma play_loop:
  assumes "scene c sg" "play (Loop k) sg = Some sg'"
  shows "\<exists>c'. cluster_step trio exact c c' \<and> scene c' sg'"
proof -
  let ?n = "cast sg ! k"
  obtain p gs u where a: "k < 3" "length (raftLog (server ?n)) < 20" "sketchLoop (point ?n) (server ?n) = Some (p, gs, u)"
    "sg' = recast k \<lparr>point = p, routines = routines ?n @ gs, server = u\<rparr> sg"
    using assms(2) by (auto simp: Let_def split: if_splits option.splits)
  note d = sceneD [OF assms(1)]
  have f: "fits (Suc (length (raftLog (srv c k))))" using fits_short [OF a(2)] likeD(2) [OF d(5) [OF a(1)]] by simp
  obtain t where t: "loopStep exact (point ?n) (srv c k) = Inr (p, gs, t)" "like u t"
    using like_loop [OF d(5,7) [OF a(1)] f a(3)] by blast
  let ?m' = "\<lparr>point = p, routines = routines (nodes c k) @ gs, server = t\<rparr>"
  have "local_step exact (nodes c k) ?m'"
    using t(1) d(3) [OF a(1)] f by (intro local_step.loop) simp_all
  then have "cluster_step trio exact c (c\<lparr>nodes := (nodes c)(k := ?m')\<rparr>)"
    using a(1) by (intro cluster_step.own) simp_all
  then show ?thesis unfolding a(4)
    by (rule scene_recast [OF assms(1) _ a(1), where n = ?m']) (use d(4) [OF a(1)] t(2) d(8-11) in simp_all)
qed

lemma play_command:
  assumes "scene c sg" "play (Submit k cmd) sg = Some sg'"
  shows "\<exists>c'. cluster_step trio exact c c' \<and> scene c' sg'"
proof -
  let ?n = "cast sg ! k" and ?m = "nodes c k"
  have a: "k < 3" "length (raftLog (server ?n)) < 20" "role (server ?n) = leaderState" "length cmd \<le> 112"
    "\<not> isConfigChangeCommand cmd"
    "sg' = recast k (?n\<lparr>routines := routines ?n @ map AppendTo (appendEntries (server ?n)), server := commanded cmd (server ?n)\<rparr>) sg"
    using assms(2) by (auto simp: Let_def split: if_splits)
  note d = sceneD [OF assms(1)]
  have f: "fits (Suc (length (raftLog (srv c k))))" using fits_short [OF a(2)] likeD(2) [OF d(5) [OF a(1)]] by simp
  obtain t where t: "Apply exact [cmd] (srv c k) = Inr (Inr ([nextChan (server ?n)], appendEntries (server ?n)), t)"
    "like (commanded cmd (server ?n)) t"
    using like_client [OF d(5,7) [OF a(1)] a(3,4) f, of exact] by blast
  let ?m' = "?m\<lparr>routines := routines ?m @ map AppendTo (appendEntries (server ?n)), server := t\<rparr>"
  have "local_step exact ?m ?m'"
    using local_step.client [OF t(1)] a(4,5) f by (simp add: wf_command_def)
  then have "cluster_step trio exact c (c\<lparr>nodes := (nodes c)(k := ?m')\<rparr>)"
    using a(1) by (intro cluster_step.own) simp_all
  then show ?thesis unfolding a(6)
    by (rule scene_recast [OF assms(1) _ a(1), where n = ?m']) (use d(3,4) [OF a(1)] t(2) d(8-11) in simp_all)
qed

lemma play_ask:
  assumes "scene c sg" "play (AskVote k j) sg = Some sg'"
  shows "\<exists>c'. cluster_step trio exact c c' \<and> scene c' sg'"
proof -
  let ?n = "cast sg ! k" and ?m = "nodes c k"
  obtain i addr req where a: "k < 3" "j < length (routines ?n)" "routines ?n ! j = VoteTo i"
    "buildRequestVote i (server ?n) = Inr (addr, req)"
    "sg' = recast k (?n\<lparr>routines := (routines ?n)[j := VoteSent i req]\<rparr>) (sg\<lparr>ballotsAsked := (k, i, addr, req) # ballotsAsked sg\<rparr>)"
    using assms(2) by (auto simp: Let_def split: if_splits goroutine.splits sum.splits prod.splits)
  note d = sceneD [OF assms(1)] and r = split_at [OF a(2)]
  let ?m' = "?m\<lparr>routines := (routines ?n)[j := VoteSent i req]\<rparr>"
  have q: "routines ?m = take j (routines ?n) @ VoteTo i # drop (Suc j) (routines ?n)"
    using d(4) [OF a(1)] a(3) r(1) by metis
  have b: "buildRequestVote i (srv c k) = Inr (addr, req)" using like_sizes(10) [OF d(5) [OF a(1)]] a(4) by blast
  have "cluster_step trio exact c (c\<lparr>nodes := (nodes c)(k := ?m'),
      voteCalls := insert (k, i, addr, req) (voteCalls c)\<rparr>)"
    unfolding r(2) by (rule cluster_step.vote_call [OF _ q b]) (use a(1) in simp)
  then show ?thesis unfolding a(5)
    by (rule scene_recast [OF assms(1) _ a(1), where n = ?m']) (use d(3,4,5) [OF a(1)] d(8-11) in simp_all)
qed

lemma play_send:
  assumes "scene c sg" "play (SendEntries k j) sg = Some sg'"
  shows "\<exists>c'. cluster_step trio exact c c' \<and> scene c' sg'"
proof -
  let ?n = "cast sg ! k" and ?m = "nodes c k"
  obtain i addr req where a: "k < 3" "j < length (routines ?n)" "routines ?n ! j = AppendTo i"
    "requestFor i (server ?n) = Some (addr, req)"
    "sg' = recast k (?n\<lparr>routines := (routines ?n)[j := AppendSent i req]\<rparr>) (sg\<lparr>entriesSent := (k, i, addr, req) # entriesSent sg\<rparr>)"
    using assms(2) by (auto simp: Let_def split: if_splits goroutine.splits option.splits prod.splits)
  note d = sceneD [OF assms(1)] and r = split_at [OF a(2)]
  let ?m' = "?m\<lparr>routines := (routines ?n)[j := AppendSent i req]\<rparr>"
  have q: "routines ?m = take j (routines ?n) @ AppendTo i # drop (Suc j) (routines ?n)"
    using d(4) [OF a(1)] a(3) r(1) by metis
  have b: "buildAppendEntries i (srv c k) = Inr (addr, req)" using like_sizes(11) [OF d(5) [OF a(1)]] requestFor_built [OF a(4)] by blast
  have "cluster_step trio exact c (c\<lparr>nodes := (nodes c)(k := ?m'),
      appendCalls := insert (k, i, addr, req) (appendCalls c)\<rparr>)"
    unfolding r(2) by (rule cluster_step.append_call [OF _ q b]) (use a(1) in simp)
  then show ?thesis unfolding a(5)
    by (rule scene_recast [OF assms(1) _ a(1), where n = ?m']) (use d(3,4,5) [OF a(1)] d(8-11) in simp_all)
qed

lemma play_give:
  assumes "scene c sg" "play GiveVote sg = Some sg'"
  shows "\<exists>c'. cluster_step trio exact c c' \<and> scene c' sg'"
proof -
  obtain k i addr req xs where a: "ballotsAsked sg = (k, i, addr, req) # xs" "i < 3" "Address (trio ! i) = addr"
    "sg' = recast i ((cast sg ! i)\<lparr>server := afterVote req (server (cast sg ! i))\<rparr>) (sg\<lparr>ballotsGiven :=
       (k, i, req, \<lparr>Term = max (currentTerm (server (cast sg ! i))) (Term req),
         VoteGranted = grantable req (server (cast sg ! i))\<rparr>) # ballotsGiven sg\<rparr>)"
    using assms(2) by (auto simp: Let_def split: if_splits list.splits prod.splits)
  let ?u = "server (cast sg ! i)" and ?m = "nodes c i"
  note d = sceneD [OF assms(1)]
  let ?rsp = "\<lparr>Term = max (currentTerm ?u) (Term req), VoteGranted = grantable req ?u\<rparr> :: RequestVoteResponse"
  obtain t where t: "HandleRequestVoteRequest req (srv c i) = Inr (?rsp, t)" "like (afterVote req ?u) t"
    using like_vote [OF d(5,7) [OF a(2)], of req] by blast
  have m: "(k, i, addr, req) \<in> voteCalls c" using d(8) a(1) by simp
  have "cluster_step trio exact c (c\<lparr>nodes := (nodes c)(i := ?m\<lparr>server := t\<rparr>),
      voteAnswers := insert (k, i, req, ?rsp) (voteAnswers c)\<rparr>)"
    by (rule cluster_step.vote_serve [OF m _ a(3) t(1)]) (use a(2) in simp)
  then show ?thesis unfolding a(4)
    by (rule scene_recast [OF assms(1) _ a(2), where n = "?m\<lparr>server := t\<rparr>"]) (use d(3,4) [OF a(2)] t(2) d(8-11) in simp_all)
qed

lemma play_take:
  assumes "scene c sg" "play TakeEntries sg = Some sg'"
  shows "\<exists>c'. cluster_step trio exact c c' \<and> scene c' sg'"
proof -
  obtain k i addr req xs where a: "entriesSent sg = (k, i, addr, req) # xs" "i < 3" "Address (trio ! i) = addr"
    "static (server (cast sg ! i))" "noConfig (Entries req)"
    "sg' = recast i ((cast sg ! i)\<lparr>server := afterAppend req (server (cast sg ! i))\<rparr>) (sg\<lparr>entriesTaken :=
       (k, i, req, \<lparr>Term = max (currentTerm (server (cast sg ! i))) (Term req),
         Success = accepts req (server (cast sg ! i))\<rparr>) # entriesTaken sg\<rparr>)"
    using assms(2) by (auto simp: Let_def split: if_splits list.splits prod.splits)
  let ?u = "server (cast sg ! i)" and ?m = "nodes c i"
  note d = sceneD [OF assms(1)]
  let ?rsp = "\<lparr>Term = max (currentTerm ?u) (Term req), Success = accepts req ?u\<rparr> :: AppendEntriesResponse"
  have m: "(k, i, addr, req) \<in> appendCalls c" using d(10) a(1) by simp
  then have w: "wf_request req" using d(1) unfolding cluster_inv_def by blast
  have st: "static (srv c i)" using a(4) likeD(2,4,6) [OF d(5) [OF a(2)]] by (simp add: static_def)
  obtain t where t: "HandleAppendEntriesRequest exact req (srv c i) = Inr (?rsp, t)" "like (afterAppend req ?u) t"
    using like_append [OF d(5,6) [OF a(2)] st a(5) w, of exact] by blast
  have "cluster_step trio exact c (c\<lparr>nodes := (nodes c)(i := ?m\<lparr>server := t\<rparr>),
      appendAnswers := insert (k, i, req, ?rsp) (appendAnswers c)\<rparr>)"
    by (rule cluster_step.append_serve [OF m _ a(3) t(1)]) (use a(2) in simp)
  then show ?thesis unfolding a(6)
    by (rule scene_recast [OF assms(1) _ a(2), where n = "?m\<lparr>server := t\<rparr>"]) (use d(3,4) [OF a(2)] t(2) d(8-11) in simp_all)
qed

lemma play_count_vote:
  assumes "scene c sg" "play (CountVote k j) sg = Some sg'"
  shows "\<exists>c'. cluster_step trio exact c c' \<and> scene c' sg'"
proof -
  let ?n = "cast sg ! k" and ?m = "nodes c k"
  obtain i req rsp u where a: "k < 3" "j < length (routines ?n)" "routines ?n ! j = VoteSent i req"
    "latest k i req (ballotsGiven sg) = Some rsp" "\<not> currentTerm (server ?n) < Term rsp"
    "handleVoteResponse i req rsp (server ?n) = Inr u"
    "sg' = recast k (?n\<lparr>routines := take j (routines ?n) @ drop (Suc j) (routines ?n), server := u\<rparr>) sg"
    using assms(2) by (auto simp: Let_def split: if_splits goroutine.splits sum.splits option.splits)
  note d = sceneD [OF assms(1)] and r = split_at [OF a(2)]
  obtain t where t: "handleVoteResponse i req rsp (srv c k) = Inr t" "like u t"
    using like_count_vote [OF d(5) [OF a(1)] a(5,6)] by blast
  let ?m' = "?m\<lparr>routines := take j (routines ?n) @ drop (Suc j) (routines ?n), server := t\<rparr>"
  have q: "routines ?m = take j (routines ?n) @ VoteSent i req # drop (Suc j) (routines ?n)"
    using d(4) [OF a(1)] a(3) r(1) by metis
  have m: "(k, i, req, rsp) \<in> voteAnswers c" using latest_Some [OF a(4)] d(9) by simp
  have "cluster_step trio exact c (c\<lparr>nodes := (nodes c)(k := ?m')\<rparr>)"
    by (rule cluster_step.vote_return [OF _ q m t(1)]) (use a(1) in simp)
  then show ?thesis unfolding a(7)
    by (rule scene_recast [OF assms(1) _ a(1), where n = ?m']) (use d(3,4) [OF a(1)] t(2) d(8-11) in simp_all)
qed

lemma play_count_entries:
  assumes "scene c sg" "play (CountEntries k j) sg = Some sg'"
  shows "\<exists>c'. cluster_step trio exact c c' \<and> scene c' sg'"
proof -
  let ?n = "cast sg ! k" and ?m = "nodes c k"
  obtain i req rsp u where a: "k < 3" "j < length (routines ?n)" "routines ?n ! j = AppendSent i req"
    "latest k i req (entriesTaken sg) = Some rsp" "\<not> currentTerm (server ?n) < Term rsp"
    "handleAppendResponse i req rsp (server ?n) = Inr u"
    "sg' = recast k (?n\<lparr>routines := take j (routines ?n) @ drop (Suc j) (routines ?n), server := u\<rparr>) sg"
    using assms(2) by (auto simp: Let_def split: if_splits goroutine.splits sum.splits option.splits)
  note d = sceneD [OF assms(1)] and r = split_at [OF a(2)]
  obtain t where t: "handleAppendResponse i req rsp (srv c k) = Inr t" "like u t"
    using like_count_append [OF d(5) [OF a(1)] a(5,6)] by blast
  let ?m' = "?m\<lparr>routines := take j (routines ?n) @ drop (Suc j) (routines ?n), server := t\<rparr>"
  have q: "routines ?m = take j (routines ?n) @ AppendSent i req # drop (Suc j) (routines ?n)"
    using d(4) [OF a(1)] a(3) r(1) by metis
  have m: "(k, i, req, rsp) \<in> appendAnswers c" using latest_Some [OF a(4)] d(11) by simp
  have "cluster_step trio exact c (c\<lparr>nodes := (nodes c)(k := ?m')\<rparr>)"
    by (rule cluster_step.append_return [OF _ q m t(1)]) (use a(1) in simp)
  then show ?thesis unfolding a(7)
    by (rule scene_recast [OF assms(1) _ a(1), where n = ?m']) (use d(3,4) [OF a(1)] t(2) d(8-11) in simp_all)
qed

lemma scene_play:
  "scene c sg \<Longrightarrow> play x sg = Some sg' \<Longrightarrow> \<exists>c'. cluster_step trio exact c c' \<and> scene c' sg'"
  by (cases x) (blast intro: play_loop play_command play_ask play_give play_count_vote play_send play_take
      play_count_entries)+

section \<open>From scripts to runs\<close>

lemma play_frame:
  assumes "play x sg = Some sg'"
  shows "b \<noteq> actor x sg \<Longrightarrow> cast sg' ! b = cast sg ! b"
    "(a, i, addr, req) \<in> set (entriesSent sg') \<Longrightarrow> (a, i, addr, req) \<in> set (entriesSent sg) \<or>
       (\<exists>j. x = SendEntries a j) \<and> a < 3 \<and> length (Entries req) < 20"
proof -
  show "b \<noteq> actor x sg \<Longrightarrow> cast sg' ! b = cast sg ! b"
    using assms by (cases x) (auto simp: Let_def split: if_splits goroutine.splits sum.splits option.splits list.splits)
  show "(a, i, addr, req) \<in> set (entriesSent sg') \<Longrightarrow> (a, i, addr, req) \<in> set (entriesSent sg) \<or>
      (\<exists>j. x = SendEntries a j) \<and> a < 3 \<and> length (Entries req) < 20"
    using assms by (cases x)
      (auto simp: Let_def requestFor_def split: if_splits goroutine.splits sum.splits option.splits list.splits)
qed

definition quiet :: "('sm, 'st) stage \<Rightarrow> bool" where
  "quiet sg \<longleftrightarrow> (\<forall>k < 3. noConfig (raftLog (server (cast sg ! k))))"

lemma orderly_quiet:
  assumes "quiet sg" "play x sg = Some sg'" "orderly x sg sg'"
  shows "quiet sg'"
  unfolding quiet_def
proof (intro allI impI)
  fix k :: nat assume "k < 3"
  with assms(1,3) play_frame(1) [OF assms(2), of k] show "noConfig (raftLog (server (cast sg' ! k)))"
    by (cases "k = actor x sg") (simp_all add: quiet_def orderly_def orderlyNode_def Let_def)
qed

text \<open>A goroutine that waits for an answer ends only when its node takes one.\<close>

lemma mset_without:
  assumes "j < length xs"
  shows "mset xs = add_mset (xs ! j) (mset (take j xs @ drop (Suc j) xs))"
  using arg_cong [OF split_at(1) [OF assms], of mset] by simp

lemma play_ended:
  assumes "play x sg = Some sg'" "length (cast sg) = 3" "ended (cast sg ! a) (cast sg' ! a) g"
    "g = VoteSent i req \<or> g = AppendSent i areq"
  shows "a = actor x sg \<and> finished x sg = Some g"
proof -
  have a: "a = actor x sg"
  proof (rule ccontr)
    assume "a \<noteq> actor x sg"
    from play_frame(1) [OF assms(1) this] assms(3) show False by (simp add: ended_def)
  qed
  have stays: "\<not> g \<in># mset xs - mset (xs[j := y])" if "j < length xs" "xs ! j \<noteq> g" for xs :: "goroutine list" and j y
    using that by (simp add: mset_update in_diff_count)
  have gone: "g = xs ! j" if "j < length xs" "g \<in># mset xs - mset (take j xs @ drop (Suc j) xs)" for xs and j :: nat
    using that by (simp add: mset_without)
  have "finished x sg = Some g"
  proof (cases x)
    case (AskVote k j)
    with assms(1,2) a have "j < length (routines (cast sg ! k)) \<and> (\<exists>m. routines (cast sg ! k) ! j = VoteTo m) \<and>
        (\<exists>y. routines (cast sg' ! a) = (routines (cast sg ! a))[j := y]) \<and> a = k"
      by (auto simp: Let_def split: if_splits goroutine.splits sum.splits)
    with stays assms(3,4) show ?thesis unfolding ended_def by (metis goroutine.distinct)
  next
    case (SendEntries k j)
    with assms(1,2) a have "j < length (routines (cast sg ! k)) \<and> (\<exists>m. routines (cast sg ! k) ! j = AppendTo m) \<and>
        (\<exists>y. routines (cast sg' ! a) = (routines (cast sg ! a))[j := y]) \<and> a = k"
      by (auto simp: Let_def split: if_splits goroutine.splits option.splits)
    with stays assms(3,4) show ?thesis unfolding ended_def by (metis goroutine.distinct)
  next
    case (CountVote k j)
    with assms a have "j < length (routines (cast sg ! k))" "a = k"
      "routines (cast sg' ! a) = take j (routines (cast sg ! k)) @ drop (Suc j) (routines (cast sg ! k))"
      by (auto simp: Let_def split: if_splits goroutine.splits sum.splits option.splits)
    with gone assms(3) CountVote show ?thesis by (simp add: ended_def)
  next
    case (CountEntries k j)
    with assms a have "j < length (routines (cast sg ! k))" "a = k"
      "routines (cast sg' ! a) = take j (routines (cast sg ! k)) @ drop (Suc j) (routines (cast sg ! k))"
      by (auto simp: Let_def split: if_splits goroutine.splits sum.splits option.splits)
    with gone assms(3) CountEntries show ?thesis by (simp add: ended_def)
  qed (use assms(1-3) a in \<open>auto simp: ended_def Let_def split: if_splits option.splits list.splits\<close>)
  with a show ?thesis by blast
qed

lemma orderly_regular:
  assumes "scene c sg" "scene c' sg'" "play x sg = Some sg'" "orderly x sg sg'" "quiet sg"
  shows "regular trio c c'"
  unfolding regular_def
proof (intro allI impI)
  fix a assume "a < length trio"
  then have a: "a < 3" by simp
  let ?u = "server (cast sg ! a)" and ?v = "server (cast sg' ! a)"
  have l: "like ?u (srv c a)" "like ?v (srv c' a)" by (rule sceneD(5) [OF assms(1) a(1)], rule sceneD(5) [OF assms(2) a(1)])
  have cnt: "counted (srv c a) i = counted ?u i" "counted (srv c' a) i = counted ?v i" for i
    using likeD(3,6) [OF l(1)] likeD(3,6) [OF l(2)] by (simp_all add: counted_def)
  have o: "orderlyNode ?u ?v"
  proof (cases "a = actor x sg")
    case False
    then have "cast sg' ! a = cast sg ! a" using play_frame(1) [OF assms(3)] by auto
    with assms(5) a show ?thesis by (auto simp: orderlyNode_def quiet_def)
  qed (use assms(4) in \<open>simp add: orderly_def Let_def\<close>)
  have fin: "ended (nodes c a) (nodes c' a) g = ended (cast sg ! a) (cast sg' ! a) g" for g
    using sceneD(4) [OF assms(1) a] sceneD(4) [OF assms(2) a] by (simp add: ended_def)
  have p: "\<forall>i req. ended (nodes c a) (nodes c' a) (VoteSent i req) \<and> \<not> counted ?u i \<and> counted ?v i \<longrightarrow>
      Term req = currentTerm ?v"
  proof (intro allI impI)
    fix i req assume e: "ended (nodes c a) (nodes c' a) (VoteSent i req) \<and> \<not> counted ?u i \<and> counted ?v i"
    then have "ended (cast sg ! a) (cast sg' ! a) (VoteSent i req)" by (simp add: fin)
    from play_ended [OF assms(3) sceneD(2) [OF assms(1)] this, of i req undefined]
    have "a = actor x sg" "finished x sg = Some (VoteSent i req)" by simp_all
    with assms(4) e show "Term req = currentTerm ?v" by (simp add: orderly_def votesPrompt_def Let_def)
  qed
  have w: "\<exists>ys. raftLog ?v = raftLog ?u @ ys" if "currentTerm ?v = currentTerm ?u" "ownVote ?u \<noteq> 0"
    using o that unfolding orderlyNode_def by (metis append_take_drop_id)
  have m: "currentTerm ?v = - 1" if "currentTerm ?u = - 1"
    using o that by (simp add: orderlyNode_def word_order.extremum_unique)
  show "regular_node (nodes c a) (nodes c' a)"
    unfolding regular_node_def Let_def
    using o likeD [OF l(1)] likeD [OF l(2)] like_sizes(1) [OF l(1)] like_sizes(1) [OF l(2)] cnt p w m
    unfolding orderlyNode_def by simp
qed

lemma calm_steady:
  assumes "scene c sg" "scene c' sg'" "play x sg = Some sg'" "calm x sg sg'" "quiet sg"
  shows "steady trio c c'"
  unfolding steady_def
proof (intro conjI allI impI)
  show "regular trio c c'" using orderly_regular [OF assms(1-3) _ assms(5)] assms(4) by (simp add: calm_def)
next
  fix a i addr req assume m: "(a, i, addr, req) \<in> appendCalls c'"
  then have "(a, i, addr, req) \<in> set (entriesSent sg')" using sceneD(10) [OF assms(2)] by simp
  from play_frame(2) [OF assms(3) this] assms(4)
  have "(a, i, addr, req) \<in> set (entriesSent sg) \<or>
      a < 3 \<and> role (server (cast sg ! a)) = leaderState \<and> length (Entries req) < 20"
    by (auto simp: calm_def)
  then show "(a, i, addr, req) \<in> appendCalls c \<or> role (srv c a) = leaderState \<and> length (Entries req) < MAX_APPEND_ENTRIES_BATCH"
    using sceneD(10) [OF assms(1)] likeD(5) [OF sceneD(5) [OF assms(1)]] by auto
next
  fix a i req
  assume b: "a < length trio" "role (srv c' a) = leaderState \<and> ended (nodes c a) (nodes c' a) (AppendSent i req) \<and>
      matchIndex (cluster (srv c' a) ! i) \<noteq> matchIndex (cluster (srv c a) ! i)"
  let ?u = "server (cast sg ! a)" and ?v = "server (cast sg' ! a)"
  have a: "a < 3" using b(1) by simp
  have l: "like ?u (srv c a)" "like ?v (srv c' a)" by (rule sceneD(5) [OF assms(1) a(1)], rule sceneD(5) [OF assms(2) a(1)])
  have "ended (cast sg ! a) (cast sg' ! a) (AppendSent i req)"
    using b(2) sceneD(4) [OF assms(1) a] sceneD(4) [OF assms(2) a] by (simp add: ended_def)
  from play_ended [OF assms(3) sceneD(2) [OF assms(1)] this, of i undefined req]
  have "a = actor x sg" "finished x sg = Some (AppendSent i req)" by simp_all
  with assms(4) b(2) show "Term req = currentTerm (srv c' a)"
    using likeD(1,5,6) [OF l(1)] likeD(1,5,6) [OF l(2)] by (simp add: calm_def matchesPrompt_def Let_def)
qed

lemma performed:
  assumes "case perform q xs sg of None \<Rightarrow> False | Some sg' \<Rightarrow> P sg'"
  obtains sg' where "perform q xs sg = Some sg'" "P sg'"
  using assms by (auto split: option.splits)

lemma perform_regular:
  assumes "scene c sg" "quiet sg" "perform orderly xs sg = Some sg'"
  shows "\<exists>c'. regular_run trio exact c c' \<and> scene c' sg' \<and> quiet sg'"
  using assms
proof (induction xs arbitrary: c sg)
  case Nil
  then show ?case using regular_run.start by auto
next
  case (Cons x xs)
  note sc = Cons.prems(1,2)
  obtain sg1 where p: "play x sg = Some sg1" "orderly x sg sg1" "perform orderly xs sg1 = Some sg'"
    using Cons.prems(3) by (auto split: option.splits if_splits)
  obtain c1 where c1: "cluster_step trio exact c c1" "scene c1 sg1" using scene_play [OF sc(1) p(1)] by blast
  have q: "quiet sg1" using orderly_quiet [OF sc(2) p(1)] p(2) by blast
  have "regular_run trio exact c c1"
    by (rule regular_run.step [OF regular_run.start c1(1) orderly_regular [OF sc(1) c1(2) p(1,2) sc(2)]])
  with Cons.IH [OF c1(2) q p(3)] show ?case using regular_run_trans by blast
qed

lemma perform_steady:
  assumes "scene c sg" "quiet sg" "perform calm xs sg = Some sg'"
  shows "\<exists>c'. steady_run trio exact c c' \<and> scene c' sg' \<and> quiet sg'"
  using assms
proof (induction xs arbitrary: c sg)
  case Nil
  then show ?case using steady_run.start by auto
next
  case (Cons x xs)
  note sc = Cons.prems(1,2)
  obtain sg1 where p: "play x sg = Some sg1" "calm x sg sg1" "perform calm xs sg1 = Some sg'"
    using Cons.prems(3) by (auto split: option.splits if_splits)
  obtain c1 where c1: "cluster_step trio exact c c1" "scene c1 sg1" using scene_play [OF sc(1) p(1)] by blast
  have q: "quiet sg1" using orderly_quiet [OF sc(2) p(1)] p(2) by (simp add: calm_def)
  have "steady_run trio exact c c1"
    by (rule steady_run.step [OF steady_run.start c1(1) calm_steady [OF sc(1) c1(2) p(1,2) sc(2)]])
  with Cons.IH [OF c1(2) q p(3)] show ?case using steady_run_trans by blast
qed

section \<open>The opening\<close>

definition fastClock :: "nat \<Rightarrow> int" where
  "fastClock n = (int n + 1) * (1200 * Millisecond)"

lemma proper_trio: "proper trio"
  by (simp add: proper_def trio_def newMember_def)

lemma trio_ids: "\<forall>m \<in> set trio. memberId m \<noteq> 0"
  by (simp add: trio_def)

text \<open>Three nodes started on empty disks.\<close>

abbreviation freshNodes :: "(nat \<Rightarrow> 'sm StateMachine) \<Rightarrow> ('sm, MemStorage) Cluster \<Rightarrow> bool" where
  "freshNodes m \<equiv> fresh_cluster trio exact m (\<lambda>_ _. 0) (\<lambda>_. fastClock)"

lemma fresh_scene:
  assumes "freshNodes m c"
  shows "scene c (curtain m)"
proof -
  have n: "point (nodes c k) = AtReset \<and> routines (nodes c k) = [] \<and> like (server (newcomer (m k) k)) (srv c k)"
    if "k < 3" for k
  proof -
    have k: "k < length trio" using that by simp
    obtain s where s: "NewServer trio (m k) (int k) (\<lambda>_. 0) fastClock = Inr s"
      "Start exact (Inr (memDevice NewMemStorage)) s = Inr (nodes c k)"
      using assms k unfolding fresh_cluster_def by blast
    obtain s1 n where f: "NewServer trio (m k) (int k) (\<lambda>_. 0) fastClock = Inr s1"
      "Start exact (Inr (memDevice NewMemStorage)) (s1\<lparr>Passive := False\<rparr>) = Inr n"
      "statemachine (server n) = m k" "delivered (server n) = []" "nextChan (server n) = 0" "heartbeatTimeout (server n) = 0"
      by (rule fresh_start [OF trio_ids k])
    have "s1 = s" using s(1) f(1) by simp
    then have e: "n = nodes c k" using s(2) f(2) new_not_passive [OF s(1)] by simp
    have i: "clusterIndex (srv c k) = k"
      using fresh_tracks [OF proper_trio assms] k by (simp add: tracks_def members_ok_def)
    have "k = 0 \<or> k = 1 \<or> k = 2" using that by auto
    then have "memberId (trio ! k) = of_nat (Suc k)" by (auto simp: trio_def)
    with fresh_member [OF trio_ids assms k] f(3-6) i show ?thesis
      unfolding e like_def sameState_def fast_clock_def newcomer_def by (simp add: fastClock_def algebra_simps)
  qed
  have nc: "cast (curtain m :: ('a, MemStorage) stage) ! k = newcomer (m k) k" "point (newcomer (m k) k :: ('a, MemStorage) Node) = AtReset"
    "routines (newcomer (m k) k :: ('a, MemStorage) Node) = []" if "k < 3" for k
  proof -
    have "k = 0 \<or> k = 1 \<or> k = 2" using that by auto
    then show "cast (curtain m :: ('a, MemStorage) stage) ! k = newcomer (m k) k" by (auto simp: curtain_def)
  qed (simp_all add: newcomer_def)
  have "cluster_inv trio c" by (rule fresh_cluster_inv [OF trio_ids assms])
  moreover have "length (cast (curtain m)) = 3" "ballotsAsked (curtain m) = []" "ballotsGiven (curtain m) = []"
    "entriesSent (curtain m) = []" "entriesTaken (curtain m) = []" by (simp_all add: curtain_def)
  ultimately show ?thesis using n nc assms by (simp add: scene_def fresh_cluster_def)
qed

lemma opening_scene:
  obtains c where "freshNodes m c" "scene c (curtain m)" "quiet (curtain m :: ('sm, MemStorage) stage)"
proof -
  have "k = 0 \<or> k = 1 \<or> k = 2" if "k < 3" for k :: nat using that by auto
  then have "quiet (curtain m :: ('sm, MemStorage) stage)"
    by (fastforce simp: quiet_def curtain_def newcomer_def dummyEntry_def isConfigChangeCommand_def)
  with fresh_exists [OF trio_ids] fresh_scene that show thesis by metis
qed

text \<open>Scripts are played by computation only.\<close>

declare play.simps [simp del] perform.simps [simp del]

end
