(* ===== verification/Two_Leaders.thy ===== *)
theory Two_Leaders
  imports Scenes
begin

text \<open>
  A steady run of three nodes in which a leader is elected, and a step with which it leaves
  regularity: \<^verbatim>\<open>becomeLeader\<close> on a node that is no candidate any more. The run shows that this
  guard of the safety properties cannot be dropped, and that they apply to runs with elections.
\<close>

abbreviation freshTrio :: "(unit, MemStorage) Cluster \<Rightarrow> bool" where
  "freshTrio \<equiv> freshNodes (\<lambda>_. noopStateMachine)"

abbreviation emptyStage :: "(unit, MemStorage) stage" where
  "emptyStage \<equiv> curtain (\<lambda>_. noopStateMachine)"

text \<open>What is asked of a stage: role, term, own vote, commit index and applied entries of each node.\<close>

type_synonym outline = "ServerState \<times> u64 \<times> u64 \<times> u64 \<times> u64"

definition outlines :: "('sm, 'st) stage \<Rightarrow> outline list" where
  "outlines sg = map (\<lambda>n. case server n of s \<Rightarrow>
     (role s, currentTerm s, ownVote s, commitIndex s, lastApplied s)) (cast sg)"

lemma scene_outline:
  assumes "scene c sg" "outlines sg = xs" "k < 3"
  shows "(role (srv c k), currentTerm (srv c k), ownVote (srv c k), commitIndex (srv c k), lastApplied (srv c k)) = xs ! k"
proof -
  have "k < length (cast sg)" using sceneD(2) [OF assms(1)] assms(3) by simp
  then show ?thesis
    using likeD [OF sceneD(5) [OF assms(1,3)]] like_sizes(1) [OF sceneD(5) [OF assms(1,3)]]
    by (simp add: outlines_def flip: assms(2))
qed

text \<open>
  Node 0 has the votes of all for term 2 and is about to count them when node 2 asks it for its
  vote in term 4, gets it, and becomes leader of that term; then the loop of node 0 goes on.
\<close>

definition election :: "act list" where
  "election = campaign 0 @ solicit 0 0 @ solicit 0 0 @ campaign 2 @ solicit 2 0 @ [Loop 2]"

lemma election_played:
  "case perform calm election emptyStage of None \<Rightarrow> False | Some sg \<Rightarrow>
     outlines sg = [(followerState, 4, 3, 0, 1), (followerState, 2, 1, 0, 0), (leaderState, 4, 3, 0, 1)] \<and>
     (case play (Loop 0) sg of None \<Rightarrow> False | Some sg' \<Rightarrow>
       outlines sg' = [(leaderState, 4, 3, 0, 1), (followerState, 2, 1, 0, 0), (leaderState, 4, 3, 0, 1)])"
  by code_simp

lemma elected_run:
  obtains c0 c c' where "freshTrio c0" "steady_run trio exact c0 c" "regular_run trio exact c0 c"
    "role (srv c 2) = leaderState" "currentTerm (srv c 2) = 4" "role (srv c 0) = followerState" "ownVote (srv c 0) = 3"
    "cluster_step trio exact c c'" "role (srv c' 0) = leaderState" "role (srv c' 2) = leaderState"
    "currentTerm (srv c' 0) = 4" "currentTerm (srv c' 2) = 4"
proof -
  obtain c0 where c0: "freshTrio c0" "scene c0 emptyStage" "quiet emptyStage" by (rule opening_scene)
  obtain sg where sg: "perform calm election emptyStage = Some sg"
    "outlines sg = [(followerState, 4, 3, 0, 1), (followerState, 2, 1, 0, 0), (leaderState, 4, 3, 0, 1)] \<and>
     (case play (Loop 0) sg of None \<Rightarrow> False | Some sg' \<Rightarrow>
       outlines sg' = [(leaderState, 4, 3, 0, 1), (followerState, 2, 1, 0, 0), (leaderState, 4, 3, 0, 1)])"
    by (rule performed [OF election_played])
  obtain sg' where sg': "play (Loop 0) sg = Some sg'"
    "outlines sg' = [(leaderState, 4, 3, 0, 1), (followerState, 2, 1, 0, 0), (leaderState, 4, 3, 0, 1)]"
    using sg(2) by (auto split: option.splits)
  obtain c where c: "steady_run trio exact c0 c" "scene c sg" using perform_steady [OF c0(2,3) sg(1)] by blast
  obtain c' where c': "cluster_step trio exact c c'" "scene c' sg'" using scene_play [OF c(2) sg'(1)] by blast
  note o = scene_outline [OF c(2) conjunct1 [OF sg(2)]] and o' = scene_outline [OF c'(2) sg'(2)]
  show thesis
    by (rule that [OF c0(1) c(1) steady_regular [OF c(1)] _ _ _ _ c'(1)])
      (use o [of 0] o [of 2] o' [of 0] o' [of 2] in simp_all)
qed

end
