(* ===== verification/Kv_Runs.thy ===== *)
theory Kv_Runs
  imports Two_Leaders Kv_Service
begin

text \<open>
  Two runs of three kv-api nodes. The first is steady: a client's write is committed and applied.
  The second is steady but for one step, and loses a write that the client was told is done.
\<close>

definition theWrite :: bytes where
  "theWrite = encodeCommand \<lparr>kind = setCommand, key = ''k'', val = ''v''\<rparr>"

abbreviation freshKv :: "(kvMachine, MemStorage) Cluster \<Rightarrow> bool" where
  "freshKv \<equiv> freshNodes (\<lambda>k. kvStateMachine (int k))"

abbreviation kvStage :: "(kvMachine, MemStorage) stage" where
  "kvStage \<equiv> curtain (\<lambda>k. kvStateMachine (int k))"

text \<open>What is asked of a node: role, term, commit index, entries applied, log, answers, the value of the key.\<close>

type_synonym ledger =
  "ServerState \<times> u64 \<times> u64 \<times> u64 \<times> Entry list \<times> (nat \<times> ApplyResult) list \<times> string option"

definition ledger :: "nat \<Rightarrow> (kvMachine, 'st) stage \<Rightarrow> ledger" where
  "ledger k sg = (case server (cast sg ! k) of s \<Rightarrow>
     (role s, currentTerm s, commitIndex s, lastApplied s, raftLog s, delivered s, db (sm (statemachine s)) ''k''))"

lemma scene_ledger:
  assumes "scene c sg" "ledger k sg = x" "k < 3"
  shows "(role (srv c k), currentTerm (srv c k), commitIndex (srv c k), lastApplied (srv c k), raftLog (srv c k), delivered (srv c k),
    db (sm (statemachine (srv c k))) ''k'') = x"
  using likeD [OF sceneD(5) [OF assms(1,3)]] by (simp add: ledger_def flip: assms(2))

section \<open>A write that is kept\<close>

text \<open>
  The leader of \<open>election\<close> takes a write. Its requests are refused twice, then its log is taken
  over by node 0; it commits both its entries, node 0 learns it, and the leader applies them.
\<close>

definition written :: "act list" where
  "written = [Submit 2 theWrite] @ pass_on 2 3 @ pass_on 2 3 @ [Loop 2, Loop 2] @ pass_on 2 3 @ replicate 3 (Loop 2) @
     pass_on 2 4 @ [Loop 2]"

definition keptLog :: "nat option \<Rightarrow> Entry list" where
  "keptLog ch = [dummyEntry, \<lparr>Command = [], entryTerm = 4, result = None\<rparr>, \<lparr>Command = theWrite, entryTerm = 4, result = ch\<rparr>]"

lemma written_played:
  "case perform calm (election @ written) kvStage of None \<Rightarrow> False | Some sg \<Rightarrow>
     ledger 0 sg = (followerState, 4, 2, 1, keptLog None, [], None) \<and>
     ledger 2 sg = (leaderState, 4, 2, 3, keptLog (Some 0), [(0, \<lparr>Result = [], Error = None\<rparr>)], Some ''v'')"
  by code_simp

lemma kept_run:
  obtains c0 c where "freshKv c0" "steady_run trio exact c0 c"
    "role (srv c 2) = leaderState" "currentTerm (srv c 2) = 4" "currentTerm (srv c 0) = 4"
    "commitIndex (srv c 2) = 2" "commitIndex (srv c 0) = 2" "lastApplied (srv c 2) = 3" "lastApplied (srv c 0) = 1"
    "raftLog (srv c 2) = keptLog (Some 0)" "db (sm (statemachine (srv c 2))) ''k'' = Some ''v''"
    "db (sm (statemachine (srv c 0))) ''k'' = None"
proof -
  obtain c0 where c0: "freshKv c0" "scene c0 kvStage" "quiet kvStage" by (rule opening_scene)
  obtain sg where sg: "perform calm (election @ written) kvStage = Some sg"
    "ledger 0 sg = (followerState, 4, 2, 1, keptLog None, [], None) \<and>
     ledger 2 sg = (leaderState, 4, 2, 3, keptLog (Some 0), [(0, \<lparr>Result = [], Error = None\<rparr>)], Some ''v'')"
    by (rule performed [OF written_played])
  obtain c where c: "steady_run trio exact c0 c" "scene c sg" using perform_steady [OF c0(2,3) sg(1)] by blast
  note s = scene_ledger [OF c(2) conjunct1 [OF sg(2)]] scene_ledger [OF c(2) conjunct2 [OF sg(2)]]
  show thesis by (rule that [OF c0(1) c(1)]) (use s in simp_all)
qed

section \<open>A write that is lost\<close>

text \<open>
  The lost write: a goroutine of the deposed leader 0 will send its old log in the name of the
  term in which node 0 is a candidate, and be believed. Node 0 leads in term 2, takes the write, and learns that node 1 has nothing of its log; a
  goroutine for node 1 is left behind. Node 2 leads in term 3 by the vote of node 1. Node 0 is a
  candidate of term 5 and has the vote of node 1.
\<close>

definition taken :: "act list" where
  "taken = campaign 0 @ solicit 0 0 @ [Loop 0, Submit 0 theWrite] @ pass_on 0 3 @ [Loop 0, Loop 0] @
     campaign 2 @ [Loop 2, Loop 2, Loop 2, AskVote 2 0, GiveVote] @ solicit 2 1 @ [Loop 2] @
     replicate 6 (Loop 0) @ solicit 0 1"

text \<open>
  Now the goroutine sends. Node 1 accepts, node 0 becomes leader of term 5, takes the answer for
  one of its term, commits the write with it and answers the client.
\<close>

definition acknowledged :: "act list" where
  "acknowledged = [TakeEntries, Loop 0, CountEntries 0 3] @ replicate 6 (Loop 0)"

text \<open>
  Node 2 hears of term 5, stands for term 7, and gets the vote of node 1, whose last entry is of
  term 2; as the leader it overwrites the log of node 0 and commits.
\<close>

definition forgotten :: "act list" where
  "forgotten = [SendEntries 0 2, TakeEntries] @ replicate 5 (Loop 2) @ solicit 2 2 @ replicate 3 (Loop 2) @ pass_on 2 8 @
     replicate 3 (Loop 2) @ pass_on 2 9 @ replicate 3 (Loop 2) @ pass_on 2 10 @ replicate 4 (Loop 2)"

definition acknowledgedLedger :: ledger where
  "acknowledgedLedger = (leaderState, 5, 2, 3,
     [dummyEntry, \<lparr>Command = [], entryTerm = 2, result = None\<rparr>,
      \<lparr>Command = theWrite, entryTerm = 2, result = Some 0\<rparr>, \<lparr>Command = [], entryTerm = 5, result = None\<rparr>],
     [(0, \<lparr>Result = [], Error = None\<rparr>)], Some ''v'')"

definition laterLog :: "Entry list" where
  "laterLog = [dummyEntry, \<lparr>Command = [], entryTerm = 3, result = None\<rparr>, \<lparr>Command = [], entryTerm = 7, result = None\<rparr>]"

lemma lost_played:
  "case perform calm taken kvStage of None \<Rightarrow> False | Some sg1 \<Rightarrow>
     (case play (SendEntries 0 3) sg1 of None \<Rightarrow> False | Some sg2 \<Rightarrow> orderly (SendEntries 0 3) sg1 sg2 \<and>
       role (server (cast sg1 ! 0)) = candidateState \<and>
       (case perform calm acknowledged sg2 of None \<Rightarrow> False | Some sg3 \<Rightarrow> ledger 0 sg3 = acknowledgedLedger \<and>
         (case perform calm forgotten sg3 of None \<Rightarrow> False | Some sg4 \<Rightarrow>
           ledger 0 sg4 = (followerState, 7, 2, 3, laterLog, [(0, \<lparr>Result = [], Error = None\<rparr>)], Some ''v'') \<and>
           ledger 2 sg4 = (leaderState, 7, 2, 3, laterLog, [], None))))"
  by code_simp

lemma lost_run:
  obtains c0 c1 c2 c3 c4 where "freshKv c0" "steady_run trio exact c0 c1"
    "cluster_step trio exact c1 c2" "regular trio c1 c2" "role (srv c1 0) = candidateState"
    "steady_run trio exact c2 c3" "steady_run trio exact c3 c4"
    "role (srv c3 0) = leaderState" "commitIndex (srv c3 0) = 2" "raftLog (srv c3 0) ! 2 = \<lparr>Command = theWrite, entryTerm = 2, result = Some 0\<rparr>"
    "delivered (srv c3 0) = [(0, \<lparr>Result = [], Error = None\<rparr>)]" "db (sm (statemachine (srv c3 0))) ''k'' = Some ''v''"
    "role (srv c4 2) = leaderState" "commitIndex (srv c4 2) = 2" "lastApplied (srv c4 2) = lastApplied (srv c4 0)"
    "raftLog (srv c4 0) = laterLog" "raftLog (srv c4 2) = laterLog"
    "db (sm (statemachine (srv c4 0))) ''k'' = Some ''v''" "db (sm (statemachine (srv c4 2))) ''k'' = None"
proof -
  obtain c0 where c0: "freshKv c0" "scene c0 kvStage" "quiet kvStage" by (rule opening_scene)
  obtain sg1 sg2 sg3 sg4 where p: "perform calm taken kvStage = Some sg1" "play (SendEntries 0 3) sg1 = Some sg2"
    "perform calm acknowledged sg2 = Some sg3" "perform calm forgotten sg3 = Some sg4" "orderly (SendEntries 0 3) sg1 sg2"
    and r: "role (server (cast sg1 ! 0)) = candidateState" and l: "ledger 0 sg3 = acknowledgedLedger"
    "ledger 0 sg4 = (followerState, 7, 2, 3, laterLog, [(0, \<lparr>Result = [], Error = None\<rparr>)], Some ''v'')"
    "ledger 2 sg4 = (leaderState, 7, 2, 3, laterLog, [], None)"
    using lost_played by (auto split: option.splits)
  obtain c1 where c1: "steady_run trio exact c0 c1" "scene c1 sg1" "quiet sg1" using perform_steady [OF c0(2,3) p(1)] by blast
  obtain c2 where c2: "cluster_step trio exact c1 c2" "scene c2 sg2" using scene_play [OF c1(2) p(2)] by blast
  have reg: "regular trio c1 c2" by (rule orderly_regular [OF c1(2) c2(2) p(2,5) c1(3)])
  have q: "quiet sg2" by (rule orderly_quiet [OF c1(3) p(2,5)])
  obtain c3 where c3: "steady_run trio exact c2 c3" "scene c3 sg3" "quiet sg3" using perform_steady [OF c2(2) q p(3)] by blast
  obtain c4 where c4: "steady_run trio exact c3 c4" "scene c4 sg4" using perform_steady [OF c3(2,3) p(4)] by blast
  have "role (srv c1 0) = candidateState" using likeD(5) [OF sceneD(5) [OF c1(2)], of 0] r by simp
  note s = scene_ledger [OF c3(2) l(1)] scene_ledger [OF c4(2) l(2)] scene_ledger [OF c4(2) l(3)]
  show thesis
    by (rule that [OF c0(1) c1(1) c2(1) reg \<open>role (srv c1 0) = candidateState\<close> c3(1) c4(1)])
      (use s in \<open>simp_all add: acknowledgedLedger_def\<close>)
qed

end
