(* ===== verification/Cluster_Properties.thy ===== *)
theory Cluster_Properties
  imports Kv_Runs
begin

text \<open>
  The properties of a cluster of nodes that exchange their own requests and answers: what holds
  in every run, in every regular run, in every steady run, and that the guards are needed.
\<close>

text \<open>
  C1: Election Safety. In a cluster with a static membership, started on empty disks, two nodes
  that lead in the same term are the same node, at one moment or at two moments of a run. The
  run is any interleaving of the main loops, goroutines, handlers and client calls of all
  nodes, in which requests and answers may be delayed, lost, reordered and repeated; it is
  regular: no log is truncated in a term in which its node has voted, no answer to a request of
  an earlier term is counted as a vote, no node that has stepped down becomes leader, no term
  wraps, and no node restarts. That a node votes once in a term, and that only granted votes are
  counted, is not assumed but shown of the handlers.
\<close>

theorem election_safety:
  assumes "proper cfg" "fresh_cluster cfg grow machine rnd clk c0"
    and "regular_run cfg grow c0 c" "regular_run cfg grow c c'" "a < length cfg" "b < length cfg"
    and "role (srv c a) = leaderState" "role (srv c' b) = leaderState"
    and "currentTerm (srv c a) = currentTerm (srv c' b)"
  shows "a = b"
proof -
  obtain h where "tracks cfg c h" by (rule run_tracks [OF assms(1-3)])
  from safe_later(1) [OF assms(1) this assms(4-9)] show ?thesis .
qed

theorem election_safety_witness:
  "\<exists>c0 c. freshTrio c0 \<and> regular_run trio (\<lambda>_ n. n) c0 c \<and> role (srv c 2) = leaderState \<and>
    currentTerm (srv c 2) = 4 \<and> (\<forall>b < 3. role (srv c b) = leaderState \<and> currentTerm (srv c b) = 4 \<longrightarrow> b = 2)"
proof -
  obtain c0 c where c: "freshTrio c0" "regular_run trio exact c0 c" "role (srv c 2) = leaderState"
    "currentTerm (srv c 2) = 4" by (rule elected_run)
  have "2 = b" if "b < 3" "role (srv c b) = leaderState" "currentTerm (srv c b) = 4" for b
    by (rule election_safety [OF proper_trio c(1,2) regular_run.start _ _ c(3)]) (use that c(4) in simp_all)
  with c show ?thesis by blast
qed

text \<open>
  C2: Log Matching. In a regular run of a cluster the logs of any two nodes, or of one node, at
  any two moments agree: they start with the same entry, and where they have an entry of the
  same index and term they carry the same commands up to there. Requests are built from logs
  that may have changed when they arrive, by leaders or, when a goroutine is late, by nodes
  that lead no more.
\<close>

theorem cluster_log_matching:
  assumes "proper cfg" "fresh_cluster cfg grow machine rnd clk c0"
    and "regular_run cfg grow c0 c" "regular_run cfg grow c c'" "a < length cfg" "b < length cfg"
  shows "log_matching (raftLog (srv c a)) (raftLog (srv c' b))"
proof -
  obtain h where "tracks cfg c h" by (rule run_tracks [OF assms(1-3)])
  from safe_later(2) [OF assms(1) this assms(4-6)] show ?thesis .
qed

theorem cluster_log_matching_witness:
  "\<exists>c0 c. freshTrio c0 \<and> regular_run trio (\<lambda>_ n. n) c0 c \<and> role (srv c 2) = leaderState \<and>
    log_matching (raftLog (srv c 2)) (raftLog (srv c 0)) \<and> log_matching (raftLog (srv c0 1)) (raftLog (srv c 2))"
proof -
  obtain c0 c where c: "freshTrio c0" "regular_run trio exact c0 c" "role (srv c 2) = leaderState"
    by (rule elected_run)
  have "log_matching (raftLog (srv c 2)) (raftLog (srv c 0))"
    by (rule cluster_log_matching [OF proper_trio c(1,2) regular_run.start]) simp_all
  moreover have "log_matching (raftLog (srv c0 1)) (raftLog (srv c 2))"
    by (rule cluster_log_matching [OF proper_trio c(1) regular_run.start c(2)]) simp_all
  ultimately show ?thesis using c by blast
qed

text \<open>
  C3: The cluster implements Raft's specification. Every regular run of the program is matched
  by a run of the abstract history, in which a node casts one ballot per term: each vote that a
  node holds, and each vote that an answer under way grants, is a ballot cast in its term; each
  leader has the ballots of a majority of the nodes for its term, and its log is the log of its
  term; and every log is, up to each of its entries, the log of the leader of that entry's term.
\<close>

theorem cluster_refines:
  assumes "proper cfg" "fresh_cluster cfg grow machine rnd clk c0" "regular_run cfg grow c0 c"
  shows "\<exists>h. spec_run (length cfg) emptyHistory h \<and>
    (\<forall>t v x y. (t, v, x) \<in> ballots h \<longrightarrow> (t, v, y) \<in> ballots h \<longrightarrow> x = y) \<and>
    (\<forall>a i req rsp. (a, i, req, rsp) \<in> voteAnswers c \<longrightarrow> VoteGranted rsp \<longrightarrow>
       (Term req, i, CandidateId req) \<in> ballots h) \<and>
    (\<forall>a < length cfg.
      legal h (plainLog (raftLog (srv c a))) \<and>
      (ownVote (srv c a) \<noteq> 0 \<longrightarrow> (currentTerm (srv c a), a, ownVote (srv c a)) \<in> ballots h) \<and>
      (role (srv c a) = leaderState \<longrightarrow> (currentTerm (srv c a), memberId (cfg ! a)) \<in> elected h \<and>
         length cfg < 2 * card {v. v < length cfg \<and> (currentTerm (srv c a), v, memberId (cfg ! a)) \<in> ballots h} \<and>
         plainLog (raftLog (srv c a)) = canon h (currentTerm (srv c a))))"
proof -
  obtain h where h: "spec_run (length cfg) emptyHistory h" "tracks cfg c h"
    by (rule run_tracks [OF assms])
  have s: "spec_inv (length cfg) h" "leaders_ok cfg c h" "ballots_ok cfg c h" using h(2) by (simp_all add: tracks_def)
  have one: "\<And>t v x y. (t, v, x) \<in> ballots h \<Longrightarrow> (t, v, y) \<in> ballots h \<Longrightarrow> x = y"
    and maj: "\<And>t x. (t, x) \<in> elected h \<Longrightarrow> length cfg < 2 * card {v. v < length cfg \<and> (t, v, x) \<in> ballots h}"
    using s(1) unfolding spec_inv_def votersOf_def by blast+
  have l: "role (srv c a) = leaderState \<Longrightarrow> plainLog (raftLog (srv c a)) = canon h (currentTerm (srv c a))"
    and v: "ownVote (srv c a) \<noteq> 0 \<Longrightarrow> (currentTerm (srv c a), a, ownVote (srv c a)) \<in> ballots h"
    if "a < length cfg" for a
    using s(2,3) that leaders_okD(2) unfolding ballots_ok_def by blast+
  show ?thesis
    by (intro exI [of _ h] conjI h(1) allI impI)
      (use one maj ballots_okD(1) [OF s(3)] tracks_logs(2) [OF h(2)] tracks_elected [OF h(2)] l v in blast)+
qed

theorem cluster_refines_witness:
  "\<exists>c0 c h. freshTrio c0 \<and> regular_run trio (\<lambda>_ n. n) c0 c \<and> spec_run 3 emptyHistory h \<and>
    role (srv c 2) = leaderState \<and> (4, 3) \<in> elected h \<and> plainLog (raftLog (srv c 2)) = canon h 4"
proof -
  obtain c0 c where c: "freshTrio c0" "regular_run trio exact c0 c" "role (srv c 2) = leaderState"
    "currentTerm (srv c 2) = 4" by (rule elected_run)
  from cluster_refines [OF proper_trio c(1,2)] obtain h where h: "spec_run 3 emptyHistory h"
    "\<forall>a < 3. role (srv c a) = leaderState \<longrightarrow> (currentTerm (srv c a), memberId (trio ! a)) \<in> elected h \<and>
       plainLog (raftLog (srv c a)) = canon h (currentTerm (srv c a))"
    unfolding length_trio by blast
  from h(2) [rule_format, of 2] c(3,4) have "(4, memberId (trio ! 2)) \<in> elected h \<and>
      plainLog (raftLog (srv c 2)) = canon h 4" by simp
  moreover have "memberId (trio ! 2) = 3" by (simp add: trio_def)
  ultimately show ?thesis using c h(1) by metis
qed

text \<open>
  C4: Leader Completeness. In a steady run of a cluster, what a node has committed at some moment
  is in the log of every leader of its or a later term, at that moment and at every later one.
  This holds although entries of earlier terms are committed by counting: the requests of a
  leader carry its log to the end, so a majority that has such an entry has the leader's first
  one too. A run is steady if it is regular, append requests are built while their node leads
  and carry less than a full batch, and leaders let only answers to requests of their present
  term move a match index; to what it moves is shown of the response handler.
\<close>

theorem leader_completeness:
  assumes "proper cfg" "fresh_cluster cfg grow machine rnd clk c0"
    and "steady_run cfg grow c0 c" "steady_run cfg grow c c'" "a < length cfg" "b < length cfg"
    and "role (srv c' b) = leaderState" "currentTerm (srv c a) \<le> currentTerm (srv c' b)"
  shows "unat (commitIndex (srv c a)) < length (raftLog (srv c' b)) \<and>
    same_upto (Suc (unat (commitIndex (srv c a)))) (raftLog (srv c a)) (raftLog (srv c' b))"
proof -
  obtain h A where "tracks_commit cfg c h A" by (rule run_tracks_commit [OF assms(1-3)])
  from committed_later [OF assms(1) this assms(4-8)] show ?thesis by (simp add: same_upto_plain)
qed

theorem leader_completeness_witness:
  "\<exists>c0 c. freshKv c0 \<and> steady_run trio (\<lambda>_ n. n) c0 c \<and> role (srv c 2) = leaderState \<and> currentTerm (srv c 2) = 4 \<and>
    commitIndex (srv c 0) = 2 \<and> same_upto 3 (raftLog (srv c 0)) (raftLog (srv c 2)) \<and>
    Command (raftLog (srv c 2) ! 2) = theWrite"
proof -
  obtain c0 c where c: "freshKv c0" "steady_run trio exact c0 c" "role (srv c 2) = leaderState"
    "currentTerm (srv c 2) = 4" "currentTerm (srv c 0) = 4" "commitIndex (srv c 0) = 2" "raftLog (srv c 2) = keptLog (Some 0)"
    by (rule kept_run)
  have "same_upto (Suc (unat (commitIndex (srv c 0)))) (raftLog (srv c 0)) (raftLog (srv c 2))"
    using leader_completeness [OF proper_trio c(1,2) steady_run.start _ _ c(3), of 0] c(4,5) by simp
  moreover have "Suc (unat (commitIndex (srv c 0))) = 3" using c(6) by simp
  moreover have "Command (raftLog (srv c 2) ! 2) = theWrite" using c(7) by (simp add: keptLog_def)
  ultimately show ?thesis using c(1-4,6) by metis
qed

text \<open>
  C5: State Machine Safety. In a steady run of a cluster no two nodes commit different entries at
  the same index, nor does one node at two moments: their logs have the same terms and commands
  up to the smaller of the two commit indices.
\<close>

theorem state_machine_safety:
  assumes "proper cfg" "fresh_cluster cfg grow machine rnd clk c0"
    and "steady_run cfg grow c0 c" "steady_run cfg grow c c'" "a < length cfg" "b < length cfg"
  shows "same_upto (Suc (unat (min (commitIndex (srv c a)) (commitIndex (srv c' b)))))
    (raftLog (srv c a)) (raftLog (srv c' b))"
proof -
  let ?i = "unat (min (commitIndex (srv c a)) (commitIndex (srv c' b)))"
  obtain h A where t: "tracks_commit cfg c h A" by (rule run_tracks_commit [OF assms(1-3)])
  have "?i \<le> unat (commitIndex (srv c a))" "?i \<le> unat (commitIndex (srv c' b))"
    by (simp_all add: min_def word_le_nat_alt)
  from committed_agree [OF assms(1) t assms(4-6) this] show ?thesis by (simp add: same_upto_plain)
qed

theorem state_machine_safety_witness:
  "\<exists>c0 c. freshKv c0 \<and> steady_run trio (\<lambda>_ n. n) c0 c \<and> commitIndex (srv c 2) = 2 \<and> commitIndex (srv c 0) = 2 \<and>
    same_upto 3 (raftLog (srv c 2)) (raftLog (srv c 0)) \<and> Command (raftLog (srv c 2) ! 2) = theWrite"
proof -
  obtain c0 c where c: "freshKv c0" "steady_run trio exact c0 c"
    "commitIndex (srv c 2) = 2" "commitIndex (srv c 0) = 2" "raftLog (srv c 2) = keptLog (Some 0)"
    by (rule kept_run)
  have "same_upto (Suc (unat (min (commitIndex (srv c 2)) (commitIndex (srv c 0))))) (raftLog (srv c 2)) (raftLog (srv c 0))"
    by (rule state_machine_safety [OF proper_trio c(1,2) steady_run.start]) simp_all
  moreover have "Suc (unat (min (commitIndex (srv c 2)) (commitIndex (srv c 0)))) = 3" using c(3,4) by simp
  moreover have "Command (raftLog (srv c 2) ! 2) = theWrite" using c(5) by (simp add: keptLog_def)
  ultimately show ?thesis using c(1-4) by metis
qed

text \<open>
  C6: State machines never fork. In a steady run every state machine is the result of the commands
  of one log: the machine of a node is, from its initial state, what the applied entries of the
  log of any node make of it that has applied as many or more, then or later.
\<close>

theorem machines_never_fork:
  assumes "proper cfg" "fresh_cluster cfg grow machine rnd clk c0"
    and "steady_run cfg grow c0 c" "steady_run cfg grow c c'" "a < length cfg" "b < length cfg"
    and "lastApplied (srv c a) \<le> lastApplied (srv c' b)"
  shows "applyLog (sm_Apply (machine a)) (sm (machine a)) (take (unat (lastApplied (srv c a))) (raftLog (srv c' b)))
    = Inr (sm (statemachine (srv c a)))"
proof -
  obtain h A where t: "tracks_commit cfg c0 h A" using fresh_tracks_commit [OF assms(1,2)] by blast
  have m: "machines_ok cfg machine c0" using assms(1) by (intro fresh_machines [OF _ assms(2)]) (simp add: proper_def)
  obtain h' A' where k: "machines_ok cfg machine c" "tracks_commit cfg c h' A'"
    using machines_run [OF assms(3) m t assms(1)] by blast
  show ?thesis by (rule machines_prefix [OF assms(1) k assms(4-7)])
qed

theorem machines_never_fork_witness:
  "\<exists>c0 c. freshKv c0 \<and> steady_run trio (\<lambda>_ n. n) c0 c \<and> raftLog (srv c 2) = keptLog (Some 0) \<and>
    applyLog kvApply (sm (kvStateMachine 0)) (take 1 (raftLog (srv c 2))) = Inr (sm (statemachine (srv c 0))) \<and>
    applyLog kvApply (sm (kvStateMachine 2)) (take 3 (raftLog (srv c 2))) = Inr (sm (statemachine (srv c 2))) \<and>
    db (sm (statemachine (srv c 2))) ''k'' = Some ''v''"
proof -
  obtain c0 c where c: "freshKv c0" "steady_run trio exact c0 c" "lastApplied (srv c 2) = 3" "lastApplied (srv c 0) = 1"
    "raftLog (srv c 2) = keptLog (Some 0)" "db (sm (statemachine (srv c 2))) ''k'' = Some ''v''"
    by (rule kept_run)
  note m = machines_never_fork [OF proper_trio c(1,2) steady_run.start, where b = 2]
  have "applyLog kvApply (sm (kvStateMachine 0)) (take 1 (raftLog (srv c 2))) = Inr (sm (statemachine (srv c 0)))"
    "applyLog kvApply (sm (kvStateMachine 2)) (take 3 (raftLog (srv c 2))) = Inr (sm (statemachine (srv c 2)))"
    using m [of 0] m [of 2] c(3,4) by (simp_all add: kvStateMachine_def)
  with c(1,2,5,6) show ?thesis by blast
qed

text \<open>
  C28: In every run of a cluster of fresh nodes, regular or not, with members added or not, every
  node satisfies its invariant: what arrives at a node was sent by another node in the
  invariant, so no assumption on requests is left.
\<close>

theorem cluster_keeps_nodes:
  assumes "\<forall>m \<in> set cfg. memberId m \<noteq> 0" "fresh_cluster cfg grow machine rnd clk c0"
    and "cluster_run cfg grow c0 c" "a < length cfg"
  shows "run_inv (nodes c a)"
  using cluster_run_inv [OF assms(3) fresh_cluster_inv [OF assms(1,2)]] assms(4)
  by (simp add: cluster_inv_def)

theorem cluster_keeps_nodes_witness:
  "\<exists>c0 c. freshTrio c0 \<and> cluster_run trio (\<lambda>_ n. n) c0 c \<and> role (srv c 2) = leaderState \<and>
    run_inv (nodes c 0) \<and> run_inv (nodes c 1) \<and> run_inv (nodes c 2)"
proof -
  obtain c0 c where c: "freshTrio c0" "regular_run trio exact c0 c" "role (srv c 2) = leaderState"
    by (rule elected_run)
  note r = cluster_keeps_nodes [OF trio_ids c(1) regular_cluster_run [OF c(2)]]
  have "run_inv (nodes c 0)" "run_inv (nodes c 1)" "run_inv (nodes c 2)" by (rule r; simp)+
  with c regular_cluster_run [OF c(2)] show ?thesis by blast
qed

text \<open>
  C26: Two leaders in one term. The main loop reads the role, releases the mutex and later calls
  \<^verbatim>\<open>becomeLeader\<close>, which counts the recorded votes without a look at the role, and stepping down
  clears only the own vote. In three nodes with an otherwise regular run a candidate of term 2
  that has all votes is told of term 4, votes for the candidate of that term, which becomes
  leader; then its own loop goes on, counts the two votes of term 2, and it is a second leader
  of term 4.
\<close>

theorem two_leaders:
  "\<exists>(c0 :: (unit, MemStorage) Cluster) c c'.
    fresh_cluster trio (\<lambda>_ n. n) (\<lambda>_. noopStateMachine) (\<lambda>_ _. 0) (\<lambda>_. fastClock) c0 \<and>
    regular_run trio (\<lambda>_ n. n) c0 c \<and> cluster_step trio (\<lambda>_ n. n) c c' \<and>
    role (srv c 0) = followerState \<and> ownVote (srv c 0) = 3 \<and>
    role (srv c' 0) = leaderState \<and> role (srv c' 2) = leaderState \<and>
    currentTerm (srv c' 0) = 4 \<and> currentTerm (srv c' 2) = 4"
proof -
  obtain c0 c c' where "freshTrio c0" "regular_run trio exact c0 c" "cluster_step trio exact c c'"
    "role (srv c 0) = followerState" "ownVote (srv c 0) = 3" "role (srv c' 0) = leaderState" "role (srv c' 2) = leaderState"
    "currentTerm (srv c' 0) = 4" "currentTerm (srv c' 2) = 4"
    by (rule elected_run)
  then show ?thesis by blast
qed

text \<open>
  C27: An acknowledged write is lost. A goroutine of \<^verbatim>\<open>appendEntries\<close> that gets the mutex after its
  node has been deposed builds its request with the node's new term; it need not lead. In three
  kv-api nodes with an otherwise steady run, node 0 takes a write as leader of term 2, is deposed
  by node 2 in term 3, and is a candidate of term 5 when its late goroutine sends the old log to
  node 1, which accepts. Once node 0 leads in term 5 the answer counts: it commits, applies the
  write and tells the client. Node 2, whose log lacks it but ends in term 3, wins term 7,
  overwrites the log of node 0 and commits: the write is gone, and at equal applied length the
  two stores differ.
\<close>

theorem acknowledged_write_lost:
  "\<exists>(c0 :: (kvMachine, MemStorage) Cluster) c1 c2 c3 c4.
    fresh_cluster trio (\<lambda>_ n. n) (\<lambda>k. kvStateMachine (int k)) (\<lambda>_ _. 0) (\<lambda>_. fastClock) c0 \<and>
    steady_run trio (\<lambda>_ n. n) c0 c1 \<and> role (srv c1 0) = candidateState \<and>
    cluster_step trio (\<lambda>_ n. n) c1 c2 \<and> regular trio c1 c2 \<and>
    steady_run trio (\<lambda>_ n. n) c2 c3 \<and> steady_run trio (\<lambda>_ n. n) c3 c4 \<and>
    role (srv c3 0) = leaderState \<and> commitIndex (srv c3 0) = 2 \<and>
    raftLog (srv c3 0) ! 2 = \<lparr>Command = encodeCommand \<lparr>kind = setCommand, key = ''k'', val = ''v''\<rparr>,
      entryTerm = 2, result = Some 0\<rparr> \<and>
    delivered (srv c3 0) = [(0, \<lparr>Result = [], Error = None\<rparr>)] \<and>
    role (srv c4 2) = leaderState \<and> commitIndex (srv c4 2) = 2 \<and>
    map Command (raftLog (srv c4 2)) = [[], [], []] \<and> raftLog (srv c4 0) = raftLog (srv c4 2) \<and>
    lastApplied (srv c4 2) = lastApplied (srv c4 0) \<and>
    db (sm (statemachine (srv c4 0))) ''k'' = Some ''v'' \<and> db (sm (statemachine (srv c4 2))) ''k'' = None"
proof -
  obtain c0 c1 c2 c3 c4 where c: "freshKv c0" "steady_run trio exact c0 c1"
    "cluster_step trio exact c1 c2" "regular trio c1 c2" "role (srv c1 0) = candidateState"
    "steady_run trio exact c2 c3" "steady_run trio exact c3 c4"
    "role (srv c3 0) = leaderState" "commitIndex (srv c3 0) = 2"
    "raftLog (srv c3 0) ! 2 = \<lparr>Command = theWrite, entryTerm = 2, result = Some 0\<rparr>"
    "delivered (srv c3 0) = [(0, \<lparr>Result = [], Error = None\<rparr>)]"
    "role (srv c4 2) = leaderState" "commitIndex (srv c4 2) = 2" "lastApplied (srv c4 2) = lastApplied (srv c4 0)"
    "raftLog (srv c4 0) = laterLog" "raftLog (srv c4 2) = laterLog"
    "db (sm (statemachine (srv c4 0))) ''k'' = Some ''v''" "db (sm (statemachine (srv c4 2))) ''k'' = None"
    by (rule lost_run)
  have "map Command (raftLog (srv c4 2)) = [[], [], []]" "raftLog (srv c4 0) = raftLog (srv c4 2)"
    by (simp_all add: c(15,16) laterLog_def)
  moreover note c(10) [unfolded theWrite_def]
  ultimately show ?thesis
    using c(1-9,11-14,17,18) by (intro exI [of _ c0] exI [of _ c1] exI [of _ c2] exI [of _ c3] exI [of _ c4] conjI)
qed

end
