(* ===== verification/Spec2Isabelle.thy ===== *)
theory Spec2Isabelle
  imports Compose Memory_Network Rpc_Client Cli_Jobs Log_Order Cluster_Properties
begin

text \<open>
  navi-kv: a key-value store on a Raft cluster, in Go. This development models the program as it
  is written and proves what makes its parts correct, and where they are not.

  \<^bold>\<open>The program.\<close> Package navi is the Raft library: a \<^verbatim>\<open>Server\<close> keeps a log of entries, a vote and a
  term on a \<^verbatim>\<open>Storage\<close>, elects a leader, replicates the leader's log, commits what a majority
  has, and applies committed commands to a \<^verbatim>\<open>StateMachine\<close>; a \<^verbatim>\<open>Transport\<close> carries its two
  requests. cmd/kv-api is the service: a map as the state machine, and HTTP handlers that put
  commands into the log. cmd/navi-cli is a terminal program that writes a docker compose file
  for a cluster, starts it, sends requests to the nodes and shows their logs.

  \<^bold>\<open>Theories and code.\<close>
  Navi_Prelude: byte strings, 64-bit words, panics, sequencing (\<open>chain\<close>), little-endian integers,
  the contract \<open>codec\<close>. A Go slice is a list; indexing and slicing out of range are panics.
  Storage (navi/storage.go): the interface as a record of methods, \<^verbatim>\<open>MemStorage\<close>, and the contract
  \<open>reliable_storage\<close> that it fulfils.
  Membership (navi/membership.go): config changes as commands, merging and rebuilding a cluster.
  Server (navi/server.go): the state; a Go field \<^verbatim>\<open>log\<close> is \<open>raftLog\<close> (with its capacity \<open>logCap\<close>),
  \<^verbatim>\<open>state\<close> is \<open>role\<close>, \<^verbatim>\<open>done\<close> is \<open>stopped\<close>, \<^verbatim>\<open>id\<close> is \<open>selfId\<close>. Channels are numbers, and
  \<open>delivered\<close> is what was sent on them; the clock and the generator are the sequences of what
  they will return. An operation returns a panic with the state it leaves, or a result.
  Persistence (navi/persistence.go): \<^verbatim>\<open>persist\<close> with its buffered writer, \<^verbatim>\<open>restore\<close>; Durability has the
  disk image and the round trip. Election (navi/election.go) with Log_Order, the linear order of
  log positions by which votes are given; Replication (navi/replication.go, \<^verbatim>\<open>AddServer\<close>) with its
  lemmas in Append_Handler, Leader, Commit, Application and Add_Server.
  Node (\<^verbatim>\<open>Start\<close>, \<^verbatim>\<open>Stop\<close>): a running node as an inductive step relation whose steps are the
  program's locked sections, in any interleaving, with any requests and responses; Run has the
  properties of its runs.
  Cluster: the nodes of one configuration and the calls under way between them. Node_Moves,
  Vote_Moves, Commit_Moves and Apply_Moves are what it needs to know of a node's steps: how they move
  role and log, the node's own vote and the votes it has counted, commit and match indices, the state
  machine. Raft_Spec is the specification: a history
  of ballots, elections and leaders' logs; Cluster_Safety the simulation. Raft_Commit is the
  specification's commitment, over the contract \<open>quorum_system\<close>: who stored which entry, and what
  is safe from being overwritten; Cluster_Commit carries it along a run, Cluster_Machine adds the
  state machines. Clocks, Sketches and Scenes build concrete runs of three nodes: a script of acts is played by
  computation on sketches of the nodes, and Scenes proves that the cluster has the run that was played.
  Two_Leaders and Kv_Runs are such runs; Cluster_Properties has the properties.
  Memory_Network (navi/transport_memory.go, navi/clock.go) with the contract \<open>transport\<close> and a
  specification of the network by the history of its operations (\<open>fateOf\<close>), and
  Rpc_Client (navi/transport.go).
  Go_Strings: what the commands use of strings, strconv and fmt. Kv_Api and Kv_Config
  (cmd/kv-api/main.go), with properties in Kv_Service. Compose (cmd/navi-cli/compose.go).
  Cli_Tabs (tabs and highlighting of cmd/navi-cli/main.go, logs.go), Cli_Model (the model, its messages
  and commands: main.go, commands.go, modals.go), Cli_Safety (the views and the invariant),
  Cli_Jobs (status.go and the jobs of commands.go).

  \<^bold>\<open>What is shown.\<close>
  Of one node: the two handlers meet Raft's receiver rules on every branch and never panic on a
  node in its invariant; what they answer is on disk first; persisting and restoring is a round
  trip; a vote is given once per term (as long as no truncation and no restart comes between,
  see below); a leader commits what a majority acknowledged; the state machine is the fold of the
  log. Of a run: \<open>run_inv\<close> holds from \<^verbatim>\<open>NewServer\<close> and \<^verbatim>\<open>Start\<close> on, and every step keeps terms growing,
  votes, leaders' logs and durability. Of two nodes: a leader and a follower that exchange
  requests and responses converge, log matching is kept, two winners of a term share a voter.
  Of a cluster: every node stays in its invariant; a regular run implements the specification, so
  that there is one leader per term and all logs match. Regular names five
  events that do not happen, and nothing of what the handlers must do: no term wraps, no late
  \<^verbatim>\<open>becomeLeader\<close> makes a follower a leader, a node that has voted in a term does not truncate its log in
  that term, the answer to a vote request of an earlier term is not counted, no log has a config change. That a
  node gives one vote per term, keeps it, and that a leader counts granted votes only is proved of the handlers
  (\<open>step_lawful\<close>). The properties of kind error show that these events are possible (and so is a restart,
  which the step relation does not have); that
  the exclusion of the late \<^verbatim>\<open>becomeLeader\<close> is needed is shown by a run with two leaders. In a
  steady run committed entries are in every later leader's log, no two nodes commit different
  entries, and the state machines never fork. Steady is regular, and excludes three more
  behaviours of the code: a goroutine that sends the log after its node was deposed; a batch of 8000
  entries, which may not reach the end of the leader's log, so that the follower's commit index may
  pass what it shares with the leader and earlier terms are committed unguarded; an answer to a
  request of an earlier term that moves a match index. What an answer of the present term makes of a match index
  is proved (\<open>step_firm\<close>). That the first is needed is shown by a run in which an
  acknowledged write is lost.
  Of the service: it is a map, on top of the log; a value that was set is read; the bound on its
  size. Of the command-line program: the nodes it describes start and know each other, its
  highlighter is right on ASCII text, its screen stays in range, its jobs end.
  The properties of kind error are behaviours that a reader would not expect, each proved on
  the model: a restart and a truncation forget the vote, stale responses count, entries of
  earlier terms are committed by counting, two nodes lead in one term, a write is lost after its
  client was answered, oversized commands make
  a node unusable, goroutines that come late index a truncated log, a started cluster can leave
  the screen's index dangling.

  \<^bold>\<open>Bounds.\<close> The log has fewer than \<open>2 ^ 50\<close> entries (\<open>fits\<close>), so that file offsets fit Go's
  \<^verbatim>\<open>int64\<close> and indices its \<^verbatim>\<open>uint64\<close>; entries have at most 112 bytes of command, as in the code.
  Terms are 64-bit words and may wrap, which the statements say. Loops are structural or have
  a measure; \<open>writeLoop\<close>, \<open>retryProbe\<close> and \<open>waitUp\<close> may not end, their value is an option, and
  they are proved to end for a writer and a clock that keep their contracts.

  \<^bold>\<open>Not modelled.\<close> Sockets, net/rpc, net/http, docker and the terminal library: they
  are parameters (an opened device, what a call returns, the text of a widget).
  \<^verbatim>\<open>Serve\<close> and \<^verbatim>\<open>Close\<close> of the RPC transport and
  \<^verbatim>\<open>NewFileStorage\<close> only call them. Debug output. The memory a slice shares with
  another one: an append request holds a slice of the leader's log
  (\<^verbatim>\<open>s.log[next:]\<close>), which either transport reads after the mutex was released,
  so that the leader's later truncations and appends can change it under way; and the in-memory
  transport hands it to the follower without a copy. The model copies the entries when the request is
  built (\<open>buildAppendEntries\<close>). The docker and HTTP calls of a background job return, as
  parameters of its environment that are functions (docker itself is run without a timeout). The scroll
  position of a tab. The wait on a channel is a second operation (\<open>awaitResults\<close>) on a
  later state. In the runs of a node a client submits at least one command per call, and no config
  change that does not decode (\<open>wf_command\<close>): \<^verbatim>\<open>Apply\<close> would take
  it, and a rebuilding of the cluster from the log would panic. Append requests of any form arrive,
  within the bound of the log; statements on what the handler answers assume that they can be stored and
  read (\<open>wf_request\<close>), which between the nodes of a cluster is proved. A cluster has the
  nodes of its founding configuration; what is sent to an added member is lost, and crashes and restarts
  of a node are not steps of it. The mutex is not a field: a locked section is one operation.
\<close>

end
